(* ===== verification/Prelude.thy ===== *)
theory Prelude
  imports Main "HOL-Library.Word" "HOL-Library.List_Lexorder" "HOL-Library.Product_Lexorder" "HOL-Library.Sublist"
begin

text \<open>
  Shared vocabulary of the development: machine-integer types, results with errors, the
  lexicographic order on byte strings (the order in which the storage engine keeps its keys)
  and big-endian byte strings.
\<close>

section \<open>Types\<close>

type_synonym byte = "8 word"
type_synonym bytes = "byte list"
type_synonym u16 = "16 word"
type_synonym u32 = "32 word"
type_synonym u64 = "64 word"

named_theorems lex_simps \<open>comparison of byte strings that share structure\<close>
named_theorems be_simps \<open>big-endian byte strings\<close>

section \<open>Results\<close>

text \<open>A fallible Rust function returns \<open>'e + 'a\<close>; \<open>and_then\<close> is the \<open>?\<close> operator.\<close>

definition and_then :: "('e + 'a) \<Rightarrow> ('a \<Rightarrow> 'e + 'b) \<Rightarrow> 'e + 'b" where
  "and_then r f = (case r of Inl e \<Rightarrow> Inl e | Inr a \<Rightarrow> f a)"

lemma and_then_simps [simp]:
  "and_then (Inl e) f = Inl e"
  "and_then (Inr a) f = f a"
  by (simp_all add: and_then_def)

lemma and_then_Inr_iff:
  "and_then r f = Inr b \<longleftrightarrow> (\<exists>a. r = Inr a \<and> f a = Inr b)"
  by (cases r) auto

lemma and_then_assoc: "and_then (and_then r f) g = and_then r (\<lambda>a. and_then (f a) g)"
  by (cases r) simp_all

section \<open>The lexicographic order on byte strings\<close>

lemma lex_append_same [simp, lex_simps]:
  fixes xs :: "'a::linorder list"
  shows "xs @ a < xs @ b \<longleftrightarrow> a < b"
  by (induction xs) auto

lemma lex_append_same_le [simp, lex_simps]:
  fixes xs :: "'a::linorder list"
  shows "xs @ a \<le> xs @ b \<longleftrightarrow> a \<le> b"
  by (induction xs) auto

lemma lex_less_append:
  fixes xs :: "'a::linorder list"
  assumes "xs < ys" and "length xs = length ys"
  shows "xs @ a < ys @ b"
  using assms(2,1) by (induction xs ys rule: list_induct2) auto

lemma lex_append_iff:
  fixes xs :: "'a::linorder list"
  assumes "length xs = length ys"
  shows "xs @ a < ys @ b \<longleftrightarrow> xs < ys \<or> xs = ys \<and> a < b"
  using assms by (induction xs ys rule: list_induct2) auto

lemma lex_prefix_le [intro]: "prefix xs (ys :: 'a::linorder list) \<Longrightarrow> xs \<le> ys"
proof -
  have "xs \<le> xs @ zs" for zs :: "'a list"
    by (induction xs) auto
  then show "prefix xs ys \<Longrightarrow> xs \<le> ys"
    by (auto simp: prefix_def)
qed

lemma lex_strict_prefix_less: "strict_prefix xs (ys :: 'a::linorder list) \<Longrightarrow> xs < ys"
  using lex_prefix_le by (metis order_le_less prefix_order.le_less prefix_order.less_imp_neq)

lemma lex_snoc_less:
  fixes xs :: "'a::linorder list"
  assumes "length xs = length ys"
  shows "xs @ [a] < ys @ [b] \<longleftrightarrow> xs < ys \<or> xs = ys \<and> a < b"
  using assms by (induction xs ys rule: list_induct2) auto

lemma prefix_append_len: "length a = length b \<Longrightarrow> prefix (a @ x) (b @ y) \<longleftrightarrow> a = b \<and> prefix x y"
  by (induction a b rule: list_induct2) auto

text \<open>Once two strings differ at a position, no continuation changes their order.\<close>

lemma lex_less_cases:
  fixes xs :: "'a::linorder list"
  assumes "xs < ys"
  obtains (prefix) z zs where "ys = xs @ z # zs"
  | (diff) ps a as b bs where "xs = ps @ a # as" "ys = ps @ b # bs" "a < b"
proof -
  have "(\<exists>z zs. ys = xs @ z # zs) \<or>
    (\<exists>ps a as b bs. xs = ps @ a # as \<and> ys = ps @ b # bs \<and> a < b)"
    using assms
  proof (induction xs arbitrary: ys)
    case Nil
    then show ?case by (cases ys) auto
  next
    case (Cons x xs)
    then obtain y ys' where ys: "ys = y # ys'"
      by (cases ys) auto
    show ?case
    proof (cases "x < y")
      case True
      then show ?thesis using ys by (metis append_Nil)
    next
      case False
      with Cons.prems ys have "x = y" "xs < ys'" by auto
      from Cons.IH [OF this(2)] show ?thesis
        unfolding ys \<open>x = y\<close> by (metis append_Cons)
    qed
  qed
  then show thesis using that by blast
qed

lemma lex_less_append_not_prefix:
  fixes xs :: "'a::linorder list"
  assumes "xs < ys" and "\<not> prefix xs ys"
  shows "xs @ a < ys @ b"
  using assms(1)
proof (cases rule: lex_less_cases)
  case prefix
  with assms(2) show ?thesis by auto
next
  case diff
  then show ?thesis by simp
qed

section \<open>Big-endian byte strings\<close>

text \<open>
  \<open>write_be n x\<close> is what \<open>byteorder\<close>'s \<open>write_uN::<BE>\<close> and \<open>to_be_bytes\<close> emit for an
  \<open>8 * n\<close>-bit value; \<open>read_be\<close> is the value of a big-endian byte string.
\<close>

fun write_be :: "nat \<Rightarrow> nat \<Rightarrow> bytes" where
  "write_be 0 x = []"
| "write_be (Suc n) x = write_be n (x div 256) @ [word_of_nat (x mod 256)]"

definition read_be :: "bytes \<Rightarrow> nat" where
  "read_be bs = foldl (\<lambda>acc b. acc * 256 + unat b) 0 bs"

lemma read_be_Nil [simp]: "read_be [] = 0"
  by (simp add: read_be_def)

lemma read_be_snoc [simp, be_simps]: "read_be (bs @ [b]) = read_be bs * 256 + unat b"
  by (simp add: read_be_def)

lemma length_write_be [simp, be_simps]: "length (write_be n x) = n"
  by (induction n arbitrary: x) auto

lemma unat_byte_mod: "unat (word_of_nat (x mod 256) :: byte) = x mod 256"
  by (simp add: unat_of_nat take_bit_eq_mod)

lemma unat_byte_bound: "unat (b :: byte) < 256"
  using unsigned_less [of b] by simp

lemma read_write_be [be_simps]: "read_be (write_be n x) = x mod 256 ^ n"
proof (induction n arbitrary: x)
  case (Suc n)
  have "x mod 256 ^ Suc n = x div 256 mod 256 ^ n * 256 + x mod 256"
    using mod_mult2_eq [of x 256 "256 ^ n"] by simp
  then show ?case using Suc by (simp add: unat_byte_mod)
qed simp

lemma read_be_bound: "read_be bs < 256 ^ length bs"
proof (induction bs rule: rev_induct)
  case (snoc b bs)
  have "unat b < 256" by (rule unat_byte_bound)
  with snoc show ?case by simp
qed simp

lemma write_read_be: "write_be (length bs) (read_be bs) = bs"
proof (induction bs rule: rev_induct)
  case (snoc b bs)
  have "unat b < 256" by (rule unat_byte_bound)
  with snoc show ?case by simp
qed simp

lemma write_be_inject:
  assumes "x < 256 ^ n" and "y < 256 ^ n"
  shows "write_be n x = write_be n y \<longleftrightarrow> x = y"
proof
  assume "write_be n x = write_be n y"
  then have "read_be (write_be n x) = read_be (write_be n y)" by simp
  then show "x = y" unfolding read_write_be using assms by (simp only: mod_less)
next
  assume "x = y"
  then show "write_be n x = write_be n y" by (rule arg_cong)
qed

lemma write_be_less:
  assumes "x < y" and "y < 256 ^ n"
  shows "write_be n x < write_be n y"
  using assms
proof (induction n arbitrary: x y)
  case (Suc n)
  have *: "x div 256 < y div 256 \<or> x div 256 = y div 256 \<and> x mod 256 < y mod 256"
    using Suc.prems(1) div_le_mono [of x y 256]
      div_mult_mod_eq [of x 256] div_mult_mod_eq [of y 256] by linarith
  have "y div 256 < 256 ^ n" using Suc.prems(2) by (intro less_mult_imp_div_less) (simp only: power_Suc mult.commute)
  with * Suc.IH show ?case
    by (auto simp: lex_snoc_less word_less_nat_alt unat_byte_mod)
qed simp

lemma write_be_less_iff:
  assumes "x < 256 ^ n" and "y < 256 ^ n"
  shows "write_be n x < write_be n y \<longleftrightarrow> x < y"
  by (metis assms write_be_less not_less_iff_gr_or_eq order_less_asym)

end
