(* ===== verification/Skey_Encode.thy ===== *)
theory Skey_Encode
  imports Prelude
begin

text \<open>
  The order-preserving key serialiser of \<open>swarm/skey/src/encode.rs\<close>. Values are those of the
  serde data model; every \<open>serialize_*\<close> method of the Rust \<open>Serializer\<close> is a definition of
  the same name that returns the bytes the method appends to its writer. Signed integers and
  floats are their bit patterns (\<open>i64\<close> as a 64-bit word read by \<open>sint\<close>, \<open>f64\<close> as
  \<open>to_bits\<close>), strings are their UTF-8 bytes.
\<close>

unbundle bit_operations_syntax

section \<open>Words as big-endian bytes\<close>

definition write_word :: "'a::len word \<Rightarrow> bytes" where
  "write_word w = write_be (LENGTH('a) div 8) (unat w)"

section \<open>UTF-8, as \<open>std::str::from_utf8\<close> accepts it\<close>

definition utf8_cont :: "byte \<Rightarrow> bool" where
  "utf8_cont b \<longleftrightarrow> 0x80 \<le> b \<and> b \<le> 0xBF"

text \<open>The length of the character a byte string starts with, if it starts with one.\<close>

fun utf8_head :: "bytes \<Rightarrow> nat option" where
  "utf8_head [] = None"
| "utf8_head (a # r) =
    (if a < 0x80 then Some 1
     else if 0xC2 \<le> a \<and> a \<le> 0xDF then
       (case r of b # _ \<Rightarrow> if utf8_cont b then Some 2 else None | _ \<Rightarrow> None)
     else if 0xE0 \<le> a \<and> a \<le> 0xEF then
       (case r of
          b # c # _ \<Rightarrow>
            if (if a = 0xE0 then 0xA0 else 0x80) \<le> b
              \<and> b \<le> (if a = 0xED then 0x9F else 0xBF) \<and> utf8_cont c
            then Some 3 else None
        | _ \<Rightarrow> None)
     else if 0xF0 \<le> a \<and> a \<le> 0xF4 then
       (case r of
          b # c # d # _ \<Rightarrow>
            if (if a = 0xF0 then 0x90 else 0x80) \<le> b
              \<and> b \<le> (if a = 0xF4 then 0x8F else 0xBF) \<and> utf8_cont c \<and> utf8_cont d
            then Some 4 else None
        | _ \<Rightarrow> None)
     else None)"

lemma utf8_head_bounds: "utf8_head bs = Some n \<Longrightarrow> 0 < n \<and> n \<le> length bs"
  by (cases bs) (auto split: if_splits list.splits)

function utf8_valid :: "bytes \<Rightarrow> bool" where
  "utf8_valid bs =
    (bs = [] \<or> (case utf8_head bs of None \<Rightarrow> False | Some n \<Rightarrow> utf8_valid (drop n bs)))"
  by pat_completeness auto
termination
  by (relation "measure length") (auto dest: utf8_head_bounds)

declare utf8_valid.simps [simp del]

lemma utf8_valid_Nil [simp]: "utf8_valid []"
  by (simp add: utf8_valid.simps)

lemma utf8_valid_single: "utf8_head c = Some (length c) \<Longrightarrow> utf8_valid c"
  by (simp add: utf8_valid.simps [of c])

section \<open>The serializer's primitive methods\<close>

datatype ser_error = Ser_Message string | Ser_Io

text \<open>\<open>serialize_var_u64\<close>: a 4-bit count of trailing bytes, then the value.\<close>

definition serialize_var_u64 :: "u64 \<Rightarrow> bytes" where
  "serialize_var_u64 val =
    (if val < push_bit 4 1 then write_word (ucast val :: byte)
     else if val < push_bit 12 1 then write_word ((ucast val :: u16) OR push_bit 12 1)
     else if val < push_bit 20 1 then
       write_word ((ucast (drop_bit 16 val) :: byte) OR push_bit 4 2) @ write_word (ucast val :: u16)
     else if val < push_bit 28 1 then write_word ((ucast val :: u32) OR push_bit 28 3)
     else if val < push_bit 36 1 then
       write_word ((ucast (drop_bit 32 val) :: byte) OR push_bit 4 4) @ write_word (ucast val :: u32)
     else if val < push_bit 44 1 then
       write_word ((ucast (drop_bit 32 val) :: u16) OR push_bit 12 5) @ write_word (ucast val :: u32)
     else if val < push_bit 52 1 then
       write_word ((ucast (drop_bit 48 val) :: byte) OR push_bit 4 6)
         @ write_word (ucast (drop_bit 32 val) :: u16) @ write_word (ucast val :: u32)
     else if val < push_bit 60 1 then write_word (val OR push_bit 60 7)
     else write_word (push_bit 4 8 :: byte) @ write_word val)"

text \<open>\<open>serialize_var_i64\<close>: the sign bit, the count, then the (complemented) magnitude.\<close>

definition unsigned_abs :: "u64 \<Rightarrow> u64" where
  "unsigned_abs v = (if sint v < 0 then - v else v)"

definition serialize_var_i64 :: "u64 \<Rightarrow> bytes" where
  "serialize_var_i64 v =
    (let mask = signed_drop_bit 63 v;
         val = unsigned_abs v - (1 AND mask)
     in if val < push_bit 3 1 then
          write_word (ucast ((val OR push_bit 3 0x10) XOR mask) :: byte)
        else if val < push_bit 11 1 then
          write_word (ucast ((val OR push_bit 11 0x11) XOR mask) :: u16)
        else if val < push_bit 19 1 then
          (let masked = (val OR push_bit 19 0x12) XOR mask
           in write_word (ucast (drop_bit 16 masked) :: byte) @ write_word (ucast masked :: u16))
        else if val < push_bit 27 1 then
          write_word (ucast ((val OR push_bit 27 0x13) XOR mask) :: u32)
        else if val < push_bit 35 1 then
          (let masked = (val OR push_bit 35 0x14) XOR mask
           in write_word (ucast (drop_bit 32 masked) :: byte) @ write_word (ucast masked :: u32))
        else if val < push_bit 43 1 then
          (let masked = (val OR push_bit 43 0x15) XOR mask
           in write_word (ucast (drop_bit 32 masked) :: u16) @ write_word (ucast masked :: u32))
        else if val < push_bit 51 1 then
          (let masked = (val OR push_bit 51 0x16) XOR mask
           in write_word (ucast (drop_bit 48 masked) :: byte)
                @ write_word (ucast (drop_bit 32 masked) :: u16) @ write_word (ucast masked :: u32))
        else if val < push_bit 59 1 then
          write_word ((val OR push_bit 59 0x17) XOR mask)
        else write_word (push_bit 3 0x18 XOR ucast mask :: byte) @ write_word (val XOR mask))"

definition serialize_bool :: "bool \<Rightarrow> bytes" where
  "serialize_bool v = write_word (if v then 1 else 0 :: byte)"

definition serialize_i8 :: "byte \<Rightarrow> bytes" where
  "serialize_i8 v = write_word (v XOR push_bit 7 1)"

definition serialize_i16 :: "u16 \<Rightarrow> bytes" where
  "serialize_i16 v = write_word (v XOR push_bit 15 1)"

definition serialize_i32 :: "u32 \<Rightarrow> bytes" where
  "serialize_i32 v = write_word (v XOR push_bit 31 1)"

definition serialize_i64 :: "u64 \<Rightarrow> bytes" where
  "serialize_i64 v = write_word (v XOR push_bit 63 1)"

definition serialize_u8 :: "byte \<Rightarrow> bytes" where
  "serialize_u8 v = write_word v"

definition serialize_u16 :: "u16 \<Rightarrow> bytes" where
  "serialize_u16 v = write_word v"

definition serialize_u32 :: "u32 \<Rightarrow> bytes" where
  "serialize_u32 v = write_word v"

definition serialize_u64 :: "u64 \<Rightarrow> bytes" where
  "serialize_u64 v = write_word v"

definition serialize_f32 :: "u32 \<Rightarrow> bytes" where
  "serialize_f32 val = write_word (val XOR (signed_drop_bit 31 val OR push_bit 31 1))"

definition serialize_f64 :: "u64 \<Rightarrow> bytes" where
  "serialize_f64 val = write_word (val XOR (signed_drop_bit 63 val OR push_bit 63 1))"

definition serialize_str :: "bytes \<Rightarrow> ser_error + bytes" where
  "serialize_str v =
    (if 0 \<in> set v then Inl (Ser_Message ''cannot serialize a str containing NUL'')
     else Inr (v @ write_word (0 :: byte)))"

definition serialize_char :: "bytes \<Rightarrow> ser_error + bytes" where
  "serialize_char v =
    (if v = [0] then Inl (Ser_Message ''cannot serialize NUL char'') else serialize_str v)"

definition serialize_bytes :: "bytes \<Rightarrow> bytes" where
  "serialize_bytes v = write_word (word_of_nat (length v) :: u64) @ v"

definition serialize_none :: bytes where
  "serialize_none = write_word (0 :: byte)"

definition serialize_unit :: bytes where
  "serialize_unit = []"

definition serialize_unit_variant :: "u32 \<Rightarrow> bytes" where
  "serialize_unit_variant variant_index = serialize_u32 variant_index"

text \<open>\<open>SerializeSeq::end\<close> and \<open>SerializeMap::end\<close>; the other compounds end silently.\<close>

definition seq_end :: bytes where
  "seq_end = write_word (1 :: byte)"

section \<open>The serde data model and its encoding\<close>

datatype sval =
    VBool bool
  | VI8 byte | VI16 u16 | VI32 u32 | VI64 u64
  | VU8 byte | VU16 u16 | VU32 u32 | VU64 u64
  | VF32 u32 | VF64 u64
  | VChar bytes | VStr bytes | VBytes bytes
  | VNone | VSome sval
  | VUnit
  | VUnitVariant u32
  | VNewtypeStruct sval
  | VNewtypeVariant u32 sval
  | VSeq "sval list"
  | VTuple "sval list"
  | VTupleVariant u32 "sval list"
  | VMap "(sval \<times> sval) list"
  | VStruct "sval list"
  | VStructVariant u32 "sval list"

text \<open>Fields are written in order; the first failing field aborts the encoding.\<close>

fun ser_all :: "(ser_error + bytes) list \<Rightarrow> ser_error + bytes" where
  "ser_all [] = Inr []"
| "ser_all (r # rs) = and_then r (\<lambda>a. and_then (ser_all rs) (\<lambda>b. Inr (a @ b)))"

definition ser_pre :: "bytes \<Rightarrow> ser_error + bytes \<Rightarrow> ser_error + bytes" where
  "ser_pre a r = and_then r (\<lambda>b. Inr (a @ b))"

definition ser_post :: "ser_error + bytes \<Rightarrow> bytes \<Rightarrow> ser_error + bytes" where
  "ser_post r b = and_then r (\<lambda>a. Inr (a @ b))"

primrec serialize :: "sval \<Rightarrow> ser_error + bytes" where
  "serialize (VBool v) = Inr (serialize_bool v)"
| "serialize (VI8 v) = Inr (serialize_i8 v)"
| "serialize (VI16 v) = Inr (serialize_i16 v)"
| "serialize (VI32 v) = Inr (serialize_i32 v)"
| "serialize (VI64 v) = Inr (serialize_i64 v)"
| "serialize (VU8 v) = Inr (serialize_u8 v)"
| "serialize (VU16 v) = Inr (serialize_u16 v)"
| "serialize (VU32 v) = Inr (serialize_u32 v)"
| "serialize (VU64 v) = Inr (serialize_u64 v)"
| "serialize (VF32 v) = Inr (serialize_f32 v)"
| "serialize (VF64 v) = Inr (serialize_f64 v)"
| "serialize (VChar v) = serialize_char v"
| "serialize (VStr v) = serialize_str v"
| "serialize (VBytes v) = Inr (serialize_bytes v)"
| "serialize VNone = Inr serialize_none"
| "serialize (VSome v) = ser_pre (write_word (1 :: byte)) (serialize v)"
| "serialize VUnit = Inr serialize_unit"
| "serialize (VUnitVariant i) = Inr (serialize_unit_variant i)"
| "serialize (VNewtypeStruct v) = serialize v"
| "serialize (VNewtypeVariant i v) = ser_pre (write_word i) (serialize v)"
| "serialize (VSeq vs) = ser_post (ser_all (map serialize vs)) seq_end"
| "serialize (VTuple vs) = ser_all (map serialize vs)"
| "serialize (VTupleVariant i vs) = ser_pre (write_word i) (ser_all (map serialize vs))"
| "serialize (VMap kvs) =
     ser_post (ser_all (map (\<lambda>(k, v). ser_all [k, v]) (map (map_prod serialize serialize) kvs))) seq_end"
| "serialize (VStruct vs) = ser_all (map serialize vs)"
| "serialize (VStructVariant i vs) = ser_pre (write_word i) (ser_all (map serialize vs))"

section \<open>Basic facts\<close>

lemma length_write_word [simp, be_simps]: "length (write_word (w :: 'a::len word)) = LENGTH('a) div 8"
  by (simp add: write_word_def)

lemma write_word_byte [simp, be_simps]: "write_word (b :: byte) = [b]"
proof -
  have "LENGTH(8) div 8 = Suc 0" by simp
  then have "write_word b = write_be (Suc 0) (unat b)"
    by (simp only: write_word_def)
  then show ?thesis
    by (simp only: write_be.simps append_Nil mod_less [OF unat_byte_bound]) simp
qed

lemma unat_word_bound:
  assumes "8 dvd LENGTH('a::len)"
  shows "unat (w :: 'a word) < 256 ^ (LENGTH('a) div 8)"
proof -
  have "(256 :: nat) ^ (LENGTH('a) div 8) = 2 ^ (8 * (LENGTH('a) div 8))"
    by (simp add: power_mult)
  also have "\<dots> = 2 ^ LENGTH('a)"
    using assms by simp
  finally show ?thesis using unsigned_less [of w] by simp
qed

lemma read_write_word [be_simps]:
  assumes "8 dvd LENGTH('a::len)"
  shows "word_of_nat (read_be (write_word (w :: 'a word))) = w"
proof -
  have "read_be (write_word w) = unat w"
    by (simp add: write_word_def read_write_be mod_less [OF unat_word_bound [OF assms]])
  then show ?thesis by simp
qed

lemma write_word_less_iff [lex_simps]:
  assumes "8 dvd LENGTH('a::len)"
  shows "write_word (v :: 'a word) < write_word w \<longleftrightarrow> v < w"
  unfolding write_word_def word_less_nat_alt
  by (rule write_be_less_iff) (rule unat_word_bound [OF assms])+

lemma write_word_inject [simp]:
  assumes "8 dvd LENGTH('a::len)"
  shows "write_word (v :: 'a word) = write_word w \<longleftrightarrow> v = w"
  by (metis assms read_write_word)

lemma ser_pre_Inr_iff: "ser_pre a r = Inr c \<longleftrightarrow> (\<exists>b. r = Inr b \<and> c = a @ b)"
  by (auto simp: ser_pre_def and_then_Inr_iff)

lemma ser_post_Inr_iff: "ser_post r b = Inr c \<longleftrightarrow> (\<exists>a. r = Inr a \<and> c = a @ b)"
  by (auto simp: ser_post_def and_then_Inr_iff)

lemma ser_all_Cons_Inr_iff:
  "ser_all (r # rs) = Inr c \<longleftrightarrow> (\<exists>a b. r = Inr a \<and> ser_all rs = Inr b \<and> c = a @ b)"
  by (auto simp: and_then_Inr_iff)

lemma serialize_str_Inr_iff: "serialize_str v = Inr c \<longleftrightarrow> 0 \<notin> set v \<and> c = v @ [0]"
  by (auto simp: serialize_str_def)

lemma serialize_char_Inr_iff: "serialize_char v = Inr c \<longleftrightarrow> 0 \<notin> set v \<and> c = v @ [0]"
  by (auto simp: serialize_char_def serialize_str_def)

lemmas ser_Inr_iffs = ser_pre_Inr_iff ser_post_Inr_iff ser_all_Cons_Inr_iff
  serialize_str_Inr_iff serialize_char_Inr_iff

lemmas ser_prim_defs = serialize_bool_def serialize_i8_def serialize_i16_def serialize_i32_def
  serialize_i64_def serialize_u8_def serialize_u16_def serialize_u32_def serialize_u64_def
  serialize_f32_def serialize_f64_def serialize_bytes_def serialize_none_def serialize_unit_def
  serialize_unit_variant_def seq_end_def

section \<open>Sign bits\<close>

lemma signed_drop_all_bits:
  "signed_drop_bit (LENGTH('a) - 1) (w :: 'a::len word) = (if bit w (LENGTH('a) - 1) then - 1 else 0)"
  by (rule bit_word_eqI) (auto simp: bit_signed_drop_bit_iff Suc_le_eq)

text \<open>The total-order trick on floats: flip the sign bit, and all others of a negative value.\<close>

lemma float_flip_undo:
  fixes v :: "'a::len word"
  defines "hi \<equiv> push_bit (LENGTH('a) - 1) (1 :: 'a word)"
  defines "val \<equiv> v XOR (signed_drop_bit (LENGTH('a) - 1) v OR hi)"
  shows "val XOR (signed_drop_bit (LENGTH('a) - 1) (val XOR hi) OR hi) = v"
  unfolding val_def hi_def signed_drop_all_bits
  by (rule bit_word_eqI) (auto simp: bit_simps)

end
