(* ===== verification/Skey_Decode.thy ===== *)
theory Skey_Decode
  imports Skey_Encode
begin

text \<open>
  The key deserialiser of \<open>swarm/skey/src/decode.rs\<close> and its slice reader
  (\<open>decode/read.rs\<close>). A reader consumes a byte string and returns a result with what is left
  of the string; on an error the rest is what the Rust reader would still hold. The format is
  not self-describing: \<open>deserialize\<close> is driven by a type, as the serde visitors drive the
  Rust \<open>Deserializer\<close>.
\<close>

unbundle bit_operations_syntax

section \<open>Readers\<close>

text \<open>
  \<open>Overflow\<close> is an arithmetic overflow of the variable-length decoders (a panic where
  overflow checks are on), \<open>Diverges\<close> a sequence loop that would never end because its
  elements consume nothing.
\<close>

datatype de_error =
    DeserializeAnyUnsupported
  | UnexpectedEof
  | InvalidUtf8
  | De_Message string
  | Io_UnexpectedEof
  | Overflow
  | Diverges

type_synonym 'a reader = "bytes \<Rightarrow> (de_error + 'a) \<times> bytes"

definition rret :: "'a \<Rightarrow> 'a reader" where
  "rret a = (\<lambda>bs. (Inr a, bs))"

definition rfail :: "de_error \<Rightarrow> 'a reader" where
  "rfail e = (\<lambda>bs. (Inl e, bs))"

definition rbind :: "'a reader \<Rightarrow> ('a \<Rightarrow> 'b reader) \<Rightarrow> 'b reader" where
  "rbind m f = (\<lambda>bs. case m bs of (Inl e, r) \<Rightarrow> (Inl e, r) | (Inr a, r) \<Rightarrow> f a r)"

section \<open>\<open>SliceReader\<close>\<close>

definition read_exact :: "nat \<Rightarrow> bytes reader" where
  "read_exact n = (\<lambda>inner.
     if length inner < n then (Inl Io_UnexpectedEof, []) else (Inr (take n inner), drop n inner))"

definition remaining :: "bytes \<Rightarrow> nat" where
  "remaining inner = length inner"

definition read_reference :: "nat \<Rightarrow> bytes reader" where
  "read_reference len = (\<lambda>inner.
     if len > length inner then (Inl Io_UnexpectedEof, inner) else (Inr (take len inner), drop len inner))"

text \<open>\<open>memchr\<close>: the part before the first delimiter, and the part after it.\<close>

fun memchr_split :: "byte \<Rightarrow> bytes \<Rightarrow> (bytes \<times> bytes) option" where
  "memchr_split d [] = None"
| "memchr_split d (b # bs) =
    (if b = d then Some ([], bs)
     else map_option (\<lambda>(before, after). (b # before, after)) (memchr_split d bs))"

definition read_reference_until :: "byte \<Rightarrow> bytes reader" where
  "read_reference_until delimiter = (\<lambda>inner.
     case memchr_split delimiter inner of
       Some (before, after) \<Rightarrow> (Inr before, after)
     | None \<Rightarrow> (Inl Io_UnexpectedEof, inner))"

definition read_word :: "'a::len word reader" where
  "read_word = rbind (read_exact (LENGTH('a) div 8)) (\<lambda>b. rret (word_of_nat (read_be b)))"

definition move_on :: "bytes \<Rightarrow> bool \<times> bytes" where
  "move_on inner = (case inner of b # r \<Rightarrow> if b = 1 then (True, r) else (False, inner) | [] \<Rightarrow> (False, inner))"

section \<open>Variable-length integers\<close>

text \<open>The \<open>for i in 1..=n\<close> loop, by the number \<open>n - i + 1\<close> of bytes still to read.\<close>

fun var_loop :: "byte \<Rightarrow> nat \<Rightarrow> u64 \<Rightarrow> u64 reader" where
  "var_loop msk 0 val = rret val"
| "var_loop msk (Suc k) val =
    rbind read_word (\<lambda>b :: byte.
      if 64 \<le> k * 8 then rfail Overflow
      else let t = push_bit (k * 8) (ucast (b XOR msk)) :: u64
        in if 2 ^ 64 \<le> unat val + unat t then rfail Overflow else var_loop msk k (val + t))"

definition deserialize_var_u64 :: "u64 reader" where
  "deserialize_var_u64 =
    rbind read_word (\<lambda>header :: byte.
      let n = unat (drop_bit 4 header);
          val = push_bit ((n * 8) mod 64) (ucast (header AND 0x0F)) :: u64
      in var_loop 0 n val)"

definition deserialize_var_i64 :: "u64 reader" where
  "deserialize_var_i64 =
    rbind read_word (\<lambda>header :: byte.
      let msk = signed_drop_bit 7 (header XOR 0x80);
          n = unat ((drop_bit 3 header XOR msk) AND 0x0F);
          val = push_bit ((n * 8) mod 64) (ucast ((header XOR msk) AND 0x07)) :: u64
      in rbind (var_loop msk n val) (\<lambda>val.
           let final_mask = signed_drop_bit 63 (push_bit 63 (ucast msk :: u64))
           in rret (val XOR final_mask)))"

section \<open>The deserializer's methods\<close>

definition deserialize_bool :: "bool reader" where
  "deserialize_bool = rbind read_word (\<lambda>b :: byte. rret (b \<noteq> 0))"

definition deserialize_i8 :: "byte reader" where
  "deserialize_i8 = rbind read_word (\<lambda>i. rret (i XOR push_bit 7 1))"

definition deserialize_i16 :: "u16 reader" where
  "deserialize_i16 = rbind read_word (\<lambda>i. rret (i XOR push_bit 15 1))"

definition deserialize_i32 :: "u32 reader" where
  "deserialize_i32 = rbind read_word (\<lambda>i. rret (i XOR push_bit 31 1))"

definition deserialize_i64 :: "u64 reader" where
  "deserialize_i64 = rbind read_word (\<lambda>i. rret (i XOR push_bit 63 1))"

definition deserialize_u8 :: "byte reader" where
  "deserialize_u8 = read_word"

definition deserialize_u16 :: "u16 reader" where
  "deserialize_u16 = read_word"

definition deserialize_u32 :: "u32 reader" where
  "deserialize_u32 = read_word"

definition deserialize_u64 :: "u64 reader" where
  "deserialize_u64 = read_word"

definition deserialize_f32 :: "u32 reader" where
  "deserialize_f32 = rbind read_word (\<lambda>val.
     let t = signed_drop_bit 31 (val XOR push_bit 31 1) OR push_bit 31 1 in rret (val XOR t))"

definition deserialize_f64 :: "u64 reader" where
  "deserialize_f64 = rbind read_word (\<lambda>val.
     let t = signed_drop_bit 63 (val XOR push_bit 63 1) OR push_bit 63 1 in rret (val XOR t))"

definition until_nul :: "bytes reader" where
  "until_nul = (\<lambda>inner. case read_reference_until 0 inner of
     (Inl _, r) \<Rightarrow> (Inl UnexpectedEof, r) | (Inr b, r) \<Rightarrow> (Inr b, r))"

definition deserialize_char :: "bytes reader" where
  "deserialize_char = rbind until_nul (\<lambda>bytes.
     if \<not> utf8_valid bytes then rfail InvalidUtf8
     else case utf8_head bytes of
         None \<Rightarrow> rfail (De_Message ''expected a single character, found empty input'')
       | Some n \<Rightarrow> rret (take n bytes))"

definition deserialize_str :: "bytes reader" where
  "deserialize_str = rbind until_nul (\<lambda>bytes.
     if \<not> utf8_valid bytes then rfail InvalidUtf8 else rret bytes)"

definition deserialize_bytes :: "bytes reader" where
  "deserialize_bytes = rbind read_word (\<lambda>len :: u64. read_reference (unat len))"

definition deserialize_option :: "'a reader \<Rightarrow> 'a option reader" where
  "deserialize_option d = rbind read_word (\<lambda>b :: byte.
     if b = 0 then rret None
     else if b = 1 then rbind d (\<lambda>v. rret (Some v))
     else rfail (De_Message ''expected 0 or 1 for option tag''))"

text \<open>
  \<open>deserialize_seq\<close>: elements until the \<open>0x01\<close> marker, or until an element hits the end of
  the input (then the sequence ends as well).
\<close>

fun seq_loop :: "nat \<Rightarrow> 'a reader \<Rightarrow> 'a list reader" where
  "seq_loop 0 d inner = (Inl Diverges, inner)"
| "seq_loop (Suc fuel) d inner =
    (case move_on inner of
       (True, r) \<Rightarrow> (Inr [], r)
     | (False, r) \<Rightarrow>
         (case d r of
            (Inr v, r') \<Rightarrow>
              (case seq_loop fuel d r' of
                 (Inr vs, r'') \<Rightarrow> (Inr (v # vs), r'')
               | (Inl e, r'') \<Rightarrow> (Inl e, r''))
          | (Inl e, r') \<Rightarrow> if e = Io_UnexpectedEof then (Inr [], r') else (Inl e, r')))"

definition deserialize_seq :: "'a reader \<Rightarrow> 'a list reader" where
  "deserialize_seq d = (\<lambda>inner. seq_loop (Suc (length inner)) d inner)"

fun deserialize_tuple :: "'a reader list \<Rightarrow> 'a list reader" where
  "deserialize_tuple [] = rret []"
| "deserialize_tuple (d # ds) = rbind d (\<lambda>v. rbind (deserialize_tuple ds) (\<lambda>vs. rret (v # vs)))"

fun map_loop :: "nat \<Rightarrow> 'k reader \<Rightarrow> 'v reader \<Rightarrow> ('k \<times> 'v) list reader" where
  "map_loop 0 dk dv inner = (Inl Diverges, inner)"
| "map_loop (Suc fuel) dk dv inner =
    (case move_on inner of
       (True, r) \<Rightarrow> (Inr [], r)
     | (False, r) \<Rightarrow>
         (case dk r of
            (Inr k, r') \<Rightarrow>
              rbind dv (\<lambda>v. rbind (map_loop fuel dk dv) (\<lambda>kvs. rret ((k, v) # kvs))) r'
          | (Inl e, r') \<Rightarrow> if e = Io_UnexpectedEof then (Inr [], r') else (Inl e, r')))"

definition deserialize_map :: "'k reader \<Rightarrow> 'v reader \<Rightarrow> ('k \<times> 'v) list reader" where
  "deserialize_map dk dv = (\<lambda>inner. map_loop (Suc (length inner)) dk dv inner)"

section \<open>Type-directed decoding\<close>

datatype vkind = KUnit | KNewtype | KTuple | KStruct

datatype sty =
    TBool
  | TI8 | TI16 | TI32 | TI64
  | TU8 | TU16 | TU32 | TU64
  | TF32 | TF64
  | TChar | TStr | TBytes
  | TOption sty
  | TUnit
  | TNewtype sty
  | TSeq sty
  | TTuple "sty list"
  | TMap sty sty
  | TStruct "sty list"
  | TEnum "(vkind \<times> sty list) list"

fun variant_value :: "u32 \<Rightarrow> vkind \<Rightarrow> sval list \<Rightarrow> sval" where
  "variant_value i KUnit vs = VUnitVariant i"
| "variant_value i KNewtype vs = (case vs of [v] \<Rightarrow> VNewtypeVariant i v | _ \<Rightarrow> VTupleVariant i vs)"
| "variant_value i KTuple vs = VTupleVariant i vs"
| "variant_value i KStruct vs = VStructVariant i vs"

definition deserialize_enum :: "(vkind \<times> sval reader list) list \<Rightarrow> sval reader" where
  "deserialize_enum variants = rbind read_word (\<lambda>idx :: u32.
     if unat idx < length variants
     then (case variants ! unat idx of (kind, ds) \<Rightarrow>
             rbind (deserialize_tuple ds) (\<lambda>vs. rret (variant_value idx kind vs)))
     else rfail (De_Message ''invalid value: variant index''))"

primrec deserialize :: "sty \<Rightarrow> sval reader" where
  "deserialize TBool = rbind deserialize_bool (\<lambda>v. rret (VBool v))"
| "deserialize TI8 = rbind deserialize_i8 (\<lambda>v. rret (VI8 v))"
| "deserialize TI16 = rbind deserialize_i16 (\<lambda>v. rret (VI16 v))"
| "deserialize TI32 = rbind deserialize_i32 (\<lambda>v. rret (VI32 v))"
| "deserialize TI64 = rbind deserialize_i64 (\<lambda>v. rret (VI64 v))"
| "deserialize TU8 = rbind deserialize_u8 (\<lambda>v. rret (VU8 v))"
| "deserialize TU16 = rbind deserialize_u16 (\<lambda>v. rret (VU16 v))"
| "deserialize TU32 = rbind deserialize_u32 (\<lambda>v. rret (VU32 v))"
| "deserialize TU64 = rbind deserialize_u64 (\<lambda>v. rret (VU64 v))"
| "deserialize TF32 = rbind deserialize_f32 (\<lambda>v. rret (VF32 v))"
| "deserialize TF64 = rbind deserialize_f64 (\<lambda>v. rret (VF64 v))"
| "deserialize TChar = rbind deserialize_char (\<lambda>v. rret (VChar v))"
| "deserialize TStr = rbind deserialize_str (\<lambda>v. rret (VStr v))"
| "deserialize TBytes = rbind deserialize_bytes (\<lambda>v. rret (VBytes v))"
| "deserialize (TOption t) = rbind (deserialize_option (deserialize t))
     (\<lambda>v. rret (case v of None \<Rightarrow> VNone | Some w \<Rightarrow> VSome w))"
| "deserialize TUnit = rret VUnit"
| "deserialize (TNewtype t) = rbind (deserialize t) (\<lambda>v. rret (VNewtypeStruct v))"
| "deserialize (TSeq t) = rbind (deserialize_seq (deserialize t)) (\<lambda>vs. rret (VSeq vs))"
| "deserialize (TTuple ts) = rbind (deserialize_tuple (map deserialize ts)) (\<lambda>vs. rret (VTuple vs))"
| "deserialize (TMap k v) = rbind (deserialize_map (deserialize k) (deserialize v)) (\<lambda>kvs. rret (VMap kvs))"
| "deserialize (TStruct ts) = rbind (deserialize_tuple (map deserialize ts)) (\<lambda>vs. rret (VStruct vs))"
| "deserialize (TEnum vs) = deserialize_enum (map (map_prod id (map deserialize)) vs)"

section \<open>Basic facts\<close>

lemma rbind_apply [simp]:
  "rbind m f bs = (case m bs of (Inl e, r) \<Rightarrow> (Inl e, r) | (Inr a, r) \<Rightarrow> f a r)"
  by (simp add: rbind_def)

lemma rret_apply [simp]: "rret a bs = (Inr a, bs)"
  by (simp add: rret_def)

lemma rfail_apply [simp]: "rfail e bs = (Inl e, bs)"
  by (simp add: rfail_def)

lemma read_exact_append [simp]: "length a = n \<Longrightarrow> read_exact n (a @ r) = (Inr a, r)"
  by (simp add: read_exact_def)

lemma read_word_write_word:
  assumes "8 dvd LENGTH('a::len)"
  shows "read_word (write_word (w :: 'a word) @ r) = (Inr w, r)"
  by (simp add: read_word_def read_write_word [OF assms])

lemma read_word_width [simp]:
  "read_word (write_word (a :: byte) @ r) = (Inr a, r)"
  "read_word (write_word (b :: u16) @ r) = (Inr b, r)"
  "read_word (write_word (c :: u32) @ r) = (Inr c, r)"
  "read_word (write_word (d :: u64) @ r) = (Inr d, r)"
  by (rule read_word_write_word, simp)+

lemma read_word_Cons [simp]: "read_word ((a :: byte) # r) = (Inr a, r)"
  using read_word_width(1) [of a r] by simp

lemma memchr_split_append: "d \<notin> set a \<Longrightarrow> memchr_split d (a @ d # r) = Some (a, r)"
  by (induction a) auto

lemma until_nul_append [simp]: "0 \<notin> set a \<Longrightarrow> until_nul (a @ 0 # r) = (Inr a, r)"
  by (simp add: until_nul_def read_reference_until_def memchr_split_append)

end
