(* ===== verification/Skey_Roundtrip.thy ===== *)
theory Skey_Roundtrip
  imports Skey_Decode
begin

text \<open>
  Decoding a key gives back the value it was encoded from. The values of a type are
  characterised by \<open>has_type\<close>; \<open>seq_ok\<close> says that no element of a sequence (no key of a map)
  has an empty encoding or one that starts with the end marker \<open>0x01\<close>, which is what the
  format needs to tell an element from the end of the sequence.
\<close>

unbundle bit_operations_syntax

section \<open>Typed values\<close>

fun fields_ok :: "('a \<Rightarrow> bool) list \<Rightarrow> 'a list \<Rightarrow> bool" where
  "fields_ok [] [] = True"
| "fields_ok (p # ps) (v # vs) = (p v \<and> fields_ok ps vs)"
| "fields_ok _ _ = False"

fun variant_parts :: "sval \<Rightarrow> (u32 \<times> vkind \<times> sval list) option" where
  "variant_parts (VUnitVariant i) = Some (i, KUnit, [])"
| "variant_parts (VNewtypeVariant i v) = Some (i, KNewtype, [v])"
| "variant_parts (VTupleVariant i vs) = Some (i, KTuple, vs)"
| "variant_parts (VStructVariant i vs) = Some (i, KStruct, vs)"
| "variant_parts _ = None"

definition variant_ok :: "(vkind \<times> (sval \<Rightarrow> bool) list) list \<Rightarrow> sval \<Rightarrow> bool" where
  "variant_ok variants v =
    (case variant_parts v of
       None \<Rightarrow> False
     | Some (i, k, vs) \<Rightarrow>
         unat i < length variants \<and> fst (variants ! unat i) = k
           \<and> fields_ok (snd (variants ! unat i)) vs)"

primrec has_type :: "sty \<Rightarrow> sval \<Rightarrow> bool" where
  "has_type TBool v = (case v of VBool _ \<Rightarrow> True | _ \<Rightarrow> False)"
| "has_type TI8 v = (case v of VI8 _ \<Rightarrow> True | _ \<Rightarrow> False)"
| "has_type TI16 v = (case v of VI16 _ \<Rightarrow> True | _ \<Rightarrow> False)"
| "has_type TI32 v = (case v of VI32 _ \<Rightarrow> True | _ \<Rightarrow> False)"
| "has_type TI64 v = (case v of VI64 _ \<Rightarrow> True | _ \<Rightarrow> False)"
| "has_type TU8 v = (case v of VU8 _ \<Rightarrow> True | _ \<Rightarrow> False)"
| "has_type TU16 v = (case v of VU16 _ \<Rightarrow> True | _ \<Rightarrow> False)"
| "has_type TU32 v = (case v of VU32 _ \<Rightarrow> True | _ \<Rightarrow> False)"
| "has_type TU64 v = (case v of VU64 _ \<Rightarrow> True | _ \<Rightarrow> False)"
| "has_type TF32 v = (case v of VF32 _ \<Rightarrow> True | _ \<Rightarrow> False)"
| "has_type TF64 v = (case v of VF64 _ \<Rightarrow> True | _ \<Rightarrow> False)"
| "has_type TChar v = (case v of VChar c \<Rightarrow> utf8_head c = Some (length c) | _ \<Rightarrow> False)"
| "has_type TStr v = (case v of VStr s \<Rightarrow> utf8_valid s | _ \<Rightarrow> False)"
| "has_type TBytes v = (case v of VBytes b \<Rightarrow> length b < 2 ^ 64 | _ \<Rightarrow> False)"
| "has_type (TOption t) v = (case v of VNone \<Rightarrow> True | VSome w \<Rightarrow> has_type t w | _ \<Rightarrow> False)"
| "has_type TUnit v = (case v of VUnit \<Rightarrow> True | _ \<Rightarrow> False)"
| "has_type (TNewtype t) v = (case v of VNewtypeStruct w \<Rightarrow> has_type t w | _ \<Rightarrow> False)"
| "has_type (TSeq t) v = (case v of VSeq vs \<Rightarrow> list_all (has_type t) vs | _ \<Rightarrow> False)"
| "has_type (TTuple ts) v = (case v of VTuple vs \<Rightarrow> fields_ok (map has_type ts) vs | _ \<Rightarrow> False)"
| "has_type (TMap tk tv) v =
     (case v of VMap kvs \<Rightarrow> list_all (\<lambda>(k, w). has_type tk k \<and> has_type tv w) kvs | _ \<Rightarrow> False)"
| "has_type (TStruct ts) v = (case v of VStruct vs \<Rightarrow> fields_ok (map has_type ts) vs | _ \<Rightarrow> False)"
| "has_type (TEnum vs) v = variant_ok (map (map_prod id (map has_type)) vs) v"

definition elem_ok :: "ser_error + bytes \<Rightarrow> bool" where
  "elem_ok r = (case r of Inl _ \<Rightarrow> True | Inr [] \<Rightarrow> False | Inr (b # _) \<Rightarrow> b \<noteq> 1)"

text \<open>Every element of a sequence and every key of a map, at any depth, has property \<open>p\<close>.\<close>

primrec seq_all :: "(ser_error + bytes \<Rightarrow> bool) \<Rightarrow> sval \<Rightarrow> bool" where
  "seq_all p (VBool v) = True"
| "seq_all p (VI8 v) = True"
| "seq_all p (VI16 v) = True"
| "seq_all p (VI32 v) = True"
| "seq_all p (VI64 v) = True"
| "seq_all p (VU8 v) = True"
| "seq_all p (VU16 v) = True"
| "seq_all p (VU32 v) = True"
| "seq_all p (VU64 v) = True"
| "seq_all p (VF32 v) = True"
| "seq_all p (VF64 v) = True"
| "seq_all p (VChar v) = True"
| "seq_all p (VStr v) = True"
| "seq_all p (VBytes v) = True"
| "seq_all p VNone = True"
| "seq_all p (VSome v) = seq_all p v"
| "seq_all p VUnit = True"
| "seq_all p (VUnitVariant i) = True"
| "seq_all p (VNewtypeStruct v) = seq_all p v"
| "seq_all p (VNewtypeVariant i v) = seq_all p v"
| "seq_all p (VSeq vs) = (list_all (\<lambda>v. p (serialize v)) vs \<and> list_all id (map (seq_all p) vs))"
| "seq_all p (VTuple vs) = list_all id (map (seq_all p) vs)"
| "seq_all p (VTupleVariant i vs) = list_all id (map (seq_all p) vs)"
| "seq_all p (VMap kvs) =
     (list_all (\<lambda>(k, v). p (serialize k)) kvs
       \<and> list_all (\<lambda>(a, b). a \<and> b) (map (map_prod (seq_all p) (seq_all p)) kvs))"
| "seq_all p (VStruct vs) = list_all id (map (seq_all p) vs)"
| "seq_all p (VStructVariant i vs) = list_all id (map (seq_all p) vs)"

definition seq_ok :: "sval \<Rightarrow> bool" where
  "seq_ok v = seq_all elem_ok v"

lemma list_all_id_map [simp]: "list_all id (map p xs) \<longleftrightarrow> (\<forall>x\<in>set xs. p x)"
  by (auto simp: list_all_iff)

lemma seq_ok_simps [simp]:
  "seq_ok (VSome v) = seq_ok v"
  "seq_ok (VNewtypeStruct v) = seq_ok v"
  "seq_ok (VNewtypeVariant i v) = seq_ok v"
  "seq_ok (VSeq vs) \<longleftrightarrow> (\<forall>v\<in>set vs. elem_ok (serialize v) \<and> seq_ok v)"
  "seq_ok (VTuple vs) \<longleftrightarrow> (\<forall>v\<in>set vs. seq_ok v)"
  "seq_ok (VTupleVariant i vs) \<longleftrightarrow> (\<forall>v\<in>set vs. seq_ok v)"
  "seq_ok (VMap kvs) \<longleftrightarrow> (\<forall>(k, v)\<in>set kvs. elem_ok (serialize k) \<and> seq_ok k \<and> seq_ok v)"
  "seq_ok (VStruct vs) \<longleftrightarrow> (\<forall>v\<in>set vs. seq_ok v)"
  "seq_ok (VStructVariant i vs) \<longleftrightarrow> (\<forall>v\<in>set vs. seq_ok v)"
  "seq_ok (VUnitVariant i) \<longleftrightarrow> True"
  by (auto simp: seq_ok_def list_all_iff)

section \<open>Round trips of the parts\<close>

text \<open>A reader that inverts an encoding, whatever follows it.\<close>

definition inverts :: "'a reader \<Rightarrow> (ser_error + bytes) \<Rightarrow> 'a \<Rightarrow> bool" where
  "inverts d enc v \<longleftrightarrow> (\<forall>bs r. enc = Inr bs \<longrightarrow> d (bs @ r) = (Inr v, r))"

lemma invertsI: "(\<And>bs r. enc = Inr bs \<Longrightarrow> d (bs @ r) = (Inr v, r)) \<Longrightarrow> inverts d enc v"
  by (simp add: inverts_def)

lemma invertsD: "inverts d enc v \<Longrightarrow> enc = Inr bs \<Longrightarrow> d (bs @ r) = (Inr v, r)"
  by (simp add: inverts_def)

lemma inverts_rbind: "inverts d enc v \<Longrightarrow> inverts (rbind d (\<lambda>x. rret (f x))) enc (f v)"
  by (simp add: inverts_def)

lemma inverts_pre:
  assumes "inverts d enc v" and "\<And>r. h (a @ r) = d r"
  shows "inverts h (ser_pre a enc) v"
  using assms by (auto simp: inverts_def ser_Inr_iffs)

lemma fields_ok_tuple:
  assumes "fields_ok (map p ts) vs"
    and "\<And>t v. t \<in> set ts \<Longrightarrow> v \<in> set vs \<Longrightarrow> p t v \<Longrightarrow> inverts (d t) (enc v) v"
  shows "inverts (deserialize_tuple (map d ts)) (ser_all (map enc vs)) vs"
  using assms
proof (induction ts arbitrary: vs)
  case Nil
  then show ?case by (cases vs) (auto intro!: invertsI)
next
  case (Cons t ts)
  then obtain v vs' where vs: "vs = v # vs'" by (cases vs) auto
  from Cons vs have "inverts (d t) (enc v) v"
    "inverts (deserialize_tuple (map d ts)) (ser_all (map enc vs')) vs'" by auto
  then show ?case unfolding vs list.map
    by (auto simp: inverts_def ser_all_Cons_Inr_iff simp del: ser_all.simps)
qed

lemma move_on_simps [simp]:
  "move_on (1 # r) = (True, r)"
  "b \<noteq> 1 \<Longrightarrow> move_on (b # r) = (False, b # r)"
  "move_on [] = (False, [])"
  by (simp_all add: move_on_def)

lemma elem_okE:
  assumes "elem_ok enc" and "enc = Inr bs"
  obtains b bs' where "bs = b # bs'" "b \<noteq> 1"
  using assms by (cases bs) (auto simp: elem_ok_def)

lemma seq_loop_inverts:
  assumes "\<And>v. v \<in> set vs \<Longrightarrow> elem_ok (enc v) \<and> inverts d (enc v) v"
    and "ser_all (map enc vs) = Inr bs" and "length bs < fuel"
  shows "seq_loop fuel d (bs @ 1 # r) = (Inr vs, r)"
  using assms
proof (induction vs arbitrary: bs fuel)
  case Nil
  then show ?case by (cases fuel) auto
next
  case (Cons v vs)
  from Cons.prems(2) obtain a c where ac: "enc v = Inr a" "ser_all (map enc vs) = Inr c" "bs = a @ c"
    by (auto simp: and_then_Inr_iff)
  from Cons.prems(1) have v: "elem_ok (enc v)" "inverts d (enc v) v" by auto
  obtain b a' where a: "a = b # a'" "b \<noteq> 1" using elem_okE [OF v(1) ac(1)] .
  obtain f where f: "fuel = Suc f" using Cons.prems(3) by (cases fuel) auto
  have d: "d (b # a' @ c @ 1 # r) = (Inr v, c @ 1 # r)"
    using invertsD [OF v(2) ac(1), of "c @ 1 # r"] a by simp
  have "length c < f" using Cons.prems(3) ac(3) a f by simp
  with Cons ac(2) have "seq_loop f d (c @ 1 # r) = (Inr vs, r)" by simp
  then show ?case using d a by (simp add: ac(3) f)
qed

lemma map_loop_inverts:
  assumes "\<And>k v. (k, v) \<in> set kvs \<Longrightarrow> elem_ok (enc k) \<and> inverts dk (enc k) k \<and> inverts dv (enc v) v"
    and "ser_all (map (\<lambda>(k, v). ser_all [k, v]) (map (map_prod enc enc) kvs)) = Inr bs"
    and "length bs < fuel"
  shows "map_loop fuel dk dv (bs @ 1 # r) = (Inr kvs, r)"
  using assms
proof (induction kvs arbitrary: bs fuel)
  case Nil
  then show ?case by (cases fuel) auto
next
  case (Cons kv kvs)
  obtain k v where kv: "kv = (k, v)" by (cases kv)
  let ?rest = "ser_all (map (\<lambda>(k, v). ser_all [k, v]) (map (map_prod enc enc) kvs))"
  from Cons.prems(2) obtain a a2 c
    where ac: "enc k = Inr a" "enc v = Inr a2" "?rest = Inr c" "bs = a @ a2 @ c"
    by (auto simp: and_then_Inr_iff kv)
  from Cons.prems(1) [of k v] have v: "elem_ok (enc k)" "inverts dk (enc k) k" "inverts dv (enc v) v"
    by (auto simp: kv)
  obtain b a' where a: "a = b # a'" "b \<noteq> 1" using elem_okE [OF v(1) ac(1)] .
  obtain f where f: "fuel = Suc f" using Cons.prems(3) by (cases fuel) auto
  have d: "dk (b # a' @ a2 @ c @ 1 # r) = (Inr k, a2 @ c @ 1 # r)"
    "dv (a2 @ c @ 1 # r) = (Inr v, c @ 1 # r)"
    using invertsD [OF v(2) ac(1), of "a2 @ c @ 1 # r"] invertsD [OF v(3) ac(2)] a by auto
  have "length c < f" using Cons.prems(3) ac(4) a f by simp
  then have "map_loop f dk dv (c @ 1 # r) = (Inr kvs, r)"
    by (intro Cons.IH [OF Cons.prems(1) ac(3)]) simp_all
  then show ?case using d a by (simp add: ac(4) f kv)
qed

text \<open>The sign-bit tricks of the floats are undone by the deserializer.\<close>

lemma serialize_f32_inverts: "inverts deserialize_f32 (Inr (serialize_f32 v)) v"
  by (rule invertsI)
    (auto simp: serialize_f32_def deserialize_f32_def Let_def float_flip_undo [where 'a = 32, simplified])

lemma serialize_f64_inverts: "inverts deserialize_f64 (Inr (serialize_f64 v)) v"
  by (rule invertsI)
    (auto simp: serialize_f64_def deserialize_f64_def Let_def float_flip_undo [where 'a = 64, simplified])

lemma serialize_int_inverts:
  "inverts deserialize_i8 (Inr (serialize_i8 a)) a"
  "inverts deserialize_i16 (Inr (serialize_i16 b)) b"
  "inverts deserialize_i32 (Inr (serialize_i32 c)) c"
  "inverts deserialize_i64 (Inr (serialize_i64 d)) d"
  "inverts deserialize_u8 (Inr (serialize_u8 a)) a"
  "inverts deserialize_u16 (Inr (serialize_u16 b)) b"
  "inverts deserialize_u32 (Inr (serialize_u32 c)) c"
  "inverts deserialize_u64 (Inr (serialize_u64 d)) d"
  by (auto simp: inverts_def ser_prim_defs deserialize_i8_def deserialize_i16_def deserialize_i32_def
      deserialize_i64_def deserialize_u8_def deserialize_u16_def deserialize_u32_def
      deserialize_u64_def xor.assoc simp del: write_word_byte)

lemma serialize_bool_inverts: "inverts deserialize_bool (Inr (serialize_bool b)) b"
  by (auto simp: inverts_def ser_prim_defs deserialize_bool_def)

lemma serialize_str_inverts: "utf8_valid s \<Longrightarrow> inverts deserialize_str (serialize_str s) s"
  by (auto simp: inverts_def ser_Inr_iffs deserialize_str_def)

lemma serialize_char_inverts:
  "utf8_head c = Some (length c) \<Longrightarrow> inverts deserialize_char (serialize_char c) c"
  by (auto simp: inverts_def ser_Inr_iffs deserialize_char_def utf8_valid_single)

lemma serialize_bytes_inverts:
  "length b < 2 ^ 64 \<Longrightarrow> inverts deserialize_bytes (Inr (serialize_bytes b)) b"
  by (auto simp: inverts_def serialize_bytes_def deserialize_bytes_def read_reference_def
      unat_of_nat take_bit_nat_eq_self)

lemmas prim_inverts = serialize_int_inverts serialize_bool_inverts serialize_f32_inverts
  serialize_f64_inverts serialize_str_inverts serialize_char_inverts serialize_bytes_inverts

section \<open>The round trip\<close>

lemma variant_partsE:
  assumes "variant_parts v = Some (i, k, vs)"
  shows "serialize v = ser_pre (write_word i) (ser_all (map serialize vs))"
    and "seq_ok v \<longleftrightarrow> (\<forall>x\<in>set vs. seq_ok x)" and "variant_value i k vs = v"
  using assms
  by (induction v rule: variant_parts.induct)
    (auto simp: ser_pre_def and_then_simps and_then_assoc serialize_unit_variant_def serialize_u32_def)

lemma enum_inverts:
  assumes v: "variant_ok (map (map_prod id (map has_type)) variants) v" "seq_ok v"
    and IH: "\<And>kts t w. kts \<in> set variants \<Longrightarrow> t \<in> set (snd kts) \<Longrightarrow> has_type t w \<Longrightarrow> seq_ok w
      \<Longrightarrow> inverts (deserialize t) (serialize w) w"
  shows "inverts (deserialize_enum (map (map_prod id (map deserialize)) variants)) (serialize v) v"
proof -
  from v(1) obtain i k vs where parts: "variant_parts v = Some (i, k, vs)"
    by (auto simp: variant_ok_def split: option.splits)
  obtain k' ts where kts: "variants ! unat i = (k', ts)" by force
  from v(1) parts kts have i: "unat i < length variants" "k' = k" "fields_ok (map has_type ts) vs"
    by (auto simp: variant_ok_def)
  have "(k, ts) \<in> set variants" using i(1) kts i(2) by (metis nth_mem)
  with IH v(2) variant_partsE(2) [OF parts]
  have "inverts (deserialize_tuple (map deserialize ts)) (ser_all (map serialize vs)) vs"
    by (intro fields_ok_tuple [OF i(3)]) auto
  then show ?thesis
    using i kts variant_partsE(3) [OF parts]
    by (auto simp: variant_partsE(1) [OF parts] inverts_def ser_Inr_iffs deserialize_enum_def)
qed

lemma option_inverts:
  assumes "v = VNone \<or> (\<exists>w. v = VSome w \<and> inverts d (serialize w) w)"
  shows "inverts (rbind (deserialize_option d)
    (\<lambda>x. rret (case x of None \<Rightarrow> VNone | Some w \<Rightarrow> VSome w))) (serialize v) v"
  using assms by (auto simp: inverts_def ser_Inr_iffs deserialize_option_def serialize_none_def)

lemma seq_inverts:
  assumes "\<And>v. v \<in> set vs \<Longrightarrow> elem_ok (enc v) \<and> inverts d (enc v) v"
  shows "inverts (deserialize_seq d) (ser_post (ser_all (map enc vs)) seq_end) vs"
  by (rule invertsI)
    (auto simp: ser_Inr_iffs deserialize_seq_def seq_end_def
      simp del: seq_loop.simps intro!: seq_loop_inverts [OF assms])

lemma map_inverts:
  assumes "\<And>k v. (k, v) \<in> set kvs \<Longrightarrow> elem_ok (enc k) \<and> inverts dk (enc k) k \<and> inverts dv (enc v) v"
  shows "inverts (deserialize_map dk dv)
    (ser_post (ser_all (map (\<lambda>(k, v). ser_all [k, v]) (map (map_prod enc enc) kvs))) seq_end) kvs"
  by (rule invertsI)
    (auto simp: ser_post_Inr_iff deserialize_map_def seq_end_def
      simp del: map_loop.simps ser_all.simps intro!: map_loop_inverts [OF assms])

lemmas inverts_rules = prim_inverts [THEN inverts_rbind] seq_inverts [THEN inverts_rbind]
  map_inverts [THEN inverts_rbind] fields_ok_tuple [THEN inverts_rbind]

lemma deserialize_inverts:
  "has_type t v \<Longrightarrow> seq_ok v \<Longrightarrow> inverts (deserialize t) (serialize v) v"
proof (induction t arbitrary: v)
  case (TEnum vs)
  then show ?case
    using enum_inverts [of vs v] by (auto simp: snds.simps)
next
  case (TOption t)
  then show ?case unfolding deserialize.simps by (intro option_inverts) (cases v; simp)
next
  case (TTuple ts)
  then show ?case unfolding deserialize.simps
    by (cases v) (auto intro!: inverts_rules simp del: rbind_apply)
next
  case (TStruct ts)
  then show ?case unfolding deserialize.simps
    by (cases v) (auto intro!: inverts_rules simp del: rbind_apply)
next
  case (TSeq t)
  then show ?case unfolding deserialize.simps
    by (cases v) (auto intro!: inverts_rules simp: list_all_iff simp del: rbind_apply)
next
  case (TMap tk tv)
  then obtain kvs where kvs: "v = VMap kvs" by (cases v) auto
  have "inverts (deserialize_map (deserialize tk) (deserialize tv)) (serialize v) kvs"
    unfolding kvs serialize.simps using TMap kvs by (intro map_inverts) (force simp: list_all_iff)
  then show ?case unfolding deserialize.simps kvs by (rule inverts_rbind)
next
  case (TNewtype t)
  then show ?case unfolding deserialize.simps
    by (cases v) (auto intro!: inverts_rbind simp del: rbind_apply)
next
  case TUnit
  then show ?case by (cases v) (simp_all add: inverts_def serialize_unit_def)
qed (auto split: sval.splits intro!: inverts_rules simp del: rbind_apply)

end
