(* ===== verification/Skey_Order.thy ===== *)
theory Skey_Order
  imports Skey_Roundtrip
begin

text \<open>
  The byte order of encoded keys is the order of the values. \<open>vless\<close> is the \<open>Ord\<close> order of the
  Rust values: integers by value, floats by \<open>total_cmp\<close>, strings by their UTF-8 bytes,
  \<open>None\<close> before \<open>Some\<close>, variants by index, compounds lexicographically. Byte slices are the one
  exception: their length prefix orders them by length first.
\<close>

unbundle bit_operations_syntax

section \<open>The order of values\<close>

text \<open>The integer \<open>f64::total_cmp\<close> and \<open>f32::total_cmp\<close> compare.\<close>

definition total_key :: "'a::len word \<Rightarrow> int" where
  "total_key v = sint (v XOR drop_bit 1 (signed_drop_bit (LENGTH('a) - 1) v))"

definition variant_index :: "sval \<Rightarrow> u32 option" where
  "variant_index v = map_option fst (variant_parts v)"

inductive vless :: "sval \<Rightarrow> sval \<Rightarrow> bool" where
  vless_bool: "vless (VBool False) (VBool True)"
| vless_i8: "sint a < sint b \<Longrightarrow> vless (VI8 a) (VI8 b)"
| vless_i16: "sint a < sint b \<Longrightarrow> vless (VI16 a) (VI16 b)"
| vless_i32: "sint a < sint b \<Longrightarrow> vless (VI32 a) (VI32 b)"
| vless_i64: "sint a < sint b \<Longrightarrow> vless (VI64 a) (VI64 b)"
| vless_u8: "a < b \<Longrightarrow> vless (VU8 a) (VU8 b)"
| vless_u16: "a < b \<Longrightarrow> vless (VU16 a) (VU16 b)"
| vless_u32: "a < b \<Longrightarrow> vless (VU32 a) (VU32 b)"
| vless_u64: "a < b \<Longrightarrow> vless (VU64 a) (VU64 b)"
| vless_f32: "total_key a < total_key b \<Longrightarrow> vless (VF32 a) (VF32 b)"
| vless_f64: "total_key a < total_key b \<Longrightarrow> vless (VF64 a) (VF64 b)"
| vless_char: "a < b \<Longrightarrow> vless (VChar a) (VChar b)"
| vless_str: "a < b \<Longrightarrow> vless (VStr a) (VStr b)"
| vless_bytes: "length a < length b \<or> length a = length b \<and> a < b \<Longrightarrow> length b < 2 ^ 64
    \<Longrightarrow> vless (VBytes a) (VBytes b)"
| vless_none: "vless VNone (VSome w)"
| vless_some: "vless v w \<Longrightarrow> vless (VSome v) (VSome w)"
| vless_newtype: "vless v w \<Longrightarrow> vless (VNewtypeStruct v) (VNewtypeStruct w)"
| vless_tuple: "vless v w \<Longrightarrow> vless (VTuple (ps @ v # vs)) (VTuple (ps @ w # ws))"
| vless_struct: "vless v w \<Longrightarrow> vless (VStruct (ps @ v # vs)) (VStruct (ps @ w # ws))"
| vless_seq: "vless v w \<Longrightarrow> vless (VSeq (ps @ v # vs)) (VSeq (ps @ w # ws))"
| vless_seq_end: "vless (VSeq ps) (VSeq (ps @ w # ws))"
| vless_map_key: "vless k l \<Longrightarrow> vless (VMap (ps @ (k, v) # vs)) (VMap (ps @ (l, w) # ws))"
| vless_map_val: "vless v w \<Longrightarrow> vless (VMap (ps @ (k, v) # vs)) (VMap (ps @ (k, w) # ws))"
| vless_map_end: "vless (VMap ps) (VMap (ps @ kv # ws))"
| vless_variant: "variant_index v = Some i \<Longrightarrow> variant_index w = Some j \<Longrightarrow> i < j \<Longrightarrow> vless v w"
| vless_fields: "variant_parts v = Some (i, k, ps @ a # vs) \<Longrightarrow>
    variant_parts w = Some (i, k, ps @ b # ws) \<Longrightarrow> vless a b \<Longrightarrow> vless v w"

text \<open>An element encoding that sorts after the end marker.\<close>

definition elem_gt :: "ser_error + bytes \<Rightarrow> bool" where
  "elem_gt r = (case r of Inl _ \<Rightarrow> True | Inr [] \<Rightarrow> False | Inr (b # _) \<Rightarrow> 1 < b)"

section \<open>Sign bits and order\<close>

lemma xor_top_eq_plus:
  "(v :: 'a::len word) XOR push_bit (LENGTH('a) - 1) 1 = v + push_bit (LENGTH('a) - 1) 1"
proof -
  define t :: "'a word" where "t = push_bit (LENGTH('a) - 1) 1"
  have t: "bit t n \<longleftrightarrow> n = LENGTH('a) - 1 \<and> n < LENGTH('a)" for n
    by (auto simp: t_def bit_simps simp del: push_bit_of_1)
  have tt: "t + t = 0"
    by (simp add: t_def flip: power_Suc mult_2)
  show ?thesis unfolding t_def [symmetric]
  proof (cases "bit v (LENGTH('a) - 1)")
    case True
    then have "v = (v XOR t) OR t"
      by (intro bit_word_eqI) (auto simp: t bit_or_iff bit_xor_iff)
    also have "\<dots> = (v XOR t) + t"
      using True by (intro disjunctive_add [symmetric]) (auto simp: t bit_xor_iff)
    finally have "v + t = (v XOR t) + (t + t)"
      by (simp only: add.assoc [symmetric])
    then show "v XOR t = v + t" by (simp add: tt)
  next
    case False
    then have "v + t = v OR t"
      by (intro disjunctive_add) (auto simp: t)
    also have "\<dots> = v XOR t"
      using False by (intro bit_word_eqI) (auto simp: t bit_or_iff bit_xor_iff)
    finally show "v XOR t = v + t" by simp
  qed
qed

lemma uint_xor_top:
  "uint ((v :: 'a::len word) XOR push_bit (LENGTH('a) - 1) 1) = sint v + 2 ^ (LENGTH('a) - 1)"
proof -
  have "sint v = take_bit LENGTH('a) (uint v + 2 ^ (LENGTH('a) - 1)) - 2 ^ (LENGTH('a) - 1)"
    by (simp add: sint_uint signed_take_bit_eq_take_bit_shift)
  moreover have "v + push_bit (LENGTH('a) - 1) 1 = word_of_int (uint v + 2 ^ (LENGTH('a) - 1))"
    by simp
  then have "uint (v + push_bit (LENGTH('a) - 1) 1) = take_bit LENGTH('a) (uint v + 2 ^ (LENGTH('a) - 1))"
    by (simp only: uint_word_of_int_eq)
  ultimately show ?thesis by (simp only: xor_top_eq_plus)
qed

lemma xor_top_less_iff:
  "(v :: 'a::len word) XOR push_bit (LENGTH('a) - 1) 1 < w XOR push_bit (LENGTH('a) - 1) 1
    \<longleftrightarrow> sint v < sint w"
  unfolding word_less_def uint_xor_top by simp

lemmas xor_top_less_widths = xor_top_less_iff [where 'a = 8, simplified]
  xor_top_less_iff [where 'a = 16, simplified] xor_top_less_iff [where 'a = 32, simplified]
  xor_top_less_iff [where 'a = 64, simplified]

lemma float_key_flip:
  "(v :: 'a::len word) XOR (signed_drop_bit (LENGTH('a) - 1) v OR push_bit (LENGTH('a) - 1) 1)
    = (v XOR drop_bit 1 (signed_drop_bit (LENGTH('a) - 1) v)) XOR push_bit (LENGTH('a) - 1) 1"
  unfolding signed_drop_all_bits by (rule bit_word_eqI) (auto simp: bit_simps)

lemma float_less_iff:
  fixes v w :: "'a::len word"
  defines "key \<equiv> \<lambda>v :: 'a word. v XOR (signed_drop_bit (LENGTH('a) - 1) v OR push_bit (LENGTH('a) - 1) 1)"
  shows "key v < key w \<longleftrightarrow> total_key v < total_key w"
  unfolding key_def float_key_flip xor_top_less_iff total_key_def ..

lemmas float_less_widths = float_less_iff [where 'a = 32, simplified] float_less_iff [where 'a = 64, simplified]

section \<open>Encoded values keep their order\<close>

text \<open>Two encodings in strict order, whatever bytes follow them.\<close>

definition enc_less :: "bytes \<Rightarrow> bytes \<Rightarrow> bool" where
  "enc_less a b \<longleftrightarrow> (\<forall>x y. a @ x < b @ y)"

lemma enc_lessI: "(\<And>x y. a @ x < b @ y) \<Longrightarrow> enc_less a b"
  by (simp add: enc_less_def)

lemma enc_less_less: "enc_less a b \<Longrightarrow> a < b"
  unfolding enc_less_def by (metis append_Nil2)

lemma enc_less_same_length: "length a = length b \<Longrightarrow> a < b \<Longrightarrow> enc_less a b"
  by (auto simp: enc_less_def lex_less_append)

lemma enc_less_prepend: "enc_less a b \<Longrightarrow> enc_less (p @ a @ x) (p @ b @ y)"
  by (simp add: enc_less_def lex_append_same)

lemma enc_less_after: "enc_less a b \<Longrightarrow> enc_less (p @ a) (p @ b)"
  by (simp add: enc_less_def lex_append_same)

lemma enc_less_append: "enc_less a b \<Longrightarrow> enc_less (a @ x) (b @ y)"
  by (simp add: enc_less_def)

lemma enc_less_word:
  assumes "8 dvd LENGTH('a::len)" and "(v :: 'a word) < w"
  shows "enc_less (write_word v) (write_word w)"
  using assms by (intro enc_less_same_length) (simp_all add: write_word_less_iff)

lemma enc_less_str:
  assumes "a < b" and "0 \<notin> set b"
  shows "enc_less (a @ [0 :: byte]) (b @ [0])"
  using assms(1)
proof (cases rule: lex_less_cases)
  case (prefix z zs)
  with assms(2) have "0 < z" by (simp add: word_neq_0_conv)
  then show ?thesis by (simp add: enc_less_def prefix(1) lex_append_same)
next
  case diff
  then show ?thesis by (simp add: enc_less_def lex_append_same)
qed

lemma enc_less_bytes:
  assumes "length a < length b \<or> length a = length b \<and> a < b" and "length b < 2 ^ 64"
  shows "enc_less (serialize_bytes a) (serialize_bytes b)"
proof (cases "length a = length b")
  case True
  with assms(1) show ?thesis
    by (intro enc_less_same_length) (simp_all add: serialize_bytes_def lex_append_same)
next
  case False
  with assms have "(word_of_nat (length a) :: u64) < word_of_nat (length b)"
    by (simp add: word_less_nat_alt unat_of_nat take_bit_nat_eq_self)
  then show ?thesis unfolding serialize_bytes_def by (intro enc_less_append enc_less_word) simp_all
qed

lemma ser_all_append_Inr_iff:
  "ser_all (xs @ ys) = Inr c \<longleftrightarrow> (\<exists>a b. ser_all xs = Inr a \<and> ser_all ys = Inr b \<and> c = a @ b)"
proof (induction xs arbitrary: c)
  case (Cons x xs)
  then show ?case by (cases x) (auto simp: and_then_Inr_iff)
qed simp

lemma enc_less_lex:
  assumes "ser_all (map enc (ps @ v # vs)) = Inr a" "ser_all (map enc (ps @ w # ws)) = Inr b"
    and "\<And>c d. enc v = Inr c \<Longrightarrow> enc w = Inr d \<Longrightarrow> enc_less c d"
  shows "enc_less a b"
  using assms
  by (auto simp: ser_all_append_Inr_iff ser_all_Cons_Inr_iff enc_less_prepend simp del: ser_all.simps)

lemma enc_less_end:
  assumes "ser_post (ser_all (map enc ps)) seq_end = Inr a"
    and "ser_post (ser_all (map enc (ps @ w # ws))) seq_end = Inr b" and "elem_gt (enc w)"
  shows "enc_less a b"
proof -
  from assms(1,2) obtain p d e where "enc w = Inr d" "a = p @ [1]" "b = p @ d @ e"
    by (auto simp: ser_post_Inr_iff ser_all_append_Inr_iff ser_all_Cons_Inr_iff seq_end_def simp del: ser_all.simps)
  with assms(3) show ?thesis by (cases d) (auto simp: elem_gt_def enc_less_def lex_append_same)
qed

lemma enc_less_post_lex:
  assumes "ser_post (ser_all (map enc (ps @ v # vs))) seq_end = Inr a"
    and "ser_post (ser_all (map enc (ps @ w # ws))) seq_end = Inr b"
    and "\<And>c d. enc v = Inr c \<Longrightarrow> enc w = Inr d \<Longrightarrow> enc_less c d"
  shows "enc_less a b"
proof -
  from assms(1,2) obtain a' b' where ab: "ser_all (map enc (ps @ v # vs)) = Inr a'"
    "ser_all (map enc (ps @ w # ws)) = Inr b'" "a = a' @ seq_end" "b = b' @ seq_end"
    unfolding ser_post_Inr_iff by blast
  show ?thesis unfolding ab(3,4) by (intro enc_less_append enc_less_lex [OF ab(1,2)] assms(3))
qed

definition serialize_entry :: "sval \<times> sval \<Rightarrow> ser_error + bytes" where
  "serialize_entry kv = ser_all [serialize (fst kv), serialize (snd kv)]"

lemma serialize_VMap:
  "serialize (VMap kvs) = ser_post (ser_all (map serialize_entry kvs)) seq_end"
  by (simp add: serialize_entry_def [abs_def] case_prod_beta comp_def)

lemma serialize_entry_Inr_iff:
  "serialize_entry (k, v) = Inr c \<longleftrightarrow> (\<exists>a b. serialize k = Inr a \<and> serialize v = Inr b \<and> c = a @ b)"
  by (auto simp: serialize_entry_def and_then_Inr_iff)

lemma elem_gt_entry: "elem_gt (serialize k) \<Longrightarrow> elem_gt (serialize_entry (k, v))"
  by (cases "serialize k"; cases "serialize v")
    (auto simp: elem_gt_def serialize_entry_def and_then_simps split: list.splits sum.splits)

lemma variant_parts_seq_all:
  "variant_parts v = Some (i, k, vs) \<Longrightarrow> seq_all p v \<longleftrightarrow> (\<forall>x\<in>set vs. seq_all p x)"
  by (induction v rule: variant_parts.induct) auto

lemma vless_enc_less:
  assumes "vless v w" and "seq_all elem_gt w" and "serialize v = Inr a" and "serialize w = Inr b"
  shows "enc_less a b"
  using assms
proof (induction arbitrary: a b)
  case (vless_seq_end ps w ws)
  then show ?case unfolding serialize.simps by (intro enc_less_end) auto
next
  case (vless_seq v w ps vs ws)
  show ?case
    by (rule enc_less_post_lex [OF vless_seq.prems(2,3) [unfolded serialize.simps]])
      (use vless_seq.IH vless_seq.prems(1) in simp)
next
  case (vless_map_end ps kv ws)
  then show ?case unfolding serialize_VMap by (cases kv) (auto intro!: enc_less_end elem_gt_entry)
next
  case (vless_map_key k l ps v vs w ws)
  then show ?case unfolding serialize_VMap
    by (intro enc_less_post_lex [where enc = serialize_entry, OF vless_map_key.prems(2,3) [unfolded serialize_VMap]])
      (auto simp: serialize_entry_Inr_iff intro: enc_less_append)
next
  case (vless_map_val v w ps k vs ws)
  then show ?case unfolding serialize_VMap
    by (intro enc_less_post_lex [where enc = serialize_entry, OF vless_map_val.prems(2,3) [unfolded serialize_VMap]])
      (auto simp: serialize_entry_Inr_iff intro!: enc_less_after)
next
  case (vless_tuple v w ps vs ws)
  show ?case
    by (rule enc_less_lex [OF vless_tuple.prems(2,3) [unfolded serialize.simps]])
      (use vless_tuple.IH vless_tuple.prems(1) in simp)
next
  case (vless_struct v w ps vs ws)
  show ?case
    by (rule enc_less_lex [OF vless_struct.prems(2,3) [unfolded serialize.simps]])
      (use vless_struct.IH vless_struct.prems(1) in simp)
next
  case (vless_variant v i w j)
  then obtain k vs k' ws where "variant_parts v = Some (i, k, vs)" "variant_parts w = Some (j, k', ws)"
    by (auto simp: variant_index_def)
  from vless_variant(5,6) this [THEN variant_partsE(1)] obtain x y
    where "a = write_word i @ x" "b = write_word j @ y" by (auto simp: ser_pre_Inr_iff)
  then show ?case using vless_variant(3) by (simp add: enc_less_append enc_less_word)
next
  case (vless_fields v i k ps x vs w y ws)
  note parts = vless_fields.hyps(1,2)
  from vless_fields.prems(2,3) obtain a' b' where ab: "ser_all (map serialize (ps @ x # vs)) = Inr a'"
    "ser_all (map serialize (ps @ y # ws)) = Inr b'" "a = write_word i @ a'" "b = write_word i @ b'"
    unfolding parts [THEN variant_partsE(1)] ser_pre_Inr_iff by blast
  have "seq_all elem_gt y" using vless_fields.prems(1) variant_parts_seq_all [OF parts(2)] by simp
  then have "enc_less a' b'" by (intro enc_less_lex [OF ab(1,2)] vless_fields.IH)
  then show ?case unfolding ab(3,4) by (rule enc_less_after)
next
  case (vless_some v w)
  then obtain a' b' where "serialize v = Inr a'" "serialize w = Inr b'" "a = [1] @ a'" "b = [1] @ b'"
    by (auto simp: ser_pre_Inr_iff)
  then show ?case using vless_some.IH vless_some.prems(1) by (simp only: enc_less_after seq_all.simps)
next
  case (vless_none w)
  then show ?case by (auto simp: ser_pre_Inr_iff serialize_none_def enc_less_def)
qed (auto simp: ser_prim_defs serialize_str_Inr_iff serialize_char_Inr_iff xor_top_less_widths float_less_widths
    intro!: enc_less_word enc_less_str enc_less_bytes [unfolded serialize_bytes_def] simp del: write_word_byte)

section \<open>The order is total on the values of a type\<close>

lemma sint_inject: "sint (a :: 'a::len word) = sint b \<longleftrightarrow> a = b"
  by (auto intro: signed_word_eqI)

lemma total_key_inject: "total_key (a :: 'a::len word) = total_key b \<longleftrightarrow> a = b"
proof
  assume "total_key a = total_key b"
  then have e: "(a XOR drop_bit 1 (signed_drop_bit (LENGTH('a) - 1) a)) XOR push_bit (LENGTH('a) - 1) 1
    = (b XOR drop_bit 1 (signed_drop_bit (LENGTH('a) - 1) b)) XOR push_bit (LENGTH('a) - 1) 1"
    by (simp only: total_key_def sint_inject)
  show "a = b"
    using e [folded float_key_flip] float_flip_undo [of a] float_flip_undo [of b] by metis
qed simp

lemma fields_ok_total:
  assumes "fields_ok (map p ts) vs" and "fields_ok (map p ts) ws"
    and "\<And>t v w. t \<in> set ts \<Longrightarrow> p t v \<Longrightarrow> p t w \<Longrightarrow> v = w \<or> r v w \<or> r w v"
  shows "vs = ws \<or> (\<exists>ps v vs' w ws'. vs = ps @ v # vs' \<and> ws = ps @ w # ws' \<and> (r v w \<or> r w v))"
  using assms
proof (induction ts arbitrary: vs ws)
  case Nil
  then show ?case by (cases vs; cases ws) auto
next
  case (Cons t ts)
  then obtain v vs' w ws' where e: "vs = v # vs'" "ws = w # ws'" by (cases vs; cases ws) auto
  show ?case
  proof (cases "v = w")
    case True
    have "vs' = ws' \<or> (\<exists>ps v vs'' w ws''. vs' = ps @ v # vs'' \<and> ws' = ps @ w # ws'' \<and> (r v w \<or> r w v))"
      using Cons.prems(1,2) e by (intro Cons.IH Cons.prems(3)) auto
    then show ?thesis unfolding e True by (metis append_Cons)
  next
    case False
    then have "r v w \<or> r w v" using Cons.prems(3) [of t v w] Cons.prems(1,2) e by simp
    then show ?thesis unfolding e by (metis append_Nil)
  qed
qed

lemma seq_total:
  assumes "\<And>v w. v \<in> set vs \<Longrightarrow> w \<in> set ws \<Longrightarrow> v = w \<or> r v w \<or> r w v"
  shows "vs = ws \<or> (\<exists>ps v vs' w ws'. vs = ps @ v # vs' \<and> ws = ps @ w # ws' \<and> (r v w \<or> r w v))
    \<or> strict_prefix vs ws \<or> strict_prefix ws vs"
  using assms
proof (induction vs arbitrary: ws)
  case Nil
  then show ?case by (cases ws) auto
next
  case (Cons v vs)
  show ?case
  proof (cases ws)
    case Nil
    then show ?thesis by simp
  next
    case (Cons w ws')
    show ?thesis
    proof (cases "v = w")
      case True
      have "vs = ws' \<or> (\<exists>ps v vs' w ws''. vs = ps @ v # vs' \<and> ws' = ps @ w # ws'' \<and> (r v w \<or> r w v))
        \<or> strict_prefix vs ws' \<or> strict_prefix ws' vs"
        using Cons.prems Cons by (intro Cons.IH) auto
      then show ?thesis unfolding Cons True by (metis append_Cons strict_prefix_simps(3))
    next
      case False
      then have "r v w \<or> r w v" using Cons.prems Cons by auto
      then show ?thesis unfolding Cons by (metis append_Nil)
    qed
  qed
qed

lemma pair_total:
  assumes "k = l \<or> vless k l \<or> vless l k" and "v = w \<or> vless v w \<or> vless w v"
  shows "(k, v) = (l, w) \<or> (vless k l \<or> k = l \<and> vless v w) \<or> (vless l k \<or> l = k \<and> vless w v)"
  using assms by auto

lemma vless_variant_total:
  assumes "variant_ok (map (map_prod id (map has_type)) variants) v"
    and "variant_ok (map (map_prod id (map has_type)) variants) w"
    and IH: "\<And>kts t a b. kts \<in> set variants \<Longrightarrow> t \<in> set (snd kts) \<Longrightarrow> has_type t a \<Longrightarrow> has_type t b
      \<Longrightarrow> a = b \<or> vless a b \<or> vless b a"
  shows "v = w \<or> vless v w \<or> vless w v"
proof -
  from assms(1,2) obtain i k vs j l ws
    where parts: "variant_parts v = Some (i, k, vs)" "variant_parts w = Some (j, l, ws)"
    by (auto simp: variant_ok_def split: option.splits)
  show ?thesis
  proof (cases "i = j")
    case False
    then have "i < j \<or> j < i" by (rule neq_iff [THEN iffD1])
    with parts show ?thesis by (auto simp: variant_index_def intro: vless_variant)
  next
    case True
    obtain k' ts where kts: "variants ! unat i = (k', ts)" by force
    have i: "unat i < length variants" "k' = k" "k' = l"
      "fields_ok (map has_type ts) vs" "fields_ok (map has_type ts) ws"
      using assms(1,2) parts kts True by (auto simp: variant_ok_def)
    have "(k', ts) \<in> set variants" using i(1) kts by (metis nth_mem)
    then have "vs = ws \<or> (\<exists>ps v vs' w ws'. vs = ps @ v # vs' \<and> ws = ps @ w # ws' \<and> (vless v w \<or> vless w v))"
      using IH by (intro fields_ok_total [OF i(4,5)]) auto
    then show ?thesis
      using parts i(2,3) True variant_partsE(3) [OF parts(1)] variant_partsE(3) [OF parts(2)]
      by (metis vless_fields)
  qed
qed

lemma vless_seq_total:
  assumes "\<And>v w. v \<in> set vs \<Longrightarrow> w \<in> set ws \<Longrightarrow> v = w \<or> vless v w \<or> vless w v"
  shows "VSeq vs = VSeq ws \<or> vless (VSeq vs) (VSeq ws) \<or> vless (VSeq ws) (VSeq vs)"
  using seq_total [of vs ws vless, OF assms]
  by (auto elim!: strict_prefixE' intro: vless_seq vless_seq_end)

lemma vless_map_total:
  assumes "\<And>k v l w. (k, v) \<in> set vs \<Longrightarrow> (l, w) \<in> set ws \<Longrightarrow>
    (k = l \<or> vless k l \<or> vless l k) \<and> (v = w \<or> vless v w \<or> vless w v)"
  shows "VMap vs = VMap ws \<or> vless (VMap vs) (VMap ws) \<or> vless (VMap ws) (VMap vs)"
proof -
  let ?r = "\<lambda>(k, v) (l, w). vless k l \<or> k = l \<and> vless v w"
  have "x = y \<or> ?r x y \<or> ?r y x" if "x \<in> set vs" "y \<in> set ws" for x y
    using assms that by (cases x; cases y) auto
  from seq_total [of vs ws ?r, OF this] show ?thesis
    by (auto elim!: strict_prefixE' intro: vless_map_key vless_map_val vless_map_end)
qed

lemma vless_tuple_total:
  assumes "fields_ok (map has_type ts) vs" and "fields_ok (map has_type ts) ws"
    and "\<And>t v w. t \<in> set ts \<Longrightarrow> has_type t v \<Longrightarrow> has_type t w \<Longrightarrow> v = w \<or> vless v w \<or> vless w v"
  shows "VTuple vs = VTuple ws \<or> vless (VTuple vs) (VTuple ws) \<or> vless (VTuple ws) (VTuple vs)"
    and "VStruct vs = VStruct ws \<or> vless (VStruct vs) (VStruct ws) \<or> vless (VStruct ws) (VStruct vs)"
proof -
  have "vs = ws \<or> (\<exists>ps v vs' w ws'. vs = ps @ v # vs' \<and> ws = ps @ w # ws' \<and> (vless v w \<or> vless w v))"
    using assms(3) by (rule fields_ok_total [OF assms(1,2)])
  then show "VTuple vs = VTuple ws \<or> vless (VTuple vs) (VTuple ws) \<or> vless (VTuple ws) (VTuple vs)"
    and "VStruct vs = VStruct ws \<or> vless (VStruct vs) (VStruct ws) \<or> vless (VStruct ws) (VStruct vs)"
    by (auto intro: vless_tuple vless_struct)
qed

text \<open>Primitives compared by an injective key are totally ordered.\<close>

lemma key_total:
  fixes key :: "'a \<Rightarrow> 'b::linorder"
  assumes "\<And>a b. key a < key b \<Longrightarrow> vless (con a) (con b)" and "\<And>a b. key a = key b \<Longrightarrow> a = b"
  shows "con a = con b \<or> vless (con a) (con b) \<or> vless (con b) (con a)"
  using assms by (metis linorder_less_linear)

lemmas sint_total = key_total [where key = sint, OF _ sint_inject [THEN iffD1]]
lemmas float_total = key_total [where key = total_key, OF _ total_key_inject [THEN iffD1]]
lemmas plain_total = key_total [where key = "\<lambda>a. a"]

lemmas prim_total = sint_total [where con = VI8, OF vless_i8] sint_total [where con = VI16, OF vless_i16]
  sint_total [where con = VI32, OF vless_i32] sint_total [where con = VI64, OF vless_i64]
  float_total [where con = VF32, OF vless_f32] float_total [where con = VF64, OF vless_f64]
  plain_total [where con = VU8, OF vless_u8] plain_total [where con = VU16, OF vless_u16]
  plain_total [where con = VU32, OF vless_u32] plain_total [where con = VU64, OF vless_u64]
  plain_total [where con = VChar, OF vless_char] plain_total [where con = VStr, OF vless_str]

lemma vless_bool_total: "VBool a = VBool b \<or> vless (VBool a) (VBool b) \<or> vless (VBool b) (VBool a)"
  by (cases a; cases b) (auto intro: vless_bool)

lemma vless_bytes_total:
  "length a < 2 ^ 64 \<Longrightarrow> length b < 2 ^ 64
    \<Longrightarrow> VBytes a = VBytes b \<or> vless (VBytes a) (VBytes b) \<or> vless (VBytes b) (VBytes a)"
  by (metis linorder_less_linear vless_bytes)

lemma has_type_iff:
  "has_type TBool v \<longleftrightarrow> (\<exists>b. v = VBool b)"
  "has_type TI8 v \<longleftrightarrow> (\<exists>b. v = VI8 b)"
  "has_type TI16 v \<longleftrightarrow> (\<exists>b. v = VI16 b)"
  "has_type TI32 v \<longleftrightarrow> (\<exists>b. v = VI32 b)"
  "has_type TI64 v \<longleftrightarrow> (\<exists>b. v = VI64 b)"
  "has_type TU8 v \<longleftrightarrow> (\<exists>b. v = VU8 b)"
  "has_type TU16 v \<longleftrightarrow> (\<exists>b. v = VU16 b)"
  "has_type TU32 v \<longleftrightarrow> (\<exists>b. v = VU32 b)"
  "has_type TU64 v \<longleftrightarrow> (\<exists>b. v = VU64 b)"
  "has_type TF32 v \<longleftrightarrow> (\<exists>b. v = VF32 b)"
  "has_type TF64 v \<longleftrightarrow> (\<exists>b. v = VF64 b)"
  "has_type TChar v \<longleftrightarrow> (\<exists>b. v = VChar b \<and> utf8_head b = Some (length b))"
  "has_type TStr v \<longleftrightarrow> (\<exists>b. v = VStr b \<and> utf8_valid b)"
  "has_type TBytes v \<longleftrightarrow> (\<exists>b. v = VBytes b \<and> length b < 2 ^ 64)"
  "has_type (TOption t) v \<longleftrightarrow> v = VNone \<or> (\<exists>w. v = VSome w \<and> has_type t w)"
  "has_type TUnit v \<longleftrightarrow> v = VUnit"
  "has_type (TNewtype t) v \<longleftrightarrow> (\<exists>w. v = VNewtypeStruct w \<and> has_type t w)"
  "has_type (TSeq t) v \<longleftrightarrow> (\<exists>vs. v = VSeq vs \<and> list_all (has_type t) vs)"
  "has_type (TTuple ts) v \<longleftrightarrow> (\<exists>vs. v = VTuple vs \<and> fields_ok (map has_type ts) vs)"
  "has_type (TMap tk tv) v \<longleftrightarrow> (\<exists>kvs. v = VMap kvs \<and> list_all (\<lambda>(k, w). has_type tk k \<and> has_type tv w) kvs)"
  "has_type (TStruct ts) v \<longleftrightarrow> (\<exists>vs. v = VStruct vs \<and> fields_ok (map has_type ts) vs)"
  by (cases v; simp)+

lemma vless_total:
  "has_type t v \<Longrightarrow> has_type t w \<Longrightarrow> v = w \<or> vless v w \<or> vless w v"
proof (induction t arbitrary: v w)
  case (TEnum vs)
  then show ?case using vless_variant_total [of vs v w] by (auto simp: snds.simps)
next
  case (TSeq t)
  then show ?case unfolding has_type_iff
    by (elim exE conjE) (simp only: , intro vless_seq_total, auto simp: list_all_iff)
next
  case (TTuple ts)
  then show ?case unfolding has_type_iff
    by (elim exE conjE) (simp only: , rule vless_tuple_total(1))
next
  case (TStruct ts)
  then show ?case unfolding has_type_iff
    by (elim exE conjE) (simp only: , rule vless_tuple_total(2))
next
  case (TMap tk tv)
  then show ?case unfolding has_type_iff
    by (elim exE conjE) (simp only: , intro vless_map_total, fastforce simp: list_all_iff)
next
  case (TOption t)
  then show ?case unfolding has_type_iff by (metis vless_none vless_some)
next
  case (TNewtype t)
  then show ?case unfolding has_type_iff by (metis vless_newtype)
next
  case TBytes
  then show ?case unfolding has_type_iff by (elim exE conjE) (simp only: vless_bytes_total)
next
  case TBool
  then show ?case unfolding has_type_iff by (elim exE) (simp only: vless_bool_total)
qed (unfold has_type_iff, ((elim exE conjE)?, simp only: prim_total simp_thms)+)

lemma vless_serialize_less:
  "vless v w \<Longrightarrow> seq_all elem_gt w \<Longrightarrow> serialize v = Inr a \<Longrightarrow> serialize w = Inr b \<Longrightarrow> a < b"
  by (rule enc_less_less) (rule vless_enc_less)

lemma serialize_less_iff:
  assumes "has_type t v" "has_type t w" "seq_all elem_gt v" "seq_all elem_gt w"
    and "serialize v = Inr a" "serialize w = Inr b"
  shows "a < b \<longleftrightarrow> vless v w"
proof
  assume "a < b"
  then show "vless v w"
    using vless_total [OF assms(1,2)] vless_serialize_less [OF _ assms(3,6,5)] assms(5,6)
    by (metis less_asym' less_irrefl sum.inject(2))
qed (rule vless_serialize_less [OF _ assms(4,5,6)])

end
