(* ===== verification/Skey_Varint.thy ===== *)
theory Skey_Varint
  imports Skey_Order
begin

text \<open>
  The variable-length integers of the key format. Each branch of \<open>serialize_var_u64\<close> writes the
  big-endian form of one number, \<open>n * 16 * 256 ^ n + val\<close> in \<open>n + 1\<close> bytes; from that form
  follow the round trip through \<open>deserialize_var_u64\<close> and the order of the encodings. The signed
  variant writes \<open>(16 + n) * 8 * 256 ^ n\<close> plus the magnitude, complemented byte by byte for a
  negative number.
\<close>

unbundle bit_operations_syntax

declare write_be.simps [simp del]

section \<open>Big-endian forms\<close>

lemma write_be_join:
  assumes "y < 256 ^ b"
  shows "write_be a x @ write_be b y = write_be (a + b) (x * 256 ^ b + y)"
  using assms
proof (induction b arbitrary: y)
  case (Suc b)
  have y: "y div 256 < 256 ^ b"
    using Suc.prems by (intro less_mult_imp_div_less) (simp only: power_Suc mult.commute)
  have e: "x * 256 ^ Suc b = (x * 256 ^ b) * 256" by simp
  have "(x * 256 ^ Suc b + y) div 256 = x * 256 ^ b + y div 256"
    "(x * 256 ^ Suc b + y) mod 256 = y mod 256"
    unfolding e by simp_all
  then show ?case using Suc.IH [OF y] by (simp only: add_Suc_right write_be.simps append_assoc [symmetric])
qed (simp add: write_be.simps)

lemma nat_or_push:
  assumes "(x :: nat) < 2 ^ k"
  shows "x OR push_bit k c = x + c * 2 ^ k"
proof -
  have "x AND push_bit k c = 0"
  proof (rule bit_eqI)
    fix n
    have "\<not> bit x n" if "k \<le> n"
    proof -
      have "x < 2 ^ n" using assms that by (meson less_le_trans one_le_numeral power_increasing)
      then show ?thesis by (simp add: bit_iff_odd)
    qed
    then show "bit (x AND push_bit k c) n = bit 0 n" by (auto simp: bit_and_iff bit_push_bit_iff)
  qed
  then show ?thesis by (simp add: disjunctive_add_eq_or [symmetric] push_bit_eq_mult)
qed

lemma unat_or_push:
  fixes w :: "'a::len word"
  assumes "unat w < 2 ^ k" and "unat c * 2 ^ k < 2 ^ LENGTH('a)"
  shows "unat (w OR push_bit k c) = unat w + unat c * 2 ^ k"
proof -
  have "unat (push_bit k c) = push_bit k (unat c)"
    using assms(2) unfolding unsigned_push_bit_eq
    by (intro take_bit_nat_eq_self) (simp only: push_bit_eq_mult)
  then show ?thesis using nat_or_push [OF assms(1)] by (simp add: unsigned_or_eq)
qed

text \<open>The number of bytes after the header of \<open>serialize_var_u64\<close>.\<close>

definition var_len :: "u64 \<Rightarrow> nat" where
  "var_len val =
    (if unat val < 2 ^ 4 then 0 else if unat val < 2 ^ 12 then 1 else if unat val < 2 ^ 20 then 2
     else if unat val < 2 ^ 28 then 3 else if unat val < 2 ^ 36 then 4 else if unat val < 2 ^ 44 then 5
     else if unat val < 2 ^ 52 then 6 else if unat val < 2 ^ 60 then 7 else 8)"

definition var_form :: "nat \<Rightarrow> nat \<Rightarrow> bytes" where
  "var_form n x = write_be (Suc n) (n * 16 * 256 ^ n + x)"

lemma var_formI: "m = Suc n \<Longrightarrow> y = n * 16 * 256 ^ n + x \<Longrightarrow> write_be m y = var_form n x"
  by (simp only: var_form_def)

lemma write_word_form:
  "write_word (b :: byte) = write_be 1 (unat b)"
  "write_word (c :: u16) = write_be 2 (unat c)"
  "write_word (d :: u32) = write_be 4 (unat d)"
  "write_word (e :: u64) = write_be 8 (unat e)"
  by (simp_all only: write_word_def) simp_all

lemma unat_bounds:
  "unat (b :: byte) < 256" "unat (c :: u16) < 256 ^ 2" "unat (d :: u32) < 256 ^ 4" "unat (e :: u64) < 256 ^ 8"
  using unsigned_less [of b] unsigned_less [of c] unsigned_less [of d] unsigned_less [of e] by simp_all

lemma unat_u64_less: "unat (v :: u64) < 2 ^ 64"
  using unsigned_less [of v] by simp

lemma write_word_join:
  "write_word (b :: byte) @ write_word (c :: u16) = write_be 3 (unat b * 256 ^ 2 + unat c)"
  "write_word (b :: byte) @ write_word (d :: u32) = write_be 5 (unat b * 256 ^ 4 + unat d)"
  "write_word (c :: u16) @ write_word (d :: u32) = write_be 6 (unat c * 256 ^ 4 + unat d)"
  "write_word (b :: byte) @ write_word (e :: u64) = write_be 9 (unat b * 256 ^ 8 + unat e)"
  unfolding write_word_form write_be_join [OF unat_bounds(2)]
    write_be_join [OF unat_bounds(3)] write_be_join [OF unat_bounds(4)]
  by (simp_all add: numeral_3_eq_3)

lemma write_word_join3:
  "write_word (b :: byte) @ write_word (c :: u16) @ write_word (d :: u32)
    = write_be 7 (unat b * 256 ^ 6 + (unat c * 256 ^ 4 + unat d))"
proof -
  have "unat c * 256 ^ 4 + unat d < 256 ^ 6"
    using unat_bounds(2) [of c] unat_bounds(3) [of d] by simp
  then show ?thesis
    unfolding write_word_join(3) write_word_form(1) by (simp only: write_be_join) simp
qed

lemma unat_ucast_mod:
  "unat (ucast (v :: u64) :: byte) = unat v mod 2 ^ 8"
  "unat (ucast v :: u16) = unat v mod 2 ^ 16"
  "unat (ucast v :: u32) = unat v mod 2 ^ 32"
  by (simp_all add: unsigned_ucast_eq take_bit_eq_mod)

lemma unat_drop_bit: "unat (drop_bit k (v :: u64)) = unat v div 2 ^ k"
  by (metis drop_bit_eq_div unat_drop_bit_eq)

lemma less_push_bit_1: "k < 64 \<Longrightarrow> (v :: u64) < push_bit k 1 \<longleftrightarrow> unat v < 2 ^ k"
  unfolding word_less_nat_alt unsigned_push_bit_eq
  using power_strict_increasing [of k 64 "2 :: nat"]
  by (subst take_bit_nat_eq_self) (simp_all add: push_bit_eq_mult)

lemma less_push_bits:
  fixes v :: u64
  shows "v < push_bit 4 1 \<longleftrightarrow> unat v < 2 ^ 4" "v < push_bit 12 1 \<longleftrightarrow> unat v < 2 ^ 12"
    "v < push_bit 20 1 \<longleftrightarrow> unat v < 2 ^ 20" "v < push_bit 28 1 \<longleftrightarrow> unat v < 2 ^ 28"
    "v < push_bit 36 1 \<longleftrightarrow> unat v < 2 ^ 36" "v < push_bit 44 1 \<longleftrightarrow> unat v < 2 ^ 44"
    "v < push_bit 52 1 \<longleftrightarrow> unat v < 2 ^ 52" "v < push_bit 60 1 \<longleftrightarrow> unat v < 2 ^ 60"
  by (rule less_push_bit_1, simp)+

lemma split_48_32:
  "x div 2 ^ 48 * 2 ^ 48 + (x div 2 ^ 32 mod 2 ^ 16 * 2 ^ 32 + x mod 2 ^ 32) = (x :: nat)"
proof -
  have "x div 2 ^ 32 div 2 ^ 16 = x div 2 ^ 48" by (simp only: div_mult2_eq [symmetric]) simp
  then have "x = (x div 2 ^ 48 * 2 ^ 16 + x div 2 ^ 32 mod 2 ^ 16) * 2 ^ 32 + x mod 2 ^ 32"
    by (metis div_mult_mod_eq)
  then show ?thesis by (simp add: algebra_simps)
qed

lemma var_forms:
  fixes val :: u64
  shows "unat val < 2 ^ 4 \<Longrightarrow> write_word (ucast val :: byte) = var_form 0 (unat val)"
    and "unat val < 2 ^ 12 \<Longrightarrow> write_word ((ucast val :: u16) OR push_bit 12 1) = var_form 1 (unat val)"
    and "unat val < 2 ^ 20 \<Longrightarrow> write_word ((ucast (drop_bit 16 val) :: byte) OR push_bit 4 2)
      @ write_word (ucast val :: u16) = var_form 2 (unat val)"
    and "unat val < 2 ^ 28 \<Longrightarrow> write_word ((ucast val :: u32) OR push_bit 28 3) = var_form 3 (unat val)"
    and "unat val < 2 ^ 36 \<Longrightarrow> write_word ((ucast (drop_bit 32 val) :: byte) OR push_bit 4 4)
      @ write_word (ucast val :: u32) = var_form 4 (unat val)"
    and "unat val < 2 ^ 44 \<Longrightarrow> write_word ((ucast (drop_bit 32 val) :: u16) OR push_bit 12 5)
      @ write_word (ucast val :: u32) = var_form 5 (unat val)"
    and "unat val < 2 ^ 52 \<Longrightarrow> write_word ((ucast (drop_bit 48 val) :: byte) OR push_bit 4 6)
      @ write_word (ucast (drop_bit 32 val) :: u16) @ write_word (ucast val :: u32) = var_form 6 (unat val)"
    and "unat val < 2 ^ 60 \<Longrightarrow> write_word (val OR push_bit 60 7) = var_form 7 (unat val)"
    and "write_word (push_bit 4 8 :: byte) @ write_word val = var_form 8 (unat val)"
  unfolding write_word_join3 unfolding write_word_join unfolding write_word_form
  subgoal by (rule var_formI) (simp_all add: unat_ucast_mod)
  subgoal by (rule var_formI) (simp, subst unat_or_push, simp_all add: unat_ucast_mod)
  subgoal by (rule var_formI) (simp, subst unat_or_push, simp_all add: unat_ucast_mod unat_drop_bit)
  subgoal by (rule var_formI) (simp, subst unat_or_push, simp_all add: unat_ucast_mod unat_drop_bit)
  subgoal by (rule var_formI) (simp, subst unat_or_push, simp_all add: unat_ucast_mod unat_drop_bit)
  subgoal by (rule var_formI) (simp, subst unat_or_push, simp_all add: unat_ucast_mod unat_drop_bit)
  subgoal using split_48_32 [of "unat val"]
    by (intro var_formI) (simp, subst unat_or_push, simp_all add: unat_ucast_mod unat_drop_bit)
  subgoal by (rule var_formI) (simp, subst unat_or_push, simp_all add: unat_ucast_mod unat_drop_bit)
  subgoal by (rule var_formI) simp_all
  done

lemma serialize_var_u64_form: "serialize_var_u64 val = var_form (var_len val) (unat val)"
  unfolding serialize_var_u64_def var_len_def
less_push_bits
    if_distrib [of "\<lambda>n. var_form n (unat val)"]
  by (rule if_cong [OF refl], erule var_forms)+ (rule var_forms(9))

section \<open>Reading a form back\<close>

lemma write_be_head:
  assumes "x < 256 ^ Suc k"
  shows "write_be (Suc k) x = word_of_nat (x div 256 ^ k) # write_be k (x mod 256 ^ k)"
proof -
  have "x div 256 ^ k < 256" using assms by (intro less_mult_imp_div_less) simp
  then have "write_be 1 (x div 256 ^ k) = [word_of_nat (x div 256 ^ k)]"
    by (simp add: write_be.simps)
  then show ?thesis
    using write_be_join [of "x mod 256 ^ k" k 1 "x div 256 ^ k"] unfolding div_mult_mod_eq by simp
qed

lemma unat_push_byte:
  assumes "y < 256" and "k < 8"
  shows "unat (push_bit (k * 8) (ucast (word_of_nat y :: byte)) :: u64) = y * 256 ^ k"
proof -
  have "y * 256 ^ k < 256 * 256 ^ k" using assms(1) by simp
  also have "\<dots> = 2 ^ (8 * Suc k)" by (subst power_mult) simp
  also have "\<dots> \<le> 2 ^ 64" using assms(2) by (intro power_increasing) simp_all
  finally have b: "y * 256 ^ k < 2 ^ 64" .
  have u: "unat (ucast (word_of_nat y :: byte) :: u64) = y"
    using assms(1) by (simp add: unsigned_ucast_eq unat_of_nat take_bit_nat_eq_self)
  have p: "(2 :: nat) ^ (k * 8) = 256 ^ k" by (subst mult.commute) (simp add: power_mult)
  show ?thesis
    unfolding unsigned_push_bit_eq u unfolding push_bit_eq_mult p using b by (intro take_bit_nat_eq_self) simp
qed

lemma var_loop_inverts:
  assumes "x < 256 ^ k" and "k \<le> 8" and "unat val + x < 2 ^ 64"
  shows "var_loop m k val (map (\<lambda>b. b XOR m) (write_be k x) @ r) = (Inr (val + word_of_nat x), r)"
  using assms
proof (induction k arbitrary: x val)
  case 0
  then show ?case by (simp add: write_be.simps)
next
  case (Suc k)
  define y z where "y = x div 256 ^ k" and "z = x mod 256 ^ k"
  define t :: u64 where "t = push_bit (k * 8) (ucast (word_of_nat y :: byte))"
  have y: "y < 256" unfolding y_def using Suc.prems(1) by (intro less_mult_imp_div_less) simp
  have z: "z < 256 ^ k" by (simp add: z_def)
  have t: "unat t = y * 256 ^ k" unfolding t_def using y Suc.prems(2) by (intro unat_push_byte) simp_all
  have x: "y * 256 ^ k + z = x" unfolding y_def z_def by (rule div_mult_mod_eq)
  have nov: "unat val + unat t < 2 ^ 64" using Suc.prems(3) t x by linarith
  then have ut: "unat (val + t) = unat val + unat t" by (simp add: unat_word_ariths)
  have "unat (val + t) + z < 2 ^ 64" using Suc.prems(3) ut t x by linarith
  then have IH: "var_loop m k (val + t) (map (\<lambda>b. b XOR m) (write_be k z) @ r)
    = (Inr (val + t + word_of_nat z), r)"
    using Suc.prems(2) by (intro Suc.IH [OF z]) simp_all
  have "t = word_of_nat (y * 256 ^ k)" unfolding t [symmetric] by simp
  then have sum: "val + t + word_of_nat z = val + word_of_nat x"
    by (simp only: add.assoc of_nat_add [symmetric] x)
  have c: "\<not> 64 \<le> k * 8" "\<not> 2 ^ 64 \<le> unat val + unat t"
    using Suc.prems(2) nov by simp_all
  have b: "(word_of_nat y XOR m) XOR m = word_of_nat y" by (simp add: xor.assoc)
  have "var_loop m (Suc k) val ((word_of_nat y XOR m) # map (\<lambda>b. b XOR m) (write_be k z) @ r)
    = (Inr (val + word_of_nat x), r)"
    unfolding var_loop.simps rbind_apply read_word_Cons prod.case sum.case b t_def [symmetric] Let_def
    by (simp only: c if_False IH sum)
  then show ?case
    unfolding write_be_head [OF Suc.prems(1)] list.map append_Cons y_def z_def .
qed

section \<open>\<open>u64\<close>: round trip and order\<close>

lemma var_len_bounds:
  "var_len v \<le> 8" "unat v < 16 * 256 ^ var_len v"
  "var_len v = 8 \<Longrightarrow> unat v div 256 ^ var_len v = 0"
  using unat_bounds(4) [of v] unfolding var_len_def by (auto split: if_split)

lemma div_less_of_mult: "(x :: nat) < c * 256 ^ n \<Longrightarrow> x div 256 ^ n < c"
  by (intro less_mult_imp_div_less) simp

lemma var_form_head:
  assumes "x < 16 * 256 ^ n" and "n \<le> 8"
  shows "var_form n x = word_of_nat (n * 16 + x div 256 ^ n) # write_be n (x mod 256 ^ n)"
proof -
  have "n * 16 * 256 ^ n + x < 256 ^ Suc n"
  proof -
    have "n * 16 * 256 ^ n + x < (n * 16 + 16) * 256 ^ n" using assms(1) by (simp add: algebra_simps)
    also have "\<dots> \<le> 256 * 256 ^ n" using assms(2) by (intro mult_right_mono) simp_all
    finally show ?thesis by simp
  qed
  moreover have "(n * 16 * 256 ^ n + x) div 256 ^ n = n * 16 + x div 256 ^ n" by simp
  moreover have "(n * 16 * 256 ^ n + x) mod 256 ^ n = x mod 256 ^ n" by simp
  ultimately show ?thesis unfolding var_form_def by (simp only: write_be_head)
qed

lemma byte_of_nat_fields:
  assumes "y < 16" and "n < 16"
  shows "unat (drop_bit 4 (word_of_nat (n * 16 + y) :: byte)) = n"
    and "ucast (word_of_nat (n * 16 + y) AND 0x0F :: byte) = (word_of_nat y :: u64)"
proof -
  let ?h = "word_of_nat (n * 16 + y) :: byte"
  have h: "unat ?h = n * 16 + y"
    using assms unfolding unat_of_nat by simp
  show "unat (drop_bit 4 ?h) = n"
    using assms(1) unfolding unat_drop_bit_eq h by (simp add: drop_bit_eq_div)
  have e: "?h AND 0x0F = take_bit 4 ?h" by (simp add: take_bit_eq_mask mask_eq_exp_minus_1)
  have "unat (?h AND 0x0F) = y"
    unfolding e unsigned_take_bit_eq h using assms by (simp add: take_bit_eq_mod)
  then have "word_of_nat (unat (?h AND 0x0F)) = (word_of_nat y :: u64)" by (rule arg_cong)
  then show "ucast (?h AND 0x0F) = (word_of_nat y :: u64)" by (simp only: of_nat_unat)
qed

lemma push_header:
  assumes "n \<le> 8" and "n = 8 \<Longrightarrow> y = 0"
  shows "push_bit ((n * 8) mod 64) (word_of_nat y) = (word_of_nat (y * 256 ^ n) :: u64)"
proof (cases "n = 8")
  case True
  then show ?thesis using assms(2) by simp
next
  case False
  then have "n * 8 < 64" using assms(1) by simp
  moreover have "(2 :: nat) ^ (n * 8) = 256 ^ n" by (subst mult.commute) (simp add: power_mult)
  then have "(2 :: u64) ^ (n * 8) = word_of_nat (256 ^ n)" by (metis of_nat_numeral of_nat_power)
  ultimately show ?thesis by (simp add: push_bit_eq_mult)
qed

lemma deserialize_var_u64_form:
  assumes "n \<le> 8" and "x < 16 * 256 ^ n" and "x < 2 ^ 64"
  shows "deserialize_var_u64 (var_form n x @ r) = (Inr (word_of_nat x), r)"
proof -
  define y z where "y = x div 256 ^ n" and "z = x mod 256 ^ n"
  have y: "y < 16" unfolding y_def using assms(2) by (rule div_less_of_mult)
  have x: "y * 256 ^ n + z = x" unfolding y_def z_def by (rule div_mult_mod_eq)
  have z: "z < 256 ^ n" by (simp add: z_def)
  have v0: "push_bit ((n * 8) mod 64) (word_of_nat y) = (word_of_nat (y * 256 ^ n) :: u64)"
    using assms by (intro push_header) (auto simp: y_def)
  have "unat (word_of_nat (y * 256 ^ n) :: u64) = y * 256 ^ n"
    using assms(3) x unfolding unat_of_nat by simp
  then have "var_loop 0 n (word_of_nat (y * 256 ^ n)) (map (\<lambda>b. b XOR 0) (write_be n z) @ r)
    = (Inr (word_of_nat (y * 256 ^ n) + word_of_nat z), r)"
    using assms x z by (intro var_loop_inverts) simp_all
  then have loop: "var_loop 0 n (word_of_nat (y * 256 ^ n)) (write_be n z @ r) = (Inr (word_of_nat x), r)"
    by (simp only: xor.right_neutral list.map_ident of_nat_add [symmetric] x)
  show ?thesis
    unfolding var_form_head [OF assms(2,1)] append_Cons deserialize_var_u64_def rbind_apply read_word_Cons
      prod.case sum.case Let_def y_def [symmetric] z_def [symmetric]
    using assms(1) y by (simp only: byte_of_nat_fields v0 loop)
qed

lemma var_u64_inverts: "deserialize_var_u64 (serialize_var_u64 v @ r) = (Inr v, r)"
  using deserialize_var_u64_form [OF var_len_bounds(1,2) unat_u64_less]
  unfolding serialize_var_u64_form by simp

lemma var_len_mono: "unat v \<le> unat w \<Longrightarrow> var_len v \<le> var_len w"
  unfolding var_len_def by (auto split: if_split)

lemma var_u64_enc_less:
  assumes "v < w"
  shows "enc_less (serialize_var_u64 v) (serialize_var_u64 w)"
proof (cases "var_len v = var_len w")
  case True
  have b: "var_len w * 16 * 256 ^ var_len w + unat w < 256 ^ Suc (var_len w)"
  proof -
    have "var_len w * 16 * 256 ^ var_len w + unat w < (var_len w * 16 + 16) * 256 ^ var_len w"
      using var_len_bounds(2) [of w] by (simp add: algebra_simps)
    also have "\<dots> \<le> 256 * 256 ^ var_len w" using var_len_bounds(1) [of w] by (intro mult_right_mono) simp_all
    finally show ?thesis by simp
  qed
  then show ?thesis using assms unfolding serialize_var_u64_form True var_form_def
    by (intro enc_less_same_length write_be_less) (simp_all add: word_less_nat_alt)
next
  case False
  then have l: "var_len v < var_len w" using var_len_mono [of v w] assms by (simp add: word_less_nat_alt)
  have y: "unat v div 256 ^ var_len v < 16" "unat w div 256 ^ var_len w < 16"
    using var_len_bounds(2) by (intro div_less_of_mult; assumption)+
  have "(word_of_nat (var_len v * 16 + unat v div 256 ^ var_len v) :: byte)
      < word_of_nat (var_len w * 16 + unat w div 256 ^ var_len w)"
    using l y var_len_bounds(1) [of w] unfolding word_less_nat_alt unat_of_nat by simp
  then show ?thesis
    unfolding serialize_var_u64_form var_form_head [OF var_len_bounds(2,1)] by (simp add: enc_less_def)
qed

section \<open>\<open>i64\<close>: the form of an encoding\<close>

definition var_iform :: "nat \<Rightarrow> nat \<Rightarrow> bytes" where
  "var_iform n x = write_be (Suc n) ((16 + n) * 8 * 256 ^ n + x)"

text \<open>The branches of \<open>serialize_var_i64\<close> without the sign mask.\<close>

definition var_ibody :: "u64 \<Rightarrow> bytes" where
  "var_ibody val =
    (if val < push_bit 3 1 then write_word (ucast (val OR push_bit 3 0x10) :: byte)
     else if val < push_bit 11 1 then write_word (ucast (val OR push_bit 11 0x11) :: u16)
     else if val < push_bit 19 1 then
       write_word (ucast (drop_bit 16 (val OR push_bit 19 0x12)) :: byte)
         @ write_word (ucast (val OR push_bit 19 0x12) :: u16)
     else if val < push_bit 27 1 then write_word (ucast (val OR push_bit 27 0x13) :: u32)
     else if val < push_bit 35 1 then
       write_word (ucast (drop_bit 32 (val OR push_bit 35 0x14)) :: byte)
         @ write_word (ucast (val OR push_bit 35 0x14) :: u32)
     else if val < push_bit 43 1 then
       write_word (ucast (drop_bit 32 (val OR push_bit 43 0x15)) :: u16)
         @ write_word (ucast (val OR push_bit 43 0x15) :: u32)
     else if val < push_bit 51 1 then
       write_word (ucast (drop_bit 48 (val OR push_bit 51 0x16)) :: byte)
         @ write_word (ucast (drop_bit 32 (val OR push_bit 51 0x16)) :: u16)
         @ write_word (ucast (val OR push_bit 51 0x16) :: u32)
     else if val < push_bit 59 1 then write_word (val OR push_bit 59 0x17)
     else write_word (push_bit 3 0x18 :: byte) @ write_word val)"

lemma not_byte: "y < 256 \<Longrightarrow> NOT (word_of_nat y :: byte) = word_of_nat (255 - y)"
  by (simp add: not_eq_complement of_nat_diff)

lemma write_be_not: "x < 256 ^ n \<Longrightarrow> map NOT (write_be n x) = write_be n (256 ^ n - 1 - x)"
proof (induction n arbitrary: x)
  case (Suc n)
  define q r where "q = x div 256" and "r = x mod 256"
  have x: "x = q * 256 + r" and r: "r < 256" unfolding q_def r_def by simp_all
  have q: "q < 256 ^ n" using Suc.prems x by simp
  define s where "s = 255 - r"
  have s: "s < 256" by (simp add: s_def)
  have e: "256 ^ Suc n - 1 - x = (256 ^ n - 1 - q) * 256 + s"
    using q r unfolding x s_def by (simp add: algebra_simps)
  have "(256 ^ Suc n - 1 - x) div 256 = 256 ^ n - 1 - q" "(256 ^ Suc n - 1 - x) mod 256 = s"
    unfolding e using s by simp_all
  then show ?case
    using Suc.IH [OF q] not_byte [OF r, folded s_def] by (simp add: write_be.simps q_def [symmetric] r_def [symmetric] del: power_Suc)
qed (simp add: write_be.simps)

lemma uint_not: "uint (NOT w :: 'a::len word) = 2 ^ LENGTH('a) - 1 - uint w"
proof -
  have "uint (NOT w) = (- uint w - 1) mod 2 ^ LENGTH('a)"
    by (simp add: unsigned_not_eq take_bit_eq_mod not_int_def)
  also have "\<dots> = (2 ^ LENGTH('a) - 1 - uint w) mod 2 ^ LENGTH('a)"
    using mod_add_self2 [of "- uint w - 1" "2 ^ LENGTH('a)"] by (simp add: algebra_simps)
  also have "\<dots> = 2 ^ LENGTH('a) - 1 - uint w"
    using unsigned_less [of w, where 'a = int] unsigned_greater_eq [of w, where 'a = int]
    by (intro mod_pos_pos_trivial) linarith+
  finally show ?thesis .
qed

lemma write_word_not:
  assumes "8 dvd LENGTH('a::len)"
  shows "write_word (NOT w :: 'a word) = map NOT (write_word w)"
proof -
  have p: "(256 :: nat) ^ (LENGTH('a) div 8) = 2 ^ LENGTH('a)"
    using assms power_mult [of "2 :: nat" 8 "LENGTH('a) div 8"] by simp
  have "int (unat (NOT w)) = int (2 ^ LENGTH('a) - 1 - unat w)"
    using uint_not [of w] unsigned_less [of w, where 'a = nat, folded Suc_le_eq] by (simp add: of_nat_diff)
  then have "unat (NOT w) = 2 ^ LENGTH('a) - 1 - unat w" by (simp only: of_nat_eq_iff)
  then show ?thesis
    unfolding write_word_def using write_be_not [OF unat_word_bound [OF assms, of w]] p by simp
qed

lemma ucast_not_widths:
  fixes X :: u64
  shows "(ucast (NOT X) :: byte) = NOT (ucast X)" "(ucast (NOT X) :: u16) = NOT (ucast X)"
    "(ucast (NOT X) :: u32) = NOT (ucast X)"
    "(ucast (drop_bit 16 (NOT X)) :: byte) = NOT (ucast (drop_bit 16 X))"
    "(ucast (drop_bit 32 (NOT X)) :: byte) = NOT (ucast (drop_bit 32 X))"
    "(ucast (drop_bit 48 (NOT X)) :: byte) = NOT (ucast (drop_bit 48 X))"
    "(ucast (drop_bit 32 (NOT X)) :: u16) = NOT (ucast (drop_bit 32 X))"
  by (rule bit_word_eqI, auto simp: bit_simps)+

lemma write_not_widths:
  "write_word (NOT b :: byte) = map NOT (write_word b)" "write_word (NOT c :: u16) = map NOT (write_word c)"
  "write_word (NOT d :: u32) = map NOT (write_word d)" "write_word (NOT e :: u64) = map NOT (write_word e)"
  by (rule write_word_not, simp)+

text \<open>The magnitude \<open>serialize_var_i64\<close> writes: \<open>v\<close>, or \<open>- v - 1\<close> for a negative \<open>v\<close>.\<close>

definition var_mag :: "u64 \<Rightarrow> nat" where
  "var_mag v = (if sint v < 0 then nat (- sint v - 1) else nat (sint v))"

lemma bit_63: "bit (v :: u64) 63 \<longleftrightarrow> sint v < 0"
  using bit_last_iff [of v] by simp

lemma sign_mask: "signed_drop_bit 63 (v :: u64) = (if sint v < 0 then - 1 else 0)"
  using signed_drop_all_bits [of v] by (simp add: bit_63)

lemma sint_cases: "sint (v :: u64) = (if uint v < 2 ^ 63 then uint v else uint v - 2 ^ 64)"
proof -
  have s: "sint v = (uint v + 2 ^ 63) mod 2 ^ 64 - 2 ^ 63"
    by (simp add: sint_uint signed_take_bit_eq_take_bit_shift take_bit_eq_mod)
  have u: "0 \<le> uint v" "uint v < 2 ^ 64" using unsigned_less [of v, where 'a = int] by simp_all
  show ?thesis
  proof (cases "uint v < 2 ^ 63")
    case True
    then show ?thesis using s u by (simp add: mod_pos_pos_trivial)
  next
    case False
    have "(uint v + 2 ^ 63) mod 2 ^ 64 = (uint v - 2 ^ 63) mod 2 ^ 64"
      using mod_add_self2 [of "uint v - 2 ^ 63" "2 ^ 64"] by (simp add: add.commute)
    also have "\<dots> = uint v - 2 ^ 63" using u False by (intro mod_pos_pos_trivial) simp_all
    finally show ?thesis using s False by simp
  qed
qed

lemma unat_mag: "unat (unsigned_abs v - (1 AND signed_drop_bit 63 v)) = var_mag v"
proof -
  have "int (unat (unsigned_abs v - (1 AND signed_drop_bit 63 v))) = int (var_mag v)"
  proof (cases "sint v < 0")
    case True
    have "- v - 1 = NOT v" by (simp add: not_eq_complement)
    then have "int (unat (unsigned_abs v - (1 AND signed_drop_bit 63 v))) = uint (NOT v)"
      using True by (simp add: unsigned_abs_def sign_mask)
    also have "\<dots> = - sint v - 1"
      using True sint_cases [of v] uint_not [of v] by (simp split: if_splits)
    finally show ?thesis using True by (simp add: var_mag_def)
  next
    case False
    then have "int (unat (unsigned_abs v - (1 AND signed_drop_bit 63 v))) = uint v"
      by (simp add: unsigned_abs_def sign_mask)
    also have "\<dots> = sint v"
      using False sint_cases [of v] unsigned_less [of v, where 'a = int] by (simp split: if_splits)
    finally show ?thesis using False by (simp add: var_mag_def)
  qed
  then show ?thesis by (simp only: of_nat_eq_iff)
qed

lemma xor_all_ones: "x XOR (- 1) = NOT (x :: 'a::len word)"
  by simp

lemma ucast_all_ones: "(ucast (- 1 :: u64) :: byte) = - 1"
  by (rule bit_word_eqI) (auto simp: bit_simps)

lemma serialize_var_i64_body:
  "serialize_var_i64 v = (let body = var_ibody (unsigned_abs v - (1 AND signed_drop_bit 63 v))
     in if sint v < 0 then map NOT body else body)"
proof (cases "sint v < 0")
  case True
  show ?thesis
    unfolding serialize_var_i64_def var_ibody_def Let_def sign_mask if_P [OF True] xor_all_ones ucast_all_ones
      ucast_not_widths write_not_widths if_distrib [of "map NOT"] map_append ..
next
  case False
  show ?thesis
    unfolding serialize_var_i64_def var_ibody_def Let_def sign_mask if_not_P [OF False]
    by (simp only: xor.right_neutral unsigned_0)
qed

definition var_ilen :: "nat \<Rightarrow> nat" where
  "var_ilen x =
    (if x < 2 ^ 3 then 0 else if x < 2 ^ 11 then 1 else if x < 2 ^ 19 then 2
     else if x < 2 ^ 27 then 3 else if x < 2 ^ 35 then 4 else if x < 2 ^ 43 then 5
     else if x < 2 ^ 51 then 6 else if x < 2 ^ 59 then 7 else 8)"

lemma less_push_ibits:
  fixes v :: u64
  shows "v < push_bit 3 1 \<longleftrightarrow> unat v < 2 ^ 3" "v < push_bit 11 1 \<longleftrightarrow> unat v < 2 ^ 11"
    "v < push_bit 19 1 \<longleftrightarrow> unat v < 2 ^ 19" "v < push_bit 27 1 \<longleftrightarrow> unat v < 2 ^ 27"
    "v < push_bit 35 1 \<longleftrightarrow> unat v < 2 ^ 35" "v < push_bit 43 1 \<longleftrightarrow> unat v < 2 ^ 43"
    "v < push_bit 51 1 \<longleftrightarrow> unat v < 2 ^ 51" "v < push_bit 59 1 \<longleftrightarrow> unat v < 2 ^ 59"
  by (rule less_push_bit_1, simp)+

lemma var_iformI: "m = Suc n \<Longrightarrow> y = (16 + n) * 8 * 256 ^ n + x \<Longrightarrow> write_be m y = var_iform n x"
  by (simp only: var_iform_def)

text \<open>Cutting a masked word into the words that are written loses nothing.\<close>

lemma cut_words:
  fixes X :: u64
  shows "unat X < 2 ^ 8 \<Longrightarrow> write_word (ucast X :: byte) = write_be 1 (unat X)"
    and "unat X < 2 ^ 16 \<Longrightarrow> write_word (ucast X :: u16) = write_be 2 (unat X)"
    and "unat X < 2 ^ 24 \<Longrightarrow> write_word (ucast (drop_bit 16 X) :: byte) @ write_word (ucast X :: u16)
      = write_be 3 (unat X)"
    and "unat X < 2 ^ 32 \<Longrightarrow> write_word (ucast X :: u32) = write_be 4 (unat X)"
    and "unat X < 2 ^ 40 \<Longrightarrow> write_word (ucast (drop_bit 32 X) :: byte) @ write_word (ucast X :: u32)
      = write_be 5 (unat X)"
    and "unat X < 2 ^ 48 \<Longrightarrow> write_word (ucast (drop_bit 32 X) :: u16) @ write_word (ucast X :: u32)
      = write_be 6 (unat X)"
    and "unat X < 2 ^ 56 \<Longrightarrow> write_word (ucast (drop_bit 48 X) :: byte)
      @ write_word (ucast (drop_bit 32 X) :: u16) @ write_word (ucast X :: u32) = write_be 7 (unat X)"
  unfolding write_word_join3 unfolding write_word_join unfolding write_word_form
  subgoal by (simp add: unat_ucast_mod)
  subgoal by (simp add: unat_ucast_mod)
  subgoal by (simp add: unat_ucast_mod unat_drop_bit)
  subgoal by (simp add: unat_ucast_mod)
  subgoal by (simp add: unat_ucast_mod unat_drop_bit)
  subgoal by (simp add: unat_ucast_mod unat_drop_bit)
  subgoal using split_48_32 [of "unat X"] by (simp add: unat_ucast_mod unat_drop_bit)
  done

lemma unat_or_count:
  fixes val :: u64
  shows "unat val < 2 ^ 3 \<Longrightarrow> unat (val OR push_bit 3 0x10) = (16 + 0) * 8 * 256 ^ 0 + unat val"
    and "unat val < 2 ^ 11 \<Longrightarrow> unat (val OR push_bit 11 0x11) = (16 + 1) * 8 * 256 ^ 1 + unat val"
    and "unat val < 2 ^ 19 \<Longrightarrow> unat (val OR push_bit 19 0x12) = (16 + 2) * 8 * 256 ^ 2 + unat val"
    and "unat val < 2 ^ 27 \<Longrightarrow> unat (val OR push_bit 27 0x13) = (16 + 3) * 8 * 256 ^ 3 + unat val"
    and "unat val < 2 ^ 35 \<Longrightarrow> unat (val OR push_bit 35 0x14) = (16 + 4) * 8 * 256 ^ 4 + unat val"
    and "unat val < 2 ^ 43 \<Longrightarrow> unat (val OR push_bit 43 0x15) = (16 + 5) * 8 * 256 ^ 5 + unat val"
    and "unat val < 2 ^ 51 \<Longrightarrow> unat (val OR push_bit 51 0x16) = (16 + 6) * 8 * 256 ^ 6 + unat val"
    and "unat val < 2 ^ 59 \<Longrightarrow> unat (val OR push_bit 59 0x17) = (16 + 7) * 8 * 256 ^ 7 + unat val"
  by (subst unat_or_push; simp)+

lemma var_iforms:
  fixes val :: u64
  shows "unat val < 2 ^ 3 \<Longrightarrow> write_word (ucast (val OR push_bit 3 0x10) :: byte) = var_iform 0 (unat val)"
    and "unat val < 2 ^ 11 \<Longrightarrow> write_word (ucast (val OR push_bit 11 0x11) :: u16) = var_iform 1 (unat val)"
    and "unat val < 2 ^ 19 \<Longrightarrow> write_word (ucast (drop_bit 16 (val OR push_bit 19 0x12)) :: byte)
      @ write_word (ucast (val OR push_bit 19 0x12) :: u16) = var_iform 2 (unat val)"
    and "unat val < 2 ^ 27 \<Longrightarrow> write_word (ucast (val OR push_bit 27 0x13) :: u32) = var_iform 3 (unat val)"
    and "unat val < 2 ^ 35 \<Longrightarrow> write_word (ucast (drop_bit 32 (val OR push_bit 35 0x14)) :: byte)
      @ write_word (ucast (val OR push_bit 35 0x14) :: u32) = var_iform 4 (unat val)"
    and "unat val < 2 ^ 43 \<Longrightarrow> write_word (ucast (drop_bit 32 (val OR push_bit 43 0x15)) :: u16)
      @ write_word (ucast (val OR push_bit 43 0x15) :: u32) = var_iform 5 (unat val)"
    and "unat val < 2 ^ 51 \<Longrightarrow> write_word (ucast (drop_bit 48 (val OR push_bit 51 0x16)) :: byte)
      @ write_word (ucast (drop_bit 32 (val OR push_bit 51 0x16)) :: u16)
      @ write_word (ucast (val OR push_bit 51 0x16) :: u32) = var_iform 6 (unat val)"
    and "unat val < 2 ^ 59 \<Longrightarrow> write_word (val OR push_bit 59 0x17) = var_iform 7 (unat val)"
    and "write_word (push_bit 3 0x18 :: byte) @ write_word val = var_iform 8 (unat val)"
  subgoal using unat_or_count(1) [of val] by (intro trans [OF cut_words(1) var_iformI]) simp_all
  subgoal using unat_or_count(2) [of val] by (intro trans [OF cut_words(2) var_iformI]) simp_all
  subgoal using unat_or_count(3) [of val] by (intro trans [OF cut_words(3) var_iformI]) simp_all
  subgoal using unat_or_count(4) [of val] by (intro trans [OF cut_words(4) var_iformI]) simp_all
  subgoal using unat_or_count(5) [of val] by (intro trans [OF cut_words(5) var_iformI]) simp_all
  subgoal using unat_or_count(6) [of val] by (intro trans [OF cut_words(6) var_iformI]) simp_all
  subgoal using unat_or_count(7) [of val] by (intro trans [OF cut_words(7) var_iformI]) simp_all
  subgoal using unat_or_count(8) [of val] unfolding write_word_form by (intro var_iformI) simp_all
  subgoal unfolding write_word_join(4) by (rule var_iformI) simp_all
  done

lemma var_ibody_form: "var_ibody val = var_iform (var_ilen (unat val)) (unat val)"
  unfolding var_ibody_def var_ilen_def less_push_ibits if_distrib [of "\<lambda>n. var_iform n (unat val)"]
  by (rule if_cong [OF refl], erule var_iforms)+ (rule var_iforms(9))

lemma serialize_var_i64_form:
  "serialize_var_i64 v = (if sint v < 0 then map NOT (var_iform (var_ilen (var_mag v)) (var_mag v))
     else var_iform (var_ilen (var_mag v)) (var_mag v))"
  by (simp only: serialize_var_i64_body Let_def var_ibody_form unat_mag)

section \<open>\<open>i64\<close>: round trip and order\<close>

lemma var_mag_less: "var_mag v < 2 ^ 63"
proof -
  have "int (var_mag v) < 2 ^ 63"
    using sint_cases [of v] unsigned_less [of v, where 'a = int] unsigned_greater_eq [of v, where 'a = int]
    unfolding var_mag_def by (simp only: of_nat_nat int_nat_eq split: if_splits) simp_all
  then show ?thesis by simp
qed

lemma var_ilen_bounds:
  assumes "x < 2 ^ 63"
  shows "var_ilen x \<le> 8" "x < 8 * 256 ^ var_ilen x"
  using assms unfolding var_ilen_def by (auto split: if_split)

lemma var_iform_head:
  assumes "x < 8 * 256 ^ n" and "n \<le> 8"
  shows "var_iform n x = word_of_nat ((16 + n) * 8 + x div 256 ^ n) # write_be n (x mod 256 ^ n)"
proof -
  have "(16 + n) * 8 * 256 ^ n + x < 256 ^ Suc n"
  proof -
    have "(16 + n) * 8 * 256 ^ n + x < ((16 + n) * 8 + 8) * 256 ^ n"
      using assms(1) by (simp add: algebra_simps)
    also have "\<dots> \<le> 256 * 256 ^ n" using assms(2) by (intro mult_right_mono) simp_all
    finally show ?thesis by simp
  qed
  moreover have "((16 + n) * 8 * 256 ^ n + x) div 256 ^ n = (16 + n) * 8 + x div 256 ^ n" by simp
  moreover have "((16 + n) * 8 * 256 ^ n + x) mod 256 ^ n = x mod 256 ^ n" by simp
  ultimately show ?thesis unfolding var_iform_def by (simp only: write_be_head)
qed

text \<open>What the deserializer reads from the (masked) header byte.\<close>

lemma header_fields:
  assumes "y < 8" and "n \<le> 8" and m: "m = 0 \<or> m = - 1"
  defines "b \<equiv> word_of_nat ((16 + n) * 8 + y) :: byte"
  shows "signed_drop_bit 7 ((b XOR m) XOR 0x80) = m"
    and "unat ((drop_bit 3 (b XOR m) XOR m) AND 0x0F) = n"
    and "ucast (((b XOR m) XOR m) AND 0x07) = (word_of_nat y :: u64)"
proof -
  have ub: "unat b = (16 + n) * 8 + y" unfolding b_def unat_of_nat using assms(1,2) by simp
  have "unat b div 128 = 1" using ub assms(1,2) by simp
  then have "bit (unat b) 7" by (simp add: bit_iff_odd)
  then have b7: "bit b 7" by (simp add: bit_unsigned_iff)
  have t: "bit (0x80 :: byte) n \<longleftrightarrow> n = 7" for n
    using bit_exp_iff [where 'a = "byte", of 7 n] by (auto simp: possible_bit_def)
  show "signed_drop_bit 7 ((b XOR m) XOR 0x80) = m"
    using m b7 signed_drop_all_bits [of "(b XOR m) XOR 0x80"] by (auto simp: bit_xor_iff bit_not_iff t)
  have f: "(0x0F :: byte) = mask 4" by (simp add: mask_eq_exp_minus_1)
  have e: "(drop_bit 3 (b XOR m) XOR m) AND 0x0F = take_bit 4 (drop_bit 3 b)"
    unfolding f using m by (intro bit_word_eqI) (auto simp: bit_and_iff bit_mask_iff bit_take_bit_iff
        bit_drop_bit_eq bit_xor_iff bit_not_iff)
  have "((16 + n) * 8 + y) div 8 = 16 + n" by (subst div_mult_self3) (use assms(1) in simp_all)
  then have "drop_bit 3 ((16 + n) * 8 + y) = 16 + n" unfolding drop_bit_eq_div by simp
  then show "unat ((drop_bit 3 (b XOR m) XOR m) AND 0x0F) = n"
    unfolding e unsigned_take_bit_eq unat_drop_bit_eq ub
    using assms(2) by (simp only: take_bit_eq_mod) simp
  have e: "((b XOR m) XOR m) AND 0x07 = take_bit 3 b"
    by (simp add: xor.assoc take_bit_eq_mask mask_eq_exp_minus_1)
  have "unat (((b XOR m) XOR m) AND 0x07) = y"
    unfolding e unsigned_take_bit_eq ub using assms(1) by (simp add: take_bit_eq_mod mod_add_eq [symmetric])
  then have "word_of_nat (unat (((b XOR m) XOR m) AND 0x07)) = (word_of_nat y :: u64)" by (rule arg_cong)
  then show "ucast (((b XOR m) XOR m) AND 0x07) = (word_of_nat y :: u64)" by (simp only: of_nat_unat)
qed

lemma deserialize_var_i64_form:
  assumes n: "n \<le> 8" and x: "x < 8 * 256 ^ n" "x < 2 ^ 63" and m: "m = 0 \<or> m = - 1"
  shows "deserialize_var_i64 (map (\<lambda>b. b XOR m) (var_iform n x) @ r)
    = (Inr (word_of_nat x XOR (if m = 0 then 0 else - 1)), r)"
proof -
  define y z where "y = x div 256 ^ n" and "z = x mod 256 ^ n"
  have y: "y < 8" unfolding y_def using x(1) by (rule div_less_of_mult)
  have xyz: "y * 256 ^ n + z = x" unfolding y_def z_def by (rule div_mult_mod_eq)
  have z: "z < 256 ^ n" by (simp add: z_def)
  have v0: "push_bit ((n * 8) mod 64) (word_of_nat y) = (word_of_nat (y * 256 ^ n) :: u64)"
    using n x(2) by (intro push_header) (auto simp: y_def)
  have "unat (word_of_nat (y * 256 ^ n) :: u64) = y * 256 ^ n"
    using x(2) xyz unfolding unat_of_nat by simp
  then have "var_loop m n (word_of_nat (y * 256 ^ n)) (map (\<lambda>b. b XOR m) (write_be n z) @ r)
    = (Inr (word_of_nat (y * 256 ^ n) + word_of_nat z), r)"
    using n x(2) xyz z by (intro var_loop_inverts) simp_all
  then have loop: "var_loop m n (word_of_nat (y * 256 ^ n)) (map (\<lambda>b. b XOR m) (write_be n z) @ r)
    = (Inr (word_of_nat x), r)"
    by (simp only: of_nat_add [symmetric] xyz)
  have f: "signed_drop_bit 63 (push_bit 63 (ucast m :: u64)) = (if m = 0 then 0 else - 1)"
    using m signed_drop_all_bits [of "push_bit 63 (ucast m :: u64)"] by (auto simp: bit_simps)
  show ?thesis
    unfolding var_iform_head [OF x(1) n] list.map append_Cons deserialize_var_i64_def rbind_apply
      read_word_Cons prod.case sum.case Let_def y_def [symmetric] z_def [symmetric]
      header_fields [OF y n m] v0 loop f rret_apply ..
qed

lemma var_i64_inverts: "deserialize_var_i64 (serialize_var_i64 v @ r) = (Inr v, r)"
proof -
  note b = var_ilen_bounds [OF var_mag_less [of v]]
  show ?thesis
  proof (cases "sint v < 0")
    case True
    have "map NOT bs = map (\<lambda>b. b XOR - 1) bs" for bs :: bytes by simp
    moreover have "word_of_nat (var_mag v) = NOT v"
      using unat_mag [of v] True by (simp add: unsigned_abs_def sign_mask not_eq_complement flip: unat_mag)
    ultimately show ?thesis
      using deserialize_var_i64_form [OF b var_mag_less, of "- 1"] True
      by (simp add: serialize_var_i64_form)
  next
    case False
    have "word_of_nat (var_mag v) = v"
      using unat_mag [of v] False by (simp add: unsigned_abs_def sign_mask flip: unat_mag)
    then show ?thesis
      using deserialize_var_i64_form [OF b var_mag_less, of 0] False
      by (simp add: serialize_var_i64_form)
  qed
qed

lemma var_ilen_mono: "x \<le> y \<Longrightarrow> var_ilen x \<le> var_ilen y"
  unfolding var_ilen_def by (auto split: if_split)

lemma not_mono_byte: "(a :: byte) < b \<Longrightarrow> NOT b < NOT a"
  using uint_not [of a] uint_not [of b] by (simp add: word_less_def)

lemma lex_map_not:
  fixes a b :: bytes
  assumes "a < b" and "length a = length b"
  shows "map NOT b < map NOT a"
  using assms(2,1) by (induction a b rule: list_induct2) (auto simp: not_mono_byte)

lemma var_iform_enc_less:
  assumes "x < y" and "y < 2 ^ 63"
  shows "enc_less (var_iform (var_ilen x) x) (var_iform (var_ilen y) y)
    \<and> enc_less (map NOT (var_iform (var_ilen y) y)) (map NOT (var_iform (var_ilen x) x))"
proof (cases "var_ilen x = var_ilen y")
  case True
  note b = var_ilen_bounds [OF assms(2)]
  have "(16 + var_ilen y) * 8 * 256 ^ var_ilen y + y < ((16 + var_ilen y) * 8 + 8) * 256 ^ var_ilen y"
    using b(2) by (simp add: algebra_simps)
  also have "\<dots> \<le> 256 * 256 ^ var_ilen y" using b(1) by (intro mult_right_mono) simp_all
  finally have "var_iform (var_ilen x) x < var_iform (var_ilen y) y"
    unfolding var_iform_def True using assms(1) by (intro write_be_less) simp_all
  moreover have "length (var_iform (var_ilen x) x) = length (var_iform (var_ilen y) y)"
    by (simp add: var_iform_def True)
  ultimately show ?thesis by (simp add: enc_less_same_length lex_map_not)
next
  case False
  then have l: "var_ilen x < var_ilen y" using var_ilen_mono [of x y] assms(1) by simp
  have x: "x < 2 ^ 63" using assms by simp
  note bx = var_ilen_bounds [OF x] and b = var_ilen_bounds [OF assms(2)]
  have h: "x div 256 ^ var_ilen x < 8" "y div 256 ^ var_ilen y < 8"
    using div_less_of_mult [OF bx(2)] div_less_of_mult [OF b(2)] .
  have "(word_of_nat ((16 + var_ilen x) * 8 + x div 256 ^ var_ilen x) :: byte)
      < word_of_nat ((16 + var_ilen y) * 8 + y div 256 ^ var_ilen y)"
    using l h b(1) unfolding word_less_nat_alt unat_of_nat by simp
  then show ?thesis
    unfolding var_iform_head [OF bx(2,1)] var_iform_head [OF b(2,1)]
    by (simp add: enc_less_def not_mono_byte del: of_nat_add of_nat_mult)
qed

lemma var_i64_enc_less:
  assumes "sint v < sint w"
  shows "enc_less (serialize_var_i64 v) (serialize_var_i64 w)"
proof -
  consider "sint v < 0" "sint w < 0" | "sint v < 0" "0 \<le> sint w" | "0 \<le> sint v" "0 \<le> sint w"
    using assms by linarith
  then show ?thesis
  proof cases
    case 1
    then have "var_mag w < var_mag v" using assms by (simp add: var_mag_def)
    from var_iform_enc_less [OF this var_mag_less] show ?thesis
      using 1 by (simp add: serialize_var_i64_form)
  next
    case 2
    note bv = var_ilen_bounds [OF var_mag_less [of v]] and bw = var_ilen_bounds [OF var_mag_less [of w]]
    have h: "var_mag v div 256 ^ var_ilen (var_mag v) < 8" "var_mag w div 256 ^ var_ilen (var_mag w) < 8"
      using div_less_of_mult [OF bv(2)] div_less_of_mult [OF bw(2)] .
    let ?h = "\<lambda>x. (16 + var_ilen x) * 8 + x div 256 ^ var_ilen x"
    have "?h (var_mag v) < 256" using h bv by simp
    then have "NOT (word_of_nat (?h (var_mag v)) :: byte) = word_of_nat (255 - ?h (var_mag v))"
      by (rule not_byte)
    moreover have "(word_of_nat (255 - ?h (var_mag v)) :: byte) < word_of_nat (?h (var_mag w))"
      using h bv bw unfolding word_less_nat_alt unat_of_nat by simp
    ultimately show ?thesis
      using 2 by (simp add: serialize_var_i64_form var_iform_head [OF bv(2,1)] var_iform_head [OF bw(2,1)]
          enc_less_def del: of_nat_add of_nat_mult)
  next
    case 3
    then have "var_mag v < var_mag w" using assms by (simp add: var_mag_def)
    from var_iform_enc_less [OF this var_mag_less] show ?thesis
      using 3 by (simp add: serialize_var_i64_form)
  qed
qed

end
