(* ===== verification/Skey_Keys.thy ===== *)
theory Skey_Keys
  imports Skey_Varint
begin

text \<open>
  The \<open>StoreKey\<close> trait of \<open>swarm/skey/src/lib.rs\<close> (whole-key decoding, prefix ranges, literal
  matching) and the \<open>keys!\<close> macro of \<open>swarm/skey-macros/src/keys\<close>: the segments of a key
  declaration, alias resolution, and the code the macro generates, as the list of encode and
  decode steps it emits for each builder state together with what running them does.
\<close>

section \<open>The \<open>StoreKey\<close> trait\<close>

datatype key_error =
    Ke_Encode ser_error
  | Ke_Decode de_error
  | Ke_NoUpperBound
  | Ke_Trailing nat
  | Ke_LiteralMismatch

text \<open>\<open>prefix_to_range\<close>: the \<open>while\<close> loop works on the end of \<open>upper\<close>, here its reverse.\<close>

fun upper_loop :: "bytes \<Rightarrow> bytes option" where
  "upper_loop [] = None"
| "upper_loop (b # init) = (if b < 255 then Some (rev ((b + 1) # init)) else upper_loop init)"

definition prefix_to_range :: "bytes \<Rightarrow> bytes \<times> bytes option" where
  "prefix_to_range p = (p, upper_loop (rev p))"

definition key_range :: "ser_error + bytes \<Rightarrow> key_error + bytes \<times> bytes" where
  "key_range enc =
    (case enc of
       Inl e \<Rightarrow> Inl (Ke_Encode e)
     | Inr p \<Rightarrow> (case prefix_to_range p of
         (lower, None) \<Rightarrow> Inl Ke_NoUpperBound
       | (lower, Some upper) \<Rightarrow> Inr (lower, upper)))"

definition decode_from_bytes :: "'a reader \<Rightarrow> bytes \<Rightarrow> key_error + 'a" where
  "decode_from_bytes d bs = (case d bs of (Inl e, _) \<Rightarrow> Inl (Ke_Decode e) | (Inr v, _) \<Rightarrow> Inr v)"

definition decode_exact :: "'a reader \<Rightarrow> bytes \<Rightarrow> key_error + 'a" where
  "decode_exact d bs =
    (case d bs of
       (Inl e, _) \<Rightarrow> Inl (Ke_Decode e)
     | (Inr v, r) \<Rightarrow> if remaining r \<noteq> 0 then Inl (Ke_Trailing (remaining r)) else Inr v)"

text \<open>\<open>expect\<close>, at the type \<open>u8\<close> the generated code uses it with.\<close>

definition expect :: "byte \<Rightarrow> unit reader" where
  "expect expected = rbind deserialize_u8 (\<lambda>value.
     if value \<noteq> expected then rfail (De_Message ''literal segment mismatch while decoding key'') else rret ())"

section \<open>The \<open>keys!\<close> macro: its model\<close>

text \<open>\<open>SegmentKind\<close>, with the serde type a \<open>Type\<close> segment stands for.\<close>

datatype segment_kind = SK_Str | SK_Bytes | SK_Type sty string

fun kind_eq :: "segment_kind \<Rightarrow> segment_kind \<Rightarrow> bool" where
  "kind_eq SK_Str SK_Str = True"
| "kind_eq SK_Bytes SK_Bytes = True"
| "kind_eq (SK_Type _ a) (SK_Type _ b) = (a = b)"
| "kind_eq _ _ = False"

datatype segment_spec = Spec_Literal bytes | Spec_Field string segment_kind | Spec_Ref string

datatype segment = Seg_Literal bytes | Seg_Field string segment_kind

fun segment_eq :: "segment \<Rightarrow> segment \<Rightarrow> bool" where
  "segment_eq (Seg_Literal a) (Seg_Literal b) = (a = b)"
| "segment_eq (Seg_Field a k) (Seg_Field b l) = (a = b \<and> kind_eq k l)"
| "segment_eq _ _ = False"

datatype macro_error =
    Alias_Cycle string
  | Unknown_Alias string
  | Duplicate_Field string
  | Prefix_Mismatch
  | Invalid_Transition
  | Duplicate_Name string

record key_model =
  km_name :: string
  km_segments :: "segment list"
  km_fields :: "(string \<times> segment_kind) list"

text \<open>
  \<open>resolve_aliases\<close>: references are replaced by the alias's own segments; the stack of the
  aliases being expanded detects cycles.
\<close>

function resolve_aliases ::
  "(string \<times> segment_spec list) list \<Rightarrow> string list \<Rightarrow> segment_spec list \<Rightarrow> macro_error + segment list" where
  "resolve_aliases aliases stack [] = Inr []"
| "resolve_aliases aliases stack (Spec_Literal lit # rest) =
    and_then (resolve_aliases aliases stack rest) (\<lambda>out. Inr (Seg_Literal lit # out))"
| "resolve_aliases aliases stack (Spec_Field name kind # rest) =
    and_then (resolve_aliases aliases stack rest) (\<lambda>out. Inr (Seg_Field name kind # out))"
| "resolve_aliases aliases stack (Spec_Ref name # rest) =
    (if name \<in> set stack then Inl (Alias_Cycle name)
     else case map_of aliases name of
         None \<Rightarrow> Inl (Unknown_Alias name)
       | Some parts \<Rightarrow>
           and_then (resolve_aliases aliases (name # stack) parts) (\<lambda>segments.
             and_then (resolve_aliases aliases stack rest) (\<lambda>out. Inr (segments @ out))))"
  by pat_completeness auto

lemma alias_stack_decreases:
  assumes "name \<notin> set stack" and "map_of aliases name = Some parts"
  shows "card (fst ` set aliases - set (name # stack)) < card (fst ` set aliases - set stack)"
proof (rule psubset_card_mono)
  have "name \<in> fst ` set aliases" using assms(2) by (metis domI dom_map_of_conv_image_fst)
  then show "fst ` set aliases - set (name # stack) \<subset> fst ` set aliases - set stack"
    using assms(1) by auto
qed simp

termination resolve_aliases
  by (relation "measures [\<lambda>(aliases, stack, _). card (fst ` set aliases - set stack), \<lambda>(_, _, segs). length segs]")
    (auto dest: alias_stack_decreases)

fun collect_loop ::
  "string list \<Rightarrow> segment list \<Rightarrow> macro_error + (string \<times> segment_kind) list" where
  "collect_loop seen [] = Inr []"
| "collect_loop seen (Seg_Literal _ # flat) = collect_loop seen flat"
| "collect_loop seen (Seg_Field name kind # flat) =
    (if name \<in> set seen then Inl (Duplicate_Field name)
     else and_then (collect_loop (name # seen) flat) (\<lambda>fields. Inr ((name, kind) # fields)))"

definition collect_fields :: "segment list \<Rightarrow> macro_error + (string \<times> segment_kind) list" where
  "collect_fields flat = collect_loop [] flat"

definition fields_prefix :: "(string \<times> segment_kind) list \<Rightarrow> nat \<Rightarrow> (string \<times> segment_kind) list" where
  "fields_prefix fs count = take count fs"

definition field_slice_matches ::
  "(string \<times> segment_kind) list \<Rightarrow> nat \<Rightarrow> (string \<times> segment_kind) list \<Rightarrow> bool" where
  "field_slice_matches fs start expected =
    (if start + length expected > length fs then False
     else list_all (\<lambda>((left_name, left_kind), (right_name, right_kind)).
            left_name = right_name \<and> kind_eq left_kind right_kind)
          (zip (take (length expected) (drop start fs)) expected))"

fun starts_with :: "segment list \<Rightarrow> segment list \<Rightarrow> bool" where
  "starts_with full [] = True"
| "starts_with [] (p # ps) = False"
| "starts_with (f # fs) (p # ps) = (segment_eq f p \<and> starts_with fs ps)"

definition is_prefix :: "segment list \<Rightarrow> segment list \<Rightarrow> bool" where
  "is_prefix p full = (length p < length full \<and> starts_with full p)"

fun is_field :: "segment \<Rightarrow> bool" where
  "is_field (Seg_Field _ _) = True"
| "is_field (Seg_Literal _) = False"

definition count_fields_before :: "segment list \<Rightarrow> nat \<Rightarrow> nat" where
  "count_fields_before flat until = length (filter is_field (take until flat))"

fun count_shared_prefix_fields :: "segment list \<Rightarrow> segment list \<Rightarrow> nat" where
  "count_shared_prefix_fields (a # as) (b # bs) =
    (if \<not> segment_eq a b then 0
     else (if is_field a then 1 else 0) + count_shared_prefix_fields as bs)"
| "count_shared_prefix_fields _ _ = 0"

fun child_keys :: "key_model \<Rightarrow> key_model list \<Rightarrow> macro_error + key_model list" where
  "child_keys model [] = Inr []"
| "child_keys model (other # all) =
    (if km_name model = km_name other then child_keys model all
     else if is_prefix (km_segments model) (km_segments other) then
       (if count_shared_prefix_fields (km_segments model) (km_segments other) \<noteq> length (km_fields model)
        then Inl Prefix_Mismatch
        else and_then (child_keys model all) (\<lambda>children. Inr (other # children)))
     else child_keys model all)"

text \<open>The \<open>while\<close> loop of \<open>child_target_state_index\<close>: past the literals from \<open>pos\<close> on.\<close>

fun skip_literals :: "segment list \<Rightarrow> nat \<Rightarrow> nat" where
  "skip_literals [] pos = pos"
| "skip_literals (Seg_Literal _ # rest) pos = skip_literals rest (Suc pos)"
| "skip_literals (Seg_Field _ _ # rest) pos = pos"

definition child_target_state_index :: "key_model \<Rightarrow> key_model \<Rightarrow> macro_error + nat" where
  "child_target_state_index parent child =
    (let pos = skip_literals (drop (length (km_segments parent)) (km_segments child)) (length (km_segments parent));
         idx = count_fields_before (km_segments child) pos
     in if idx < length (km_fields parent) then Inl Invalid_Transition else Inr idx)"

definition key_model_of ::
  "(string \<times> segment_spec list) list \<Rightarrow> string \<Rightarrow> segment_spec list \<Rightarrow> macro_error + key_model" where
  "key_model_of aliases name segments =
    and_then (resolve_aliases aliases [] segments) (\<lambda>segments.
      and_then (collect_fields segments) (\<lambda>fs.
        Inr \<lparr>km_name = name, km_segments = segments, km_fields = fs\<rparr>))"

section \<open>The generated code\<close>

definition kind_to_storage_ty :: "segment_kind \<Rightarrow> sty" where
  "kind_to_storage_ty kind = (case kind of SK_Str \<Rightarrow> TStr | SK_Bytes \<Rightarrow> TBytes | SK_Type ty _ \<Rightarrow> ty)"

datatype enc_step = Enc_Byte byte | Enc_Self string
datatype dec_step = Dec_Expect byte | Dec_Field string sty

fun encode_loop :: "segment list \<Rightarrow> nat \<Rightarrow> nat \<Rightarrow> enc_step list" where
  "encode_loop [] fields_set seen = []"
| "encode_loop (Seg_Literal lit # flat) fields_set seen = map Enc_Byte lit @ encode_loop flat fields_set seen"
| "encode_loop (Seg_Field name kind # flat) fields_set seen =
    (if seen \<ge> fields_set then [] else Enc_Self name # encode_loop flat fields_set (Suc seen))"

definition encode_steps :: "segment list \<Rightarrow> nat \<Rightarrow> enc_step list" where
  "encode_steps flat fields_set = encode_loop flat fields_set 0"

fun decode_loop :: "segment list \<Rightarrow> nat \<Rightarrow> nat \<Rightarrow> dec_step list" where
  "decode_loop [] n_fields filled = []"
| "decode_loop (Seg_Literal lit # flat) n_fields filled =
    (if filled \<le> n_fields then map Dec_Expect lit else []) @ decode_loop flat n_fields filled"
| "decode_loop (Seg_Field name kind # flat) n_fields filled =
    (if filled < n_fields then Dec_Field name (kind_to_storage_ty kind) # decode_loop flat n_fields (Suc filled)
     else [])"

definition decode_steps :: "segment list \<Rightarrow> nat \<Rightarrow> dec_step list" where
  "decode_steps flat n_fields = decode_loop flat n_fields 0"

text \<open>Running the statements of the generated \<open>encode_into\<close> and \<open>decode_from\<close>.\<close>

fun run_enc_step :: "(string \<Rightarrow> sval) \<Rightarrow> enc_step \<Rightarrow> ser_error + bytes" where
  "run_enc_step self (Enc_Byte b) = Inr (serialize_u8 b)"
| "run_enc_step self (Enc_Self name) = serialize (self name)"

definition run_encode :: "(string \<Rightarrow> sval) \<Rightarrow> enc_step list \<Rightarrow> ser_error + bytes" where
  "run_encode self steps = ser_all (map (run_enc_step self) steps)"

fun run_decode :: "dec_step list \<Rightarrow> (string \<times> sval) list reader" where
  "run_decode [] = rret []"
| "run_decode (Dec_Expect b # steps) = rbind (expect b) (\<lambda>_. run_decode steps)"
| "run_decode (Dec_Field name ty # steps) =
    rbind (deserialize ty) (\<lambda>v. rbind (run_decode steps) (\<lambda>vs. rret ((name, v) # vs)))"

text \<open>The builder of state \<open>i\<close>: its \<open>encode\<close> and \<open>decode_from\<close>.\<close>

definition builder_encode :: "segment list \<Rightarrow> nat \<Rightarrow> (string \<Rightarrow> sval) \<Rightarrow> ser_error + bytes" where
  "builder_encode flat i self = run_encode self (encode_steps flat i)"

definition builder_decode :: "segment list \<Rightarrow> nat \<Rightarrow> (string \<times> sval) list reader" where
  "builder_decode flat i = run_decode (decode_steps flat i)"

section \<open>Prefix ranges\<close>

lemma byte_succ_le: "(b :: byte) < 255 \<Longrightarrow> c < b + 1 \<Longrightarrow> c \<le> b"
  by (simp add: word_less_nat_alt word_le_nat_alt unat_word_ariths)

lemma byte_less_succ: "(b :: byte) < 255 \<Longrightarrow> b < b + 1"
  by (simp add: word_less_nat_alt unat_word_ariths)

lemma prefix_between:
  fixes p :: bytes
  assumes "p \<le> k" and "k < p @ x" and "x \<noteq> []" shows "prefix p k"
  using assms
proof (induction p arbitrary: k)
  case (Cons a p)
  then show ?case by (cases k) auto
qed simp

lemma snoc_range_iff:
  fixes b :: byte
  assumes "b < 255"
  shows "init @ [b] \<le> k \<and> k < init @ [b + 1] \<longleftrightarrow> prefix (init @ [b]) k"
proof
  assume k: "init @ [b] \<le> k \<and> k < init @ [b + 1]"
  then have "init \<le> k" using lex_prefix_le [of init "init @ [b]"] by (simp add: order_trans)
  then have "prefix init k" using k by (auto intro: prefix_between)
  then obtain r where r: "k = init @ r" by (auto simp: prefix_def)
  with k have "[b] \<le> r" "r < [b + 1]" by (simp_all add: lex_append_same lex_append_same_le)
  then obtain c r' where "r = c # r'" "b \<le> c" "c < b + 1" by (cases r) (auto simp: order.strict_iff_order)
  with byte_succ_le [OF assms] r show "prefix (init @ [b]) k" by (auto dest: antisym)
next
  assume "prefix (init @ [b]) k"
  then obtain r where "k = init @ b # r" by (auto simp: prefix_def)
  then show "init @ [b] \<le> k \<and> k < init @ [b + 1]"
    using byte_less_succ [OF assms] by (auto simp: lex_append_same lex_append_same_le)
qed

lemma max_byte: "\<not> (b :: byte) < 255 \<Longrightarrow> b = 255"
  using unat_byte_bound [of b] by (simp add: word_less_nat_alt word_unat_eq_iff)

lemma max_byte_not_less: "\<not> (255 :: byte) < c"
  using max_byte by (metis less_asym' less_irrefl)

lemma upper_loop_range:
  "case upper_loop (rev p) of
     Some u \<Rightarrow> (\<forall>k. p \<le> k \<and> k < u \<longleftrightarrow> prefix p k)
   | None \<Rightarrow> (\<forall>k. p \<le> k \<longleftrightarrow> prefix p k)"
proof (induction p rule: rev_induct)
  case (snoc b init)
  show ?case
  proof (cases "b < 255")
    case True
    then show ?thesis by (simp add: snoc_range_iff)
  next
    case False
    then have b: "b = 255" by (rule max_byte)
    have le: "init \<le> init @ [b]" by (simp add: lex_prefix_le)
    have "[255] \<le> r \<longleftrightarrow> prefix [255] r" for r :: bytes
      by (cases r) (auto simp: max_byte_not_less)
    then have step: "init @ [b] \<le> k \<longleftrightarrow> prefix (init @ [b]) k" if "prefix init k" for k
      using that by (auto simp: prefix_def lex_append_same_le b)
    have up: "init @ [b] \<le> k \<Longrightarrow> init \<le> k" for k using le order_trans by blast
    show ?thesis
    proof (cases "upper_loop (rev init)")
      case None
      then show ?thesis using snoc.IH step up b by (auto dest: append_prefixD)
    next
      case (Some u)
      then show ?thesis using snoc.IH step up b by (auto dest: append_prefixD)
    qed
  qed
qed simp

lemma prefix_to_range_Some: "prefix_to_range p = (lo, Some up) \<Longrightarrow> lo \<le> k \<and> k < up \<longleftrightarrow> prefix p k"
  using upper_loop_range [of p] by (auto simp: prefix_to_range_def)

lemma prefix_to_range_None: "prefix_to_range p = (lo, None) \<Longrightarrow> lo \<le> k \<longleftrightarrow> prefix p k"
  using upper_loop_range [of p] by (auto simp: prefix_to_range_def)

lemma upper_loop_None_iff: "upper_loop (rev p) = None \<longleftrightarrow> set p \<subseteq> {255}"
  by (induction p rule: rev_induct) (auto dest: max_byte)

section \<open>Codecs\<close>

text \<open>
  What the users of a key type rely on: a reader that undoes the encoding, whatever follows it.
  An ordered codec also keeps the order of its values.
\<close>

locale codec =
  fixes enc :: "'v \<Rightarrow> ser_error + bytes" and dec :: "'v reader" and valid :: "'v \<Rightarrow> bool"
  assumes dec_enc: "valid v \<Longrightarrow> inverts dec (enc v) v"
begin

lemma decode_exact_enc: "valid v \<Longrightarrow> enc v = Inr a \<Longrightarrow> decode_exact dec a = Inr v"
  using dec_enc [of v] invertsD [of dec "enc v" v a "[]"] by (simp add: decode_exact_def remaining_def)

lemma decode_exact_trailing:
  "valid v \<Longrightarrow> enc v = Inr a \<Longrightarrow> r \<noteq> [] \<Longrightarrow> decode_exact dec (a @ r) = Inl (Ke_Trailing (length r))"
  using dec_enc [of v] invertsD [of dec "enc v" v a r] by (simp add: decode_exact_def remaining_def)

text \<open>No encoding continues another one: a key's bytes determine it.\<close>

lemma prefix_free:
  assumes "valid v" "valid w" "enc v = Inr a" "enc w = Inr b" "prefix a b"
  shows "v = w"
proof -
  from assms(5) obtain r where "b = a @ r" by (auto simp: prefix_def)
  then show ?thesis
    using invertsD [OF dec_enc [OF assms(1)] assms(3), of r] invertsD [OF dec_enc [OF assms(2)] assms(4), of "[]"]
    by simp
qed

lemma enc_inject: "valid v \<Longrightarrow> valid w \<Longrightarrow> enc v = Inr a \<Longrightarrow> enc w = Inr a \<Longrightarrow> v = w"
  by (rule prefix_free) auto

end

locale ordered_codec = codec enc dec valid
  for enc :: "'v \<Rightarrow> ser_error + bytes" and dec :: "'v reader" and valid :: "'v \<Rightarrow> bool" +
  fixes lt :: "'v \<Rightarrow> 'v \<Rightarrow> bool"
  assumes enc_lt: "lt v w \<Longrightarrow> valid v \<Longrightarrow> valid w \<Longrightarrow> enc v = Inr a \<Longrightarrow> enc w = Inr b \<Longrightarrow> enc_less a b"
    and lt_total: "valid v \<Longrightarrow> valid w \<Longrightarrow> v = w \<or> lt v w \<or> lt w v"
begin

lemma enc_less_iff:
  assumes "valid v" "valid w" "enc v = Inr a" "enc w = Inr b"
  shows "a < b \<longleftrightarrow> lt v w"
  using assms enc_lt [of v w a b] enc_lt [of w v b a] lt_total [of v w] enc_less_less
  by (metis less_asym' less_irrefl sum.inject(2))

end

interpretation var_u64: ordered_codec "\<lambda>v. Inr (serialize_var_u64 v)" deserialize_var_u64 "\<lambda>_. True" "(<)"
  by unfold_locales (auto simp: inverts_def var_u64_inverts var_u64_enc_less)

interpretation var_i64: ordered_codec "\<lambda>v. Inr (serialize_var_i64 v)" deserialize_var_i64 "\<lambda>_. True"
  "\<lambda>v w. sint v < sint w"
proof unfold_locales
  fix v w :: u64
  show "v = w \<or> sint v < sint w \<or> sint w < sint v" using sint_inject [of v w] by linarith
qed (auto simp: inverts_def var_i64_inverts var_i64_enc_less)

lemma elem_gt_ok: "elem_gt r \<Longrightarrow> elem_ok r"
  by (auto simp: elem_gt_def elem_ok_def split: sum.splits list.splits)

lemma seq_all_mono:
  assumes "\<And>r. p r \<Longrightarrow> q r" shows "seq_all p v \<Longrightarrow> seq_all q v"
proof (induction v)
  case (VMap kvs)
  show ?case unfolding seq_all.simps list_all_iff
  proof safe
    fix k v
    assume kv: "(k, v) \<in> set kvs"
    then show "q (serialize k)" using VMap.prems assms by (auto simp: list_all_iff)
  next
    fix a b
    assume "(a, b) \<in> set (map (map_prod (seq_all q) (seq_all q)) kvs)"
    then obtain k v where kv: "(k, v) \<in> set kvs" "a = seq_all q k" "b = seq_all q v" by auto
    moreover have "seq_all p k" "seq_all p v" using VMap.prems kv(1) by (force simp: list_all_iff)+
    ultimately show a b using VMap.IH [OF kv(1)] by (auto simp: fsts.simps snds.simps)
  qed
qed (use assms in \<open>auto simp: list_all_iff\<close>)

interpretation serde: ordered_codec serialize "deserialize t" "\<lambda>v. has_type t v \<and> seq_all elem_gt v" vless for t
proof unfold_locales
  fix v
  assume v: "has_type t v \<and> seq_all elem_gt v"
  then have "seq_ok v" unfolding seq_ok_def using seq_all_mono [of elem_gt elem_ok v] elem_gt_ok by blast
  with v show "inverts (deserialize t) (serialize v) v" by (intro deserialize_inverts) auto
qed (auto intro: vless_enc_less dest: vless_total)

section \<open>The generated builders\<close>

fun seg_fields :: "segment list \<Rightarrow> (string \<times> segment_kind) list" where
  "seg_fields [] = []"
| "seg_fields (Seg_Literal _ # flat) = seg_fields flat"
| "seg_fields (Seg_Field name kind # flat) = (name, kind) # seg_fields flat"

lemma collect_loop_fields:
  "collect_loop seen flat = Inr fs \<Longrightarrow> fs = seg_fields flat \<and> distinct (map fst fs) \<and> set seen \<inter> set (map fst fs) = {}"
proof (induction seen flat arbitrary: fs rule: collect_loop.induct)
  case (3 seen name kind flat)
  then obtain fs' where "name \<notin> set seen" "collect_loop (name # seen) flat = Inr fs'" "fs = (name, kind) # fs'"
    by (auto simp: and_then_Inr_iff split: if_splits)
  with "3.IH" [of fs'] show ?case by auto
qed auto

text \<open>The values a builder holds: one of the declared type for each of its fields.\<close>

definition fields_typed :: "(string \<times> segment_kind) list \<Rightarrow> (string \<Rightarrow> sval) \<Rightarrow> bool" where
  "fields_typed fs self \<longleftrightarrow>
    list_all (\<lambda>(name, kind). has_type (kind_to_storage_ty kind) (self name) \<and> seq_ok (self name)) fs"

definition field_values :: "(string \<times> segment_kind) list \<Rightarrow> (string \<Rightarrow> sval) \<Rightarrow> (string \<times> sval) list" where
  "field_values fs self = map (\<lambda>(name, _). (name, self name)) fs"

lemma run_encode_simps [simp]:
  "run_encode self [] = Inr []"
  "run_encode self (Enc_Byte b # steps) = ser_pre [b] (run_encode self steps)"
  "run_encode self (Enc_Self f # steps) = ser_all [serialize (self f), run_encode self steps]"
  by (auto simp: run_encode_def ser_pre_def serialize_u8_def and_then_simps and_then_assoc)

lemma run_encode_literal: "run_encode self (map Enc_Byte lit @ steps) = ser_pre lit (run_encode self steps)"
  by (induction lit; cases "run_encode self steps") (simp_all add: ser_pre_def)

lemma expect_simp [simp]: "expect b (b # r) = (Inr (), r)"
  by (simp add: expect_def deserialize_u8_def)

lemma run_decode_literal: "run_decode (map Dec_Expect lit @ steps) (lit @ r) = run_decode steps r"
  by (induction lit) auto

lemma builder_loop_inverts:
  assumes "filled \<le> n" and "fields_typed (take (n - filled) (seg_fields flat)) self"
  shows "inverts (run_decode (decode_loop flat n filled)) (run_encode self (encode_loop flat n filled))
    (field_values (take (n - filled) (seg_fields flat)) self)"
  using assms
proof (induction flat n filled rule: encode_loop.induct)
  case (1 n filled)
  then show ?case by (simp add: inverts_def field_values_def)
next
  case (2 lit flat n filled)
  then show ?case
    by (auto simp: inverts_def run_encode_literal ser_pre_Inr_iff run_decode_literal)
next
  case (3 name kind flat n filled)
  show ?case
  proof (cases "filled < n")
    case False
    then show ?thesis by (simp add: inverts_def field_values_def)
  next
    case True
    then have n: "n - filled = Suc (n - Suc filled)" by simp
    have h: "inverts (deserialize (kind_to_storage_ty kind)) (serialize (self name)) (self name)"
      using 3(3) by (intro deserialize_inverts) (simp_all add: n fields_typed_def)
    have t: "inverts (run_decode (decode_loop flat n (Suc filled))) (run_encode self (encode_loop flat n (Suc filled)))
        (field_values (take (n - Suc filled) (seg_fields flat)) self)"
      using 3 True by (intro "3.IH") (simp_all add: n fields_typed_def)
    show ?thesis
      using h t True by (auto simp: inverts_def ser_all_Cons_Inr_iff n field_values_def simp del: ser_all.simps(2))
  qed
qed

lemma builder_inverts:
  assumes "fields_typed (take i (seg_fields flat)) self"
  shows "inverts (builder_decode flat i) (builder_encode flat i self) (field_values (take i (seg_fields flat)) self)"
  using builder_loop_inverts [of 0 i flat self] assms
  by (simp add: builder_decode_def builder_encode_def decode_steps_def encode_steps_def)

lemma encode_loop_prefix: "i \<le> j \<Longrightarrow> prefix (encode_loop flat i seen) (encode_loop flat j seen)"
  by (induction flat i seen rule: encode_loop.induct) (auto simp: same_prefix_prefix)

lemma encode_loop_cong:
  "(\<And>f. f \<in> fst ` set (take (i - seen) (seg_fields flat)) \<Longrightarrow> self f = other f)
    \<Longrightarrow> run_encode self (encode_loop flat i seen) = run_encode other (encode_loop flat i seen)"
proof (induction flat i seen rule: encode_loop.induct)
  case (3 name kind flat i seen)
  then show ?case by (cases "seen < i") (auto simp: Suc_diff_Suc [symmetric])
qed (auto simp: run_encode_literal)

lemma run_encode_append_Inr_iff:
  "run_encode self (xs @ ys) = Inr c \<longleftrightarrow>
    (\<exists>a b. run_encode self xs = Inr a \<and> run_encode self ys = Inr b \<and> c = a @ b)"
  by (simp add: run_encode_def ser_all_append_Inr_iff)

text \<open>A state encodes to a prefix of every later state, and of no key with other values.\<close>

lemma builder_prefix_iff:
  assumes ij: "i \<le> j"
    and self: "fields_typed (take i (seg_fields flat)) self" "builder_encode flat i self = Inr p"
    and other: "fields_typed (take j (seg_fields flat)) other" "builder_encode flat j other = Inr k"
  shows "prefix p k \<longleftrightarrow> (\<forall>f\<in>fst ` set (take i (seg_fields flat)). self f = other f)"
proof
  obtain steps where steps: "encode_steps flat j = encode_steps flat i @ steps"
    using encode_loop_prefix [OF ij] by (auto simp: encode_steps_def prefix_def)
  from other(2) obtain q r where k: "builder_encode flat i other = Inr q" "k = q @ r"
    by (auto simp: builder_encode_def steps run_encode_append_Inr_iff)
  {
    assume "\<forall>f\<in>fst ` set (take i (seg_fields flat)). self f = other f"
    then have "builder_encode flat i self = builder_encode flat i other"
      unfolding builder_encode_def encode_steps_def by (intro encode_loop_cong) auto
    then show "prefix p k" using self(2) k by simp
  next
    assume "prefix p k"
    then obtain s where s: "k = p @ s" by (auto simp: prefix_def)
    have "fields_typed (take i (seg_fields flat)) other"
      using other(1) ij unfolding fields_typed_def list_all_iff by (meson set_take_subset_set_take subsetD)
    from invertsD [OF builder_inverts [OF this] k(1), of r] invertsD [OF builder_inverts [OF self(1)] self(2), of s]
    have "field_values (take i (seg_fields flat)) self = field_values (take i (seg_fields flat)) other"
      using k(2) s by simp
    then show "\<forall>f\<in>fst ` set (take i (seg_fields flat)). self f = other f"
      by (auto simp: field_values_def)
  }
qed

section \<open>Key transitions\<close>

lemma segment_eq_sym: "segment_eq a b \<Longrightarrow> segment_eq b a"
proof -
  have "kind_eq k l \<Longrightarrow> kind_eq l k" for k l by (cases k; cases l) auto
  then show "segment_eq a b \<Longrightarrow> segment_eq b a" by (cases a; cases b) auto
qed

lemma starts_with_shared:
  "starts_with full p \<Longrightarrow> count_shared_prefix_fields p full = length (filter is_field p)"
  by (induction full p rule: starts_with.induct) (auto dest: segment_eq_sym)

lemma length_seg_fields: "length (seg_fields flat) = length (filter is_field flat)"
  by (induction flat rule: seg_fields.induct) auto

lemma segment_eq_is_field: "segment_eq a b \<Longrightarrow> is_field a = is_field b"
  by (cases a; cases b) auto

lemma starts_with_fields_before:
  "starts_with full p \<Longrightarrow> length (filter is_field (take (length p) full)) = length (filter is_field p)"
  by (induction full p rule: starts_with.induct) (auto dest: segment_eq_is_field)

lemma skip_literals_ge: "pos \<le> skip_literals segs pos"
  by (induction segs pos rule: skip_literals.induct) auto

lemma count_fields_before_mono: "m \<le> n \<Longrightarrow> count_fields_before flat m \<le> count_fields_before flat n"
proof -
  assume "m \<le> n"
  then have "take n flat = take m flat @ take (n - m) (drop m flat)"
    by (metis le_add_diff_inverse take_add)
  then show ?thesis by (simp add: count_fields_before_def)
qed

text \<open>A well-formed model lists exactly the fields of its segments.\<close>

definition model_wf :: "key_model \<Rightarrow> bool" where
  "model_wf m \<longleftrightarrow> km_fields m = seg_fields (km_segments m)"

lemma key_model_of_wf: "key_model_of aliases name segs = Inr m \<Longrightarrow> model_wf m"
  by (auto simp: key_model_of_def and_then_Inr_iff collect_fields_def model_wf_def dest: collect_loop_fields)

lemma child_keys_ok:
  assumes "model_wf m"
  shows "child_keys m all =
    Inr (filter (\<lambda>c. km_name m \<noteq> km_name c \<and> is_prefix (km_segments m) (km_segments c)) all)"
  using assms
  by (induction all) (auto simp: is_prefix_def starts_with_shared model_wf_def length_seg_fields)

lemma child_target_ok:
  assumes "model_wf m" and "is_prefix (km_segments m) (km_segments child)"
  shows "\<exists>idx. child_target_state_index m child = Inr idx \<and> length (km_fields m) \<le> idx"
proof -
  have "length (km_fields m) = count_fields_before (km_segments child) (length (km_segments m))"
    using assms starts_with_fields_before
    by (simp add: model_wf_def length_seg_fields is_prefix_def count_fields_before_def)
  also have "\<dots> \<le> count_fields_before (km_segments child)
      (skip_literals (drop (length (km_segments m)) (km_segments child)) (length (km_segments m)))"
    by (intro count_fields_before_mono skip_literals_ge)
  finally show ?thesis by (simp add: child_target_state_index_def Let_def)
qed

end
