(* ===== verification/Domain_Keys.thy ===== *)
theory Domain_Keys
  imports Skey_Keys
begin

text \<open>
  The keys of the database: the \<open>keys!\<close> declaration of \<open>swarm/db/src/domain.rs\<close>, scopes and
  subjects of \<open>swarm/db-commons/src/models.rs\<close>. Keys are built by the generated builders of
  \<open>Skey_Keys\<close>; the closed forms of their encodings are derived from the declaration.
\<close>

unbundle bit_operations_syntax

section \<open>Scopes and subjects\<close>

record scope =
  namespace :: bytes
  database :: bytes
  schema :: bytes

datatype subject = Subject_Namespace bytes | Subject_Database bytes bytes | Subject_Scope scope

definition subject_contains :: "subject \<Rightarrow> scope \<Rightarrow> bool" where
  "subject_contains subj sc =
    (case subj of
       Subject_Namespace ns \<Rightarrow> namespace sc = ns
     | Subject_Database ns db \<Rightarrow> namespace sc = ns \<and> database sc = db
     | Subject_Scope target \<Rightarrow> sc = target)"

definition lit :: "string \<Rightarrow> bytes" where
  "lit s = map of_char s"

definition as_keyexprs :: "subject \<Rightarrow> bytes \<times> bytes \<times> bytes" where
  "as_keyexprs subj =
    (case subj of
       Subject_Namespace ns \<Rightarrow> (ns, lit ''*'', lit ''*'')
     | Subject_Database ns db \<Rightarrow> (ns, db, lit ''*'')
     | Subject_Scope sc \<Rightarrow> (namespace sc, database sc, schema sc))"

text \<open>\<open>str::split_once\<close>.\<close>

definition split_once :: "byte \<Rightarrow> bytes \<Rightarrow> (bytes \<times> bytes) option" where
  "split_once d value = memchr_split d value"

definition scope_parse :: "bytes \<Rightarrow> scope" where
  "scope_parse value =
    (let (ns, rest) = (case split_once (of_char CHR ''/'') value of Some p \<Rightarrow> p | None \<Rightarrow> (value, lit ''p/d''));
         (db, sch) = (case split_once (of_char CHR ''/'') rest of Some p \<Rightarrow> p | None \<Rightarrow> (value, lit ''d''))
     in \<lparr>namespace = ns, database = db, schema = sch\<rparr>)"

definition scope_display :: "scope \<Rightarrow> bytes" where
  "scope_display sc = namespace sc @ lit ''/'' @ database sc @ lit ''/'' @ schema sc"

text \<open>FNV-1a over the scope and a node id, the draw of custody collapse.\<close>

definition fnv_eat :: "u64 \<Rightarrow> bytes \<Rightarrow> u64" where
  "fnv_eat hash bs = foldl (\<lambda>hash byte. (hash XOR ucast byte) * 0x100000001b3) hash bs"

definition rendezvous_hash :: "scope \<Rightarrow> bytes \<Rightarrow> u64" where
  "rendezvous_hash sc node =
    fnv_eat (fnv_eat (fnv_eat (fnv_eat (fnv_eat (fnv_eat (fnv_eat 0xcbf29ce484222325
      (namespace sc)) [0]) (database sc)) [0]) (schema sc)) [0]) node"

section \<open>The declaration\<close>

definition scope_alias :: "segment_spec list" where
  "scope_alias =
    [Spec_Literal (lit ''@''), Spec_Field ''namespace'' SK_Str, Spec_Literal (lit ''*''),
     Spec_Field ''database'' SK_Str, Spec_Literal (lit ''*''), Spec_Field ''schema'' SK_Str,
     Spec_Literal (lit '':'')]"

definition domain_aliases :: "(string \<times> segment_spec list) list" where
  "domain_aliases = [(''scope'', scope_alias)]"

text \<open>\<open>Hash\<close> is an enum with one variant, \<open>Sha2([u8; 32])\<close>; \<open>NodeId\<close> is \<open>[u8; 16]\<close>.\<close>

definition hash_ty :: sty where
  "hash_ty = TEnum [(KNewtype, [TTuple (replicate 32 TU8)])]"

definition node_id_ty :: sty where
  "node_id_ty = TTuple (replicate 16 TU8)"

definition scope_spec :: "segment_spec list" where
  "scope_spec = [Spec_Ref ''scope'']"

definition table_spec :: "segment_spec list" where
  "table_spec = [Spec_Ref ''scope'', Spec_Literal (lit ''tb''), Spec_Field ''name'' SK_Str, Spec_Field ''id'' SK_Bytes]"

definition kv_spec :: "segment_spec list" where
  "kv_spec = [Spec_Ref ''scope'', Spec_Literal (lit ''kv''), Spec_Field ''key'' SK_Str]"

definition measurement_spec :: "segment_spec list" where
  "measurement_spec = [Spec_Ref ''scope'', Spec_Literal (lit ''ts''), Spec_Field ''measurement'' SK_Str,
     Spec_Literal (lit ''/''), Spec_Field ''timestamp'' (SK_Type TU64 ''Timestamp'')]"

definition blob_id_spec :: "segment_spec list" where
  "blob_id_spec = [Spec_Ref ''scope'', Spec_Literal (lit ''fs''), Spec_Field ''hash'' (SK_Type hash_ty ''Hash'')]"

definition blob_meta_spec :: "segment_spec list" where
  "blob_meta_spec = [Spec_Ref ''scope'', Spec_Literal (lit ''fs''), Spec_Field ''hash'' (SK_Type hash_ty ''Hash''),
     Spec_Literal (lit ''$''), Spec_Field ''path'' SK_Str]"

definition path_spec :: "segment_spec list" where
  "path_spec = [Spec_Ref ''scope'', Spec_Literal (lit ''fn''), Spec_Field ''path'' SK_Str]"

definition sync_point_spec :: "segment_spec list" where
  "sync_point_spec = [Spec_Literal (lit ''#''), Spec_Ref ''scope'', Spec_Literal (lit ''sp''),
     Spec_Field ''ts'' (SK_Type TU64 ''Version''), Spec_Field ''epoch'' (SK_Type TU64 ''u64''),
     Spec_Field ''id'' (SK_Type node_id_ty ''NodeId'')]"

text \<open>The flattened segments of a declared key.\<close>

definition key_segments :: "segment_spec list \<Rightarrow> segment list" where
  "key_segments spec = (case resolve_aliases domain_aliases [] spec of Inr segs \<Rightarrow> segs | Inl _ \<Rightarrow> [])"

section \<open>Keys\<close>

text \<open>The fields of a builder, by name.\<close>

definition scope_fields :: "scope \<Rightarrow> (string \<times> sval) list" where
  "scope_fields sc = [(''namespace'', VStr (namespace sc)), (''database'', VStr (database sc)), (''schema'', VStr (schema sc))]"

definition self_of :: "(string \<times> sval) list \<Rightarrow> string \<Rightarrow> sval" where
  "self_of fs name = (case map_of fs name of Some v \<Rightarrow> v | None \<Rightarrow> VUnit)"

definition node_id_val :: "bytes \<Rightarrow> sval" where
  "node_id_val node = VTuple (map VU8 node)"

definition hash_val :: "bytes \<Rightarrow> sval" where
  "hash_val h = VNewtypeVariant 0 (VTuple (map VU8 h))"

definition scope_key :: "scope \<Rightarrow> ser_error + bytes" where
  "scope_key sc = builder_encode (key_segments scope_spec) 3 (self_of (scope_fields sc))"

definition table_prefix :: "scope \<Rightarrow> bytes \<Rightarrow> ser_error + bytes" where
  "table_prefix sc name = builder_encode (key_segments table_spec) 4 (self_of (scope_fields sc @ [(''name'', VStr name)]))"

definition entity_key :: "scope \<Rightarrow> bytes \<Rightarrow> bytes \<Rightarrow> ser_error + bytes" where
  "entity_key sc name ident = builder_encode (key_segments table_spec) 5
     (self_of (scope_fields sc @ [(''name'', VStr name), (''id'', VBytes ident)]))"

definition kv_key :: "scope \<Rightarrow> bytes \<Rightarrow> ser_error + bytes" where
  "kv_key sc key = builder_encode (key_segments kv_spec) 4 (self_of (scope_fields sc @ [(''key'', VStr key)]))"

definition measurement_key :: "scope \<Rightarrow> bytes \<Rightarrow> u64 \<Rightarrow> ser_error + bytes" where
  "measurement_key sc m ts = builder_encode (key_segments measurement_spec) 5
     (self_of (scope_fields sc @ [(''measurement'', VStr m), (''timestamp'', VU64 ts)]))"

definition blob_id_key :: "scope \<Rightarrow> bytes \<Rightarrow> ser_error + bytes" where
  "blob_id_key sc h = builder_encode (key_segments blob_id_spec) 4 (self_of (scope_fields sc @ [(''hash'', hash_val h)]))"

definition blob_meta_key :: "scope \<Rightarrow> bytes \<Rightarrow> bytes \<Rightarrow> ser_error + bytes" where
  "blob_meta_key sc h p = builder_encode (key_segments blob_meta_spec) 5
     (self_of (scope_fields sc @ [(''hash'', hash_val h), (''path'', VStr p)]))"

definition path_key :: "scope \<Rightarrow> bytes \<Rightarrow> ser_error + bytes" where
  "path_key sc p = builder_encode (key_segments path_spec) 4 (self_of (scope_fields sc @ [(''path'', VStr p)]))"

text \<open>A sync point: its scope, and its id \<open>(epoch, version, node)\<close>.\<close>

record sync_point =
  sp_scope :: scope
  sp_ts :: u64
  sp_epoch :: u64
  sp_node :: bytes

type_synonym sync_point_id = "u64 \<times> u64 \<times> bytes"

definition sync_point_self :: "sync_point \<Rightarrow> string \<Rightarrow> sval" where
  "sync_point_self sp = self_of (scope_fields (sp_scope sp)
     @ [(''ts'', VU64 (sp_ts sp)), (''epoch'', VU64 (sp_epoch sp)), (''id'', node_id_val (sp_node sp))])"

definition sync_point_key :: "sync_point \<Rightarrow> ser_error + bytes" where
  "sync_point_key sp = builder_encode (key_segments sync_point_spec) 6 (sync_point_self sp)"

definition with_sp_id :: "scope \<Rightarrow> sync_point_id \<Rightarrow> sync_point" where
  "with_sp_id sc ident = (case ident of (epoch, ts, node) \<Rightarrow>
     \<lparr>sp_scope = sc, sp_ts = ts, sp_epoch = epoch, sp_node = node\<rparr>)"

definition as_id :: "sync_point \<Rightarrow> sync_point_id" where
  "as_id sp = (sp_epoch sp, sp_ts sp, sp_node sp)"

text \<open>Decoding a sync point key, as \<open>SyncPoint::decode_exact\<close> and \<open>decode_from_bytes\<close> do.\<close>

definition sync_point_of_fields :: "(string \<times> sval) list \<Rightarrow> sync_point option" where
  "sync_point_of_fields fs =
    (case map snd fs of
       [VStr ns, VStr db, VStr sch, VU64 ts, VU64 epoch, VTuple node] \<Rightarrow>
         Some \<lparr>sp_scope = \<lparr>namespace = ns, database = db, schema = sch\<rparr>, sp_ts = ts, sp_epoch = epoch,
               sp_node = map (\<lambda>v. case v of VU8 b \<Rightarrow> b | _ \<Rightarrow> 0) node\<rparr>
     | _ \<Rightarrow> None)"

definition sync_point_decode :: "bytes \<Rightarrow> sync_point option" where
  "sync_point_decode bs =
    (case decode_from_bytes (builder_decode (key_segments sync_point_spec) 6) bs of
       Inl _ \<Rightarrow> None | Inr fs \<Rightarrow> sync_point_of_fields fs)"

definition range_from_subject :: "subject \<Rightarrow> key_error + bytes \<times> bytes" where
  "range_from_subject subj =
    (case subj of
       Subject_Namespace ns \<Rightarrow>
         key_range (builder_encode (key_segments sync_point_spec) 1 (self_of [(''namespace'', VStr ns)]))
     | Subject_Database ns db \<Rightarrow>
         key_range (builder_encode (key_segments sync_point_spec) 2
           (self_of [(''namespace'', VStr ns), (''database'', VStr db)]))
     | Subject_Scope sc \<Rightarrow>
         key_range (builder_encode (key_segments sync_point_spec) 3 (self_of (scope_fields sc))))"

section \<open>Closed forms\<close>

lemma lit_simps [simp]: "lit [] = []" "lit (c # s) = of_char c # lit s"
  by (simp_all add: lit_def)

abbreviation scope_segs :: "segment list" where
  "scope_segs \<equiv>
    [Seg_Literal (lit ''@''), Seg_Field ''namespace'' SK_Str, Seg_Literal (lit ''*''),
     Seg_Field ''database'' SK_Str, Seg_Literal (lit ''*''), Seg_Field ''schema'' SK_Str,
     Seg_Literal (lit '':'')]"

lemma key_segments_eqs:
  "key_segments scope_spec = scope_segs"
  "key_segments table_spec = scope_segs @ [Seg_Literal (lit ''tb''), Seg_Field ''name'' SK_Str, Seg_Field ''id'' SK_Bytes]"
  "key_segments kv_spec = scope_segs @ [Seg_Literal (lit ''kv''), Seg_Field ''key'' SK_Str]"
  "key_segments measurement_spec = scope_segs @ [Seg_Literal (lit ''ts''), Seg_Field ''measurement'' SK_Str,
     Seg_Literal (lit ''/''), Seg_Field ''timestamp'' (SK_Type TU64 ''Timestamp'')]"
  "key_segments blob_id_spec = scope_segs @ [Seg_Literal (lit ''fs''), Seg_Field ''hash'' (SK_Type hash_ty ''Hash'')]"
  "key_segments blob_meta_spec = scope_segs @ [Seg_Literal (lit ''fs''), Seg_Field ''hash'' (SK_Type hash_ty ''Hash''),
     Seg_Literal (lit ''$''), Seg_Field ''path'' SK_Str]"
  "key_segments path_spec = scope_segs @ [Seg_Literal (lit ''fn''), Seg_Field ''path'' SK_Str]"
  "key_segments sync_point_spec = Seg_Literal (lit ''#'') # scope_segs @ [Seg_Literal (lit ''sp''),
     Seg_Field ''ts'' (SK_Type TU64 ''Version''), Seg_Field ''epoch'' (SK_Type TU64 ''u64''),
     Seg_Field ''id'' (SK_Type node_id_ty ''NodeId'')]"
  by (simp_all add: key_segments_def domain_aliases_def scope_alias_def scope_spec_def table_spec_def kv_spec_def
      measurement_spec_def blob_id_spec_def blob_meta_spec_def path_spec_def sync_point_spec_def)

text \<open>A scope the store accepts: valid strings without NUL.\<close>

definition name_ok :: "bytes \<Rightarrow> bool" where
  "name_ok s \<longleftrightarrow> utf8_valid s \<and> 0 \<notin> set s"

definition scope_ok :: "scope \<Rightarrow> bool" where
  "scope_ok sc \<longleftrightarrow> name_ok (namespace sc) \<and> name_ok (database sc) \<and> name_ok (schema sc)"

definition scope_bytes :: "scope \<Rightarrow> bytes" where
  "scope_bytes sc = lit ''@'' @ namespace sc @ [0] @ lit ''*'' @ database sc @ [0] @ lit ''*'' @ schema sc @ [0] @ lit '':''"

definition sync_point_bytes :: "sync_point \<Rightarrow> bytes" where
  "sync_point_bytes sp = lit ''#'' @ scope_bytes (sp_scope sp) @ lit ''sp''
     @ write_word (sp_ts sp) @ write_word (sp_epoch sp) @ sp_node sp"

lemma self_of_simps [simp]:
  "self_of ((n, v) # fs) f = (if f = n then v else self_of fs f)"
  by (simp add: self_of_def)

lemma serialize_node_id: "serialize (node_id_val node) = Inr node"
  unfolding node_id_val_def by (induction node) (simp_all add: serialize_u8_def)

lemma serialize_str_ok: "0 \<notin> set s \<Longrightarrow> serialize (VStr s) = Inr (s @ [0])"
  by (simp add: serialize_str_def)

lemma scope_ok_nul: "scope_ok sc \<Longrightarrow> 0 \<notin> set (namespace sc) \<and> 0 \<notin> set (database sc) \<and> 0 \<notin> set (schema sc)"
  by (simp add: scope_ok_def name_ok_def)

lemmas key_form_simps = key_segments_eqs builder_encode_def encode_steps_def scope_fields_def ser_pre_def
  scope_bytes_def serialize_str_def serialize_u64_def scope_ok_nul numeral_eq_Suc

lemma scope_key_form: "scope_ok sc \<Longrightarrow> scope_key sc = Inr (scope_bytes sc)"
  by (simp add: scope_key_def key_form_simps)

lemma sync_point_key_form: "scope_ok (sp_scope sp) \<Longrightarrow> sync_point_key sp = Inr (sync_point_bytes sp)"
  by (simp add: sync_point_key_def sync_point_self_def sync_point_bytes_def key_form_simps serialize_node_id)

lemma entity_key_form:
  "scope_ok sc \<Longrightarrow> 0 \<notin> set name \<Longrightarrow>
    entity_key sc name ident = Inr (scope_bytes sc @ lit ''tb'' @ name @ [0] @ serialize_bytes ident)"
  by (simp add: entity_key_def key_form_simps)

lemma table_prefix_form:
  "scope_ok sc \<Longrightarrow> 0 \<notin> set name \<Longrightarrow> table_prefix sc name = Inr (scope_bytes sc @ lit ''tb'' @ name @ [0])"
  by (simp add: table_prefix_def key_form_simps)

lemma kv_key_form:
  "scope_ok sc \<Longrightarrow> 0 \<notin> set key \<Longrightarrow> kv_key sc key = Inr (scope_bytes sc @ lit ''kv'' @ key @ [0])"
  by (simp add: kv_key_def key_form_simps)

lemma measurement_key_form:
  "scope_ok sc \<Longrightarrow> 0 \<notin> set m \<Longrightarrow>
    measurement_key sc m ts = Inr (scope_bytes sc @ lit ''ts'' @ m @ [0] @ lit ''/'' @ write_word ts)"
  by (simp add: measurement_key_def key_form_simps)

section \<open>Reading keys back\<close>

definition sync_point_ok :: "sync_point \<Rightarrow> bool" where
  "sync_point_ok sp \<longleftrightarrow> scope_ok (sp_scope sp) \<and> length (sp_node sp) = 16"

lemma fields_ok_replicate: "fields_ok (replicate n (has_type TU8)) (map VU8 bs) \<longleftrightarrow> length bs = n"
proof (induction n arbitrary: bs)
  case 0
  then show ?case by (cases bs) auto
next
  case (Suc n)
  then show ?case by (cases bs) auto
qed

lemma node_id_typed: "length node = 16 \<Longrightarrow> has_type node_id_ty (node_id_val node) \<and> seq_ok (node_id_val node)"
  by (auto simp: node_id_ty_def node_id_val_def fields_ok_replicate seq_ok_def)

lemma seq_ok_prims [simp]: "seq_ok (VStr x)" "seq_ok (VU64 y)" "seq_ok (VBytes x)"
  by (simp_all add: seq_ok_def)

abbreviation sync_point_segs :: "segment list" where
  "sync_point_segs \<equiv> key_segments sync_point_spec"

lemma sync_point_seg_fields:
  "seg_fields sync_point_segs = [(''namespace'', SK_Str), (''database'', SK_Str), (''schema'', SK_Str),
     (''ts'', SK_Type TU64 ''Version''), (''epoch'', SK_Type TU64 ''u64''), (''id'', SK_Type node_id_ty ''NodeId'')]"
  by (simp add: key_segments_eqs)

lemma sync_point_typed:
  assumes "sync_point_ok sp"
  shows "fields_typed (seg_fields sync_point_segs) (sync_point_self sp)"
  using assms node_id_typed [of "sp_node sp"]
  by (simp add: sync_point_seg_fields fields_typed_def sync_point_self_def scope_fields_def kind_to_storage_ty_def
      sync_point_ok_def scope_ok_def name_ok_def)

lemma sync_point_decode_bytes:
  assumes "sync_point_ok sp"
  shows "sync_point_decode (sync_point_bytes sp @ r) = Some sp"
proof -
  have "take 6 (seg_fields sync_point_segs) = seg_fields sync_point_segs"
    by (simp add: sync_point_seg_fields)
  then have "builder_decode sync_point_segs 6 (sync_point_bytes sp @ r)
      = (Inr (field_values (seg_fields sync_point_segs) (sync_point_self sp)), r)"
    using invertsD [OF builder_inverts [of 6 sync_point_segs "sync_point_self sp"], of "sync_point_bytes sp" r]
      sync_point_typed [OF assms] sync_point_key_form [of sp] assms
    by (simp add: sync_point_key_def sync_point_ok_def)
  moreover have "sync_point_of_fields (field_values (seg_fields sync_point_segs) (sync_point_self sp)) = Some sp"
    by (simp add: sync_point_of_fields_def field_values_def sync_point_seg_fields sync_point_self_def
        scope_fields_def node_id_val_def comp_def)
  ultimately show ?thesis by (simp add: sync_point_decode_def decode_from_bytes_def)
qed

lemma sync_point_bytes_inject:
  assumes "sync_point_ok sp" "sync_point_ok sq" "prefix (sync_point_bytes sp) (sync_point_bytes sq)"
  shows "sp = sq"
proof -
  from assms(3) obtain r where "sync_point_bytes sq = sync_point_bytes sp @ r" by (auto simp: prefix_def)
  then show ?thesis
    using sync_point_decode_bytes [OF assms(1), of r] sync_point_decode_bytes [OF assms(2), of "[]"] by simp
qed

text \<open>The scope prefix of a key identifies the scope.\<close>

lemma scope_bytes_prefix:
  assumes "scope_ok a" "scope_ok b" "prefix (scope_bytes a) (scope_bytes b @ r)"
  shows "a = b"
proof -
  let ?segs = "key_segments scope_spec"
  have f: "take 3 (seg_fields ?segs) = seg_fields ?segs" "seg_fields ?segs
      = [(''namespace'', SK_Str), (''database'', SK_Str), (''schema'', SK_Str)]"
    by (simp_all add: key_segments_eqs)
  have inv: "builder_decode ?segs 3 (scope_bytes sc @ x)
      = (Inr (field_values (seg_fields ?segs) (self_of (scope_fields sc))), x)" if "scope_ok sc" for sc x
    using invertsD [OF builder_inverts [of 3 ?segs "self_of (scope_fields sc)"], of "scope_bytes sc" x]
      scope_key_form [OF that] that f
    by (simp add: scope_key_def fields_typed_def scope_fields_def kind_to_storage_ty_def scope_ok_def name_ok_def)
  from assms(3) obtain s where "scope_bytes b @ r = scope_bytes a @ s" by (auto simp: prefix_def)
  with inv [OF assms(1), of s] inv [OF assms(2), of r]
  have "field_values (seg_fields ?segs) (self_of (scope_fields a))
      = field_values (seg_fields ?segs) (self_of (scope_fields b))" by simp
  then show ?thesis by (simp add: f(2) field_values_def scope_fields_def)
qed

section \<open>Order and ranges\<close>

lemma sync_point_order:
  assumes "sp_scope sp = sp_scope sq" and "length (sp_node sp) = 16" "length (sp_node sq) = 16"
  shows "sync_point_bytes sp < sync_point_bytes sq \<longleftrightarrow>
    (sp_ts sp, sp_epoch sp, sp_node sp) < (sp_ts sq, sp_epoch sq, sp_node sq)"
proof -
  let ?t = "\<lambda>sp. write_word (sp_ts sp) @ write_word (sp_epoch sp) @ sp_node sp"
  have "sync_point_bytes sp < sync_point_bytes sq \<longleftrightarrow> ?t sp < ?t sq"
    using assms(1) by (simp add: sync_point_bytes_def lex_append_same)
  also have "\<dots> \<longleftrightarrow> (sp_ts sp, sp_epoch sp, sp_node sp) < (sp_ts sq, sp_epoch sq, sp_node sq)"
    by (simp add: lex_append_iff write_word_less_iff less_prod_simp) auto
  finally show ?thesis .
qed

lemma key_range_iff:
  assumes "key_range enc = Inr (lo, up)" and "enc = Inr p"
  shows "lo \<le> k \<and> k < up \<longleftrightarrow> prefix p k"
proof -
  have "prefix_to_range p = (lo, Some up)"
    using assms by (auto simp: key_range_def split: prod.splits option.splits)
  then show ?thesis by (rule prefix_to_range_Some)
qed

lemma range_from_subject_iff:
  assumes sp: "sync_point_ok sp" and subj: "case subj of Subject_Namespace ns \<Rightarrow> name_ok ns
      | Subject_Database ns db \<Rightarrow> name_ok ns \<and> name_ok db | Subject_Scope sc \<Rightarrow> scope_ok sc"
    and range: "range_from_subject subj = Inr (lo, up)"
  shows "lo \<le> sync_point_bytes sp \<and> sync_point_bytes sp < up \<longleftrightarrow> subject_contains subj (sp_scope sp)"
proof -
  have enc: "builder_encode sync_point_segs 6 (sync_point_self sp) = Inr (sync_point_bytes sp)"
    using sp sync_point_key_form [of sp] by (simp add: sync_point_key_def sync_point_ok_def)
  have ty: "fields_typed (take 6 (seg_fields sync_point_segs)) (sync_point_self sp)"
    using sync_point_typed [OF sp] by (simp add: sync_point_seg_fields)
  have main: "lo \<le> sync_point_bytes sp \<and> sync_point_bytes sp < up \<longleftrightarrow>
      (\<forall>f\<in>fst ` set (take i (seg_fields sync_point_segs)). self f = sync_point_self sp f)"
    if r: "key_range (builder_encode sync_point_segs i self) = Inr (lo, up)" and "i \<le> 6"
      "fields_typed (take i (seg_fields sync_point_segs)) self" for i self
  proof -
    obtain p where p: "builder_encode sync_point_segs i self = Inr p"
      using r by (cases "builder_encode sync_point_segs i self") (simp_all add: key_range_def)
    show ?thesis
      using key_range_iff [OF that(1) p] builder_prefix_iff [OF that(2,3) p ty enc] by simp
  qed
  show ?thesis
  proof (cases subj)
    case (Subject_Namespace ns)
    then show ?thesis using subj range main [of 1 "self_of [(''namespace'', VStr ns)]"]
      by (auto simp: range_from_subject_def sync_point_seg_fields fields_typed_def kind_to_storage_ty_def name_ok_def
          subject_contains_def sync_point_self_def scope_fields_def)
  next
    case (Subject_Database ns db)
    then show ?thesis using subj range main [of 2 "self_of [(''namespace'', VStr ns), (''database'', VStr db)]"]
      by (auto simp: range_from_subject_def sync_point_seg_fields fields_typed_def kind_to_storage_ty_def name_ok_def
          subject_contains_def sync_point_self_def scope_fields_def numeral_eq_Suc)
  next
    case (Subject_Scope sc)
    then show ?thesis using subj range main [of 3 "self_of (scope_fields sc)"]
      by (auto simp: range_from_subject_def sync_point_seg_fields fields_typed_def kind_to_storage_ty_def name_ok_def
          scope_ok_def subject_contains_def sync_point_self_def scope_fields_def numeral_eq_Suc)
  qed
qed

lemma range_from_subject_ok:
  assumes "case subj of Subject_Namespace ns \<Rightarrow> name_ok ns
      | Subject_Database ns db \<Rightarrow> name_ok ns \<and> name_ok db | Subject_Scope sc \<Rightarrow> scope_ok sc"
  shows "\<exists>lo up. range_from_subject subj = Inr (lo, up)"
proof -
  have r: "\<exists>lo up. key_range enc = Inr (lo, up)" if "\<exists>p. enc = Inr (35 # p)" for enc
    using that upper_loop_None_iff [of "35 # p" for p]
    by (auto simp: key_range_def prefix_to_range_def split: option.splits)
  have e: "name_ok ns \<Longrightarrow> \<exists>p. builder_encode sync_point_segs 1 (self_of [(''namespace'', VStr ns)]) = Inr (35 # p)"
    "name_ok ns \<Longrightarrow> name_ok db \<Longrightarrow> \<exists>p. builder_encode sync_point_segs 2
      (self_of [(''namespace'', VStr ns), (''database'', VStr db)]) = Inr (35 # p)"
    "scope_ok sc \<Longrightarrow> \<exists>p. builder_encode sync_point_segs 3 (self_of (scope_fields sc)) = Inr (35 # p)" for ns db sc
    by (simp_all add: key_form_simps name_ok_def)
  show ?thesis
    unfolding range_from_subject_def using assms
    by (cases subj) (simp_all only: subject.case, (intro r e; blast)+)
qed

section \<open>Parsing scopes\<close>

lemma split_once_append: "d \<notin> set a \<Longrightarrow> split_once d (a @ d # r) = Some (a, r)"
  by (simp add: split_once_def memchr_split_append)

lemma split_once_None: "d \<notin> set a \<Longrightarrow> split_once d a = None"
  by (induction a) (auto simp: split_once_def)

lemma scope_parse_display:
  assumes "47 \<notin> set (namespace sc)" "47 \<notin> set (database sc)"
  shows "scope_parse (scope_display sc) = sc"
  using assms by (simp add: scope_parse_def scope_display_def split_once_append)

text \<open>With a single slash the database becomes the whole input, not the part after the slash.\<close>

lemma scope_parse_two_segments:
  assumes "47 \<notin> set ns" "47 \<notin> set db"
  shows "scope_parse (ns @ 47 # db) = \<lparr>namespace = ns, database = ns @ 47 # db, schema = lit ''d''\<rparr>"
  using assms by (simp add: scope_parse_def split_once_append split_once_None)

end
