(* ===== verification/Keyspace.thy ===== *)
theory Keyspace
  imports Domain_Keys
begin

text \<open>
  The ordered key-value keyspace the store runs its transactions on (the \<open>fjall\<close> engine), as an
  interface: point reads, writes, removals, and ordered iteration over a range or a prefix. The
  definitions of the store take it as an argument; the locale \<open>keyspace\<close> states what the engine
  documents and proves once what the store's proofs need. A sorted association list shows that
  the interface can be implemented.
\<close>

section \<open>The interface\<close>

record 's engine =
  ks_get :: "'s \<Rightarrow> bytes \<Rightarrow> bytes option"
  ks_insert :: "'s \<Rightarrow> bytes \<Rightarrow> bytes \<Rightarrow> 's"
  ks_remove :: "'s \<Rightarrow> bytes \<Rightarrow> 's"
  ks_range :: "'s \<Rightarrow> bytes \<Rightarrow> bytes option \<Rightarrow> (bytes \<times> bytes) list"
  ks_prefix :: "'s \<Rightarrow> bytes \<Rightarrow> (bytes \<times> bytes) list"

type_synonym rows = "bytes \<Rightarrow> bytes option"

text \<open>The entries of a map whose keys satisfy \<open>p\<close>, in ascending key order.\<close>

definition sorted_entries :: "rows \<Rightarrow> (bytes \<Rightarrow> bool) \<Rightarrow> (bytes \<times> bytes) list \<Rightarrow> bool" where
  "sorted_entries m p es \<longleftrightarrow>
    sorted_wrt (<) (map fst es) \<and> set es = {(k, v). m k = Some v \<and> p k}"

definition in_range :: "bytes \<Rightarrow> bytes option \<Rightarrow> bytes \<Rightarrow> bool" where
  "in_range lower upper k \<longleftrightarrow> lower \<le> k \<and> (case upper of None \<Rightarrow> True | Some u \<Rightarrow> k < u)"

locale keyspace =
  fixes K :: "'s engine"
  assumes get_insert: "ks_get K (ks_insert K s k v) = (ks_get K s)(k \<mapsto> v)"
    and get_remove: "ks_get K (ks_remove K s k) = (ks_get K s)(k := None)"
    and range_entries: "sorted_entries (ks_get K s) (in_range lower upper) (ks_range K s lower upper)"
    and prefix_entries: "sorted_entries (ks_get K s) (prefix p) (ks_prefix K s p)"

section \<open>Sorted entry lists\<close>

lemma sorted_entriesD:
  assumes "sorted_entries m p es"
  shows "sorted_wrt (<) (map fst es)" and "(k, v) \<in> set es \<longleftrightarrow> m k = Some v \<and> p k"
  using assms by (auto simp: sorted_entries_def)

lemma sorted_entries_distinct: "sorted_entries m p es \<Longrightarrow> distinct (map fst es)"
  by (auto simp: sorted_entries_def strict_sorted_iff)

text \<open>There is at most one such list.\<close>

lemma sorted_entries_unique:
  assumes "sorted_entries m p es" "sorted_entries m p es'"
  shows "es = es'"
proof -
  have d: "distinct es" "distinct es'" using assms [THEN sorted_entries_distinct] by (auto simp: distinct_map)
  have "map fst es = map fst es'"
    using assms by (intro strict_sorted_equal) (auto simp: sorted_entries_def)
  moreover have "map snd es = map (\<lambda>k. the (m k)) (map fst es)" if "sorted_entries m p es" for es
    using that by (auto simp: sorted_entries_def)
  ultimately show ?thesis
    using assms by (metis zip_map_fst_snd)
qed

lemma sorted_entries_cong:
  assumes "sorted_entries m p es" "\<And>k. p k \<Longrightarrow> m k = m' k" "\<And>k. m k \<noteq> None \<or> m' k \<noteq> None \<Longrightarrow> p k = q k"
  shows "sorted_entries m' q es"
proof -
  have "m k = Some v \<and> p k \<longleftrightarrow> m' k = Some v \<and> q k" for k v
    using assms(2,3) by (metis option.distinct(1))
  then show ?thesis using assms(1) by (simp add: sorted_entries_def)
qed

lemma sorted_entries_Nil: "sorted_entries m p [] \<longleftrightarrow> (\<forall>k. p k \<longrightarrow> m k = None)"
  by (auto simp: sorted_entries_def)

lemma sorted_entries_Cons:
  assumes "sorted_entries m p ((k, v) # es)"
  shows "m k = Some v" "p k" "sorted_entries m (\<lambda>x. p x \<and> k < x) es"
    and "\<And>x. p x \<Longrightarrow> m x \<noteq> None \<Longrightarrow> k \<le> x"
proof -
  show "m k = Some v" "p k" using assms by (auto simp: sorted_entries_def)
  show "k \<le> x" if "p x" "m x \<noteq> None" for x
  proof -
    from that(2) obtain w where "m x = Some w" by auto
    then have "(x, w) \<in> set ((k, v) # es)" using sorted_entriesD(2) [OF assms] that(1) by blast
    then show ?thesis using assms by (auto simp: sorted_entries_def)
  qed
  have mem: "(a, b) = (k, v) \<or> (a, b) \<in> set es \<longleftrightarrow> m a = Some b \<and> p a" for a b
    using sorted_entriesD(2) [OF assms, of a b] by simp
  have gt: "(a, b) \<in> set es \<Longrightarrow> k < a" for a b
    using assms by (auto simp: sorted_entries_def)
  have "(a, b) \<in> set es \<longleftrightarrow> m a = Some b \<and> p a \<and> k < a" for a b
    using mem [of a b] gt [of a b] by auto
  then show "sorted_entries m (\<lambda>x. p x \<and> k < x) es"
    using assms by (auto simp: sorted_entries_def)
qed

context keyspace
begin

lemma get_insert_same [simp]: "ks_get K (ks_insert K s k v) k = Some v"
  by (simp add: get_insert)

lemma mem_range: "(k, v) \<in> set (ks_range K s lower upper) \<longleftrightarrow> ks_get K s k = Some v \<and> in_range lower upper k"
  using range_entries by (auto simp: sorted_entries_def)

lemma mem_prefix: "(k, v) \<in> set (ks_prefix K s p) \<longleftrightarrow> ks_get K s k = Some v \<and> prefix p k"
  using prefix_entries by (auto simp: sorted_entries_def)

lemma prefix_keys: "set (map fst (ks_prefix K s p)) = {k. ks_get K s k \<noteq> None \<and> prefix p k}"
proof -
  have "set (ks_prefix K s p) = {(k, v). ks_get K s k = Some v \<and> prefix p k}" by (auto simp: mem_prefix)
  then show ?thesis by (auto simp: image_iff)
qed

lemma range_keys: "set (map fst (ks_range K s lower upper)) = {k. ks_get K s k \<noteq> None \<and> in_range lower upper k}"
proof -
  have "set (ks_range K s lower upper) = {(k, v). ks_get K s k = Some v \<and> in_range lower upper k}"
    by (auto simp: mem_range)
  then show ?thesis by (auto simp: image_iff)
qed

text \<open>A prefix scan is the scan of the prefix's range.\<close>

lemma prefix_eq_range:
  "prefix_to_range p = (lower, upper) \<Longrightarrow> ks_prefix K s p = ks_range K s lower upper"
proof -
  assume "prefix_to_range p = (lower, upper)"
  then have "in_range lower upper = prefix p"
    using prefix_to_range_Some [of p lower] prefix_to_range_None [of p lower]
    by (cases upper) (auto simp: in_range_def fun_eq_iff)
  then show ?thesis
    using prefix_entries [of s p] range_entries [of s lower upper] by (auto intro: sorted_entries_unique)
qed

end

section \<open>An association list, sorted on iteration\<close>

type_synonym al_rows = "(bytes \<times> bytes) list"

definition al_entries :: "al_rows \<Rightarrow> (bytes \<Rightarrow> bool) \<Rightarrow> (bytes \<times> bytes) list" where
  "al_entries s p = map (\<lambda>k. (k, the (map_of s k))) (sort (remdups (filter p (map fst s))))"

definition al_engine :: "al_rows engine" where
  "al_engine = \<lparr>ks_get = map_of, ks_insert = (\<lambda>s k v. (k, v) # s),
     ks_remove = (\<lambda>s k. filter (\<lambda>e. fst e \<noteq> k) s),
     ks_range = (\<lambda>s lower upper. al_entries s (in_range lower upper)),
     ks_prefix = (\<lambda>s p. al_entries s (prefix p))\<rparr>"

lemma al_entries_sorted: "sorted_entries (map_of s) p (al_entries s p)"
proof -
  have "map fst (al_entries s p) = sort (remdups (filter p (map fst s)))"
    by (simp add: al_entries_def comp_def)
  moreover have "sorted_wrt (<) (sort (remdups (filter p (map fst s))))"
    by (simp add: strict_sorted_iff)
  moreover have "(k, v) \<in> set (al_entries s p) \<longleftrightarrow> map_of s k = Some v \<and> p k" for k v
  proof -
    have "(k, v) \<in> set (al_entries s p) \<longleftrightarrow> k \<in> fst ` set s \<and> p k \<and> v = the (map_of s k)"
      by (auto simp: al_entries_def)
    also have "k \<in> fst ` set s \<longleftrightarrow> map_of s k \<noteq> None" by (simp add: map_of_eq_None_iff)
    finally show ?thesis by auto
  qed
  ultimately show ?thesis unfolding sorted_entries_def by auto
qed

interpretation al: keyspace al_engine
proof unfold_locales
  fix s :: al_rows and k
  show "ks_get al_engine (ks_remove al_engine s k) = (ks_get al_engine s)(k := None)"
    by (induction s) (auto simp: al_engine_def fun_eq_iff)
qed (simp_all add: al_engine_def al_entries_sorted)

end
