(* ===== verification/Skey_Properties.thy ===== *)
theory Skey_Properties
  imports Keyspace
begin

text \<open>
  The contract of the key format: what the store relies on when it uses encoded keys as the keys
  of an ordered keyspace.
\<close>

unbundle bit_operations_syntax

section \<open>Values\<close>

text \<open>
  C5. Round trip. Decoding the encoding of a value at its type gives the value back and leaves
  exactly the bytes that followed it, for every type of the serde data model, provided no
  sequence element (or map key) is mistaken for the end of its sequence.
\<close>

theorem skey_roundtrip:
  assumes "has_type t v" and "seq_ok v" and "serialize v = Inr a"
  shows "deserialize t (a @ r) = (Inr v, r)"
  using invertsD [OF deserialize_inverts [OF assms(1,2)] assms(3)] .

theorem skey_roundtrip_witness:
  "deserialize (TTuple [TStr, TU64, TOption TI8, TSeq TU8])
     (([0x61, 0] @ write_word (258 :: u64) @ [1, 0x7F] @ [7, 0, 9, 1]) @ [5])
   = (Inr (VTuple [VStr [0x61], VU64 258, VSome (VI8 0xFF), VSeq [VU8 7, VU8 0, VU8 9]]), [5])"
proof -
  let ?v = "VTuple [VStr [0x61], VU64 258, VSome (VI8 0xFF), VSeq [VU8 7, VU8 0, VU8 9]]"
  have "has_type (TTuple [TStr, TU64, TOption TI8, TSeq TU8]) ?v"
    by (simp add: utf8_valid.simps)
  moreover have "seq_ok ?v" by (simp add: seq_ok_def elem_ok_def serialize_u8_def)
  moreover have "serialize ?v = Inr ([0x61, 0] @ write_word (258 :: u64) @ [1, 0x7F] @ [7, 0, 9, 1])"
    by (simp add: serialize_str_def serialize_u64_def serialize_u8_def serialize_i8_def ser_pre_def ser_post_def seq_end_def)
  ultimately show ?thesis by (rule skey_roundtrip)
qed






section \<open>Variable-length integers\<close>

text \<open>
  C26. \<open>serialize_var_u64\<close> and \<open>deserialize_var_u64\<close> are inverse to each other on every \<open>u64\<close> and
  the encodings sort by value.
\<close>

theorem var_u64_contract:
  "deserialize_var_u64 (serialize_var_u64 v @ r) = (Inr v, r)
   \<and> (serialize_var_u64 v < serialize_var_u64 w \<longleftrightarrow> v < w)"
  using var_u64_inverts [of v r] var_u64.enc_less_iff [OF TrueI TrueI refl refl] by simp

text \<open>
  C27. \<open>serialize_var_i64\<close> and \<open>deserialize_var_i64\<close> are inverse to each other on every \<open>i64\<close> and
  the encodings sort by signed value.
\<close>

theorem var_i64_contract:
  "deserialize_var_i64 (serialize_var_i64 v @ r) = (Inr v, r)
   \<and> (serialize_var_i64 v < serialize_var_i64 w \<longleftrightarrow> sint v < sint w)"
  using var_i64_inverts [of v r] var_i64.enc_less_iff [OF TrueI TrueI refl refl] by simp

section \<open>Ranges\<close>

text \<open>
  C25. \<open>prefix_to_range\<close> is exact: a key lies in the half-open range of a prefix iff it starts with
  it; the range is unbounded above only for a prefix of \<open>0xFF\<close> bytes.
\<close>

theorem prefix_to_range_exact:
  "in_range (fst (prefix_to_range p)) (snd (prefix_to_range p)) k \<longleftrightarrow> prefix p k"
proof (cases "prefix_to_range p")
  case (Pair lo up)
  then show ?thesis
    using prefix_to_range_Some [of p lo] prefix_to_range_None [of p lo]
    by (cases up) (auto simp: in_range_def)
qed

end
