(* ===== verification/Mvcc.thy ===== *)
theory Mvcc
  imports Keyspace
begin

text \<open>
  Versioned rows, the lowest layers of \<open>swarm/db/src/store/fjall/tx.rs\<close>. A user key is stored as
  one row per version and kind: \<open>user key, MAX - version, kind\<close>, so that a prefix scan meets the
  newest version first and a deletion before an insertion of the same version. Every row has a
  second row in the version index, \<open>^ version row\<close>. The operations take the engine as their first
  argument and return the new state of the keyspace.
\<close>

unbundle bit_operations_syntax

section \<open>Row keys\<close>

datatype tx_error =
    Tx_Key key_error
  | Tx_KeyTooShort
  | Tx_MissingRow
  | Tx_SyncPoint
  | Tx_Meta
  | Tx_Conflict
  | Tx_Unavailable
  | Tx_Engine
  | Tx_Context string

datatype key_kind = Deletion | Insertion

primrec kind_num :: "key_kind \<Rightarrow> u32" where
  "kind_num Deletion = 5"
| "kind_num Insertion = 10"

definition encode_row :: "bytes \<Rightarrow> u64 \<Rightarrow> key_kind \<Rightarrow> bytes" where
  "encode_row user_key ts kind = user_key @ write_word (- 1 - ts) @ write_word (kind_num kind)"

text \<open>The \<open>decode_from\<close> the \<open>StoreKey\<close> derive generates for \<open>KeyKind\<close>.\<close>

definition decode_kind :: "key_kind reader" where
  "decode_kind = rbind read_word (\<lambda>ident :: u32.
     if ident = 5 then rret Deletion else if ident = 10 then rret Insertion
     else rfail (De_Message ''unknown id''))"

definition lift_key :: "key_error + 'a \<Rightarrow> tx_error + 'a" where
  "lift_key r = (case r of Inl e \<Rightarrow> Inl (Tx_Key e) | Inr a \<Rightarrow> Inr a)"

definition lift_enc :: "ser_error + 'a \<Rightarrow> tx_error + 'a" where
  "lift_enc r = (case r of Inl e \<Rightarrow> Inl (Tx_Key (Ke_Encode e)) | Inr a \<Rightarrow> Inr a)"

definition decode_row :: "bytes \<Rightarrow> tx_error + bytes \<times> u64 \<times> key_kind" where
  "decode_row row =
    (if length row < 4 then Inl Tx_KeyTooShort
     else let kind_at = length row - 4; rest = take kind_at row in
       and_then (lift_key (decode_from_bytes decode_kind (drop kind_at row))) (\<lambda>kind.
         if length rest < 8 then Inl Tx_KeyTooShort
         else let ts_at = length rest - 8 in
           and_then (lift_key (decode_from_bytes (read_word :: u64 reader) (drop ts_at rest))) (\<lambda>ts.
             Inr (take ts_at rest, - 1 - ts, kind))))"

definition version_index_tag :: byte where
  "version_index_tag = of_char CHR ''^''"

definition version_index_flag :: bytes where
  "version_index_flag = lit ''!vidx1''"

definition version_index_key :: "u64 \<Rightarrow> bytes \<Rightarrow> bytes" where
  "version_index_key ts data_key = [version_index_tag] @ write_word ts @ data_key"

definition version_index_prefix :: "u64 \<Rightarrow> bytes \<Rightarrow> bytes" where
  "version_index_prefix ts scope_raw = version_index_key ts scope_raw"

definition version_index_data_key :: "bytes \<Rightarrow> tx_error + bytes" where
  "version_index_data_key index_key =
    (if length index_key < 9 then Inl (Tx_Context ''version index key too short'') else Inr (drop 9 index_key))"

section \<open>Reading and writing one version\<close>

definition insert_at_raw :: "'s engine \<Rightarrow> 's \<Rightarrow> bytes \<Rightarrow> bytes \<Rightarrow> u64 \<Rightarrow> 's" where
  "insert_at_raw K s key value ts =
    (let row = encode_row key ts Insertion
     in ks_insert K (ks_insert K s (version_index_key ts row) []) row value)"

definition put_at_raw :: "'s engine \<Rightarrow> 's \<Rightarrow> bytes \<Rightarrow> bytes \<Rightarrow> u64 \<Rightarrow> 's" where
  "put_at_raw K s key value ts =
    (let row = encode_row key ts Deletion;
         s = ks_remove K s row;
         s = ks_remove K s (version_index_key ts row)
     in insert_at_raw K s key value ts)"

definition erase_at_raw :: "'s engine \<Rightarrow> 's \<Rightarrow> bytes \<Rightarrow> u64 \<Rightarrow> 's" where
  "erase_at_raw K s key ts =
    (let row = encode_row key ts Deletion
     in ks_insert K (ks_insert K s (version_index_key ts row) []) row [])"

fun get_loop :: "bytes \<Rightarrow> u64 \<Rightarrow> (bytes \<times> bytes) list \<Rightarrow> tx_error + (bytes \<times> bytes) option" where
  "get_loop key ts [] = Inr None"
| "get_loop key ts ((k, v) # it) =
    and_then (decode_row k) (\<lambda>(user_key, uk_ts, kind).
      if user_key \<noteq> key then get_loop key ts it
      else if uk_ts > ts then get_loop key ts it
      else case kind of Deletion \<Rightarrow> Inr None | Insertion \<Rightarrow> Inr (Some (user_key, v)))"

definition get_from_raw :: "'s engine \<Rightarrow> 's \<Rightarrow> bytes \<Rightarrow> u64 \<Rightarrow> tx_error + (bytes \<times> bytes) option" where
  "get_from_raw K s key ts = get_loop key ts (ks_prefix K s key)"

definition put_if_absent_raw :: "'s engine \<Rightarrow> 's \<Rightarrow> bytes \<Rightarrow> bytes \<Rightarrow> u64 \<Rightarrow> tx_error + bool \<times> 's" where
  "put_if_absent_raw K s key value ts =
    and_then (get_from_raw K s key ts) (\<lambda>found.
      case found of Some _ \<Rightarrow> Inr (False, s) | None \<Rightarrow> Inr (True, put_at_raw K s key value ts))"

section \<open>The abstract versioned map\<close>

text \<open>What a key holds at exactly one version: nothing, a tombstone, or a value.\<close>

definition mv :: "rows \<Rightarrow> bytes \<Rightarrow> u64 \<Rightarrow> bytes option option" where
  "mv m key t = (if m (encode_row key t Deletion) \<noteq> None then Some None
     else map_option Some (m (encode_row key t Insertion)))"

text \<open>What a reader at \<open>ts\<close> sees: the newest version not after \<open>ts\<close>.\<close>

definition mv_read :: "rows \<Rightarrow> bytes \<Rightarrow> u64 \<Rightarrow> bytes option" where
  "mv_read m key ts =
    (let versions = {t. t \<le> ts \<and> mv m key t \<noteq> None}
     in if versions = {} then None else the (mv m key (Max versions)))"

section \<open>Row keys are injective and ordered newest first\<close>

lemma write_word_inject64 [simp]: "write_word (a :: u64) = write_word b \<longleftrightarrow> a = b"
  by (rule write_word_inject) simp

lemma write_word_inject32 [simp]: "write_word (a :: u32) = write_word b \<longleftrightarrow> a = b"
  by (rule write_word_inject) simp

lemma kind_num_inject [simp]: "kind_num a = kind_num b \<longleftrightarrow> a = b"
  by (cases a; cases b) auto

lemma encode_row_inject [simp]:
  "encode_row uk t kd = encode_row uk' t' kd' \<longleftrightarrow> uk = uk' \<and> t = t' \<and> kd = kd'"
  by (auto simp: encode_row_def append_eq_append_conv)

lemma decode_kind_word: "decode_kind (write_word (kind_num kd)) = (Inr kd, [])"
  using read_word_width(3) [of "kind_num kd" "[]"] by (cases kd) (simp_all add: decode_kind_def)

lemma decode_encode_row [simp]: "decode_row (encode_row uk t kd) = Inr (uk, t, kd)"
proof -
  have "read_word (write_word (- 1 - t :: u64)) = (Inr (- 1 - t), [])"
    using read_word_width(4) [of "- 1 - t" "[]"] by simp
  then show ?thesis
    by (simp add: decode_row_def encode_row_def decode_from_bytes_def decode_kind_word lift_key_def)
qed

lemma max_minus_less: "(- 1 - a :: 'a::len word) < - 1 - b \<longleftrightarrow> b < a"
proof -
  have "- 1 - w = NOT w" for w :: "'a word" by (simp add: not_eq_complement)
  then show ?thesis using uint_not [of a] uint_not [of b] by (simp add: word_less_def)
qed

lemma encode_row_less_iff:
  "encode_row uk t kd < encode_row uk t' kd' \<longleftrightarrow> t' < t \<or> t = t' \<and> kd = Deletion \<and> kd' = Insertion"
proof -
  have "kind_num kd < kind_num kd' \<longleftrightarrow> kd = Deletion \<and> kd' = Insertion" by (cases kd; cases kd') auto
  then show ?thesis
    by (auto simp: encode_row_def lex_append_same lex_append_iff write_word_less_iff max_minus_less)
qed

lemma encode_row_prefix [simp]: "prefix uk (encode_row uk t kd)"
  by (simp add: encode_row_def)

lemma version_index_key_inject [simp]: "version_index_key t r = version_index_key t' r' \<longleftrightarrow> t = t' \<and> r = r'"
  by (auto simp: version_index_key_def append_eq_append_conv)

lemma version_index_data_key_key [simp]: "version_index_data_key (version_index_key t r) = Inr r"
  by (simp add: version_index_data_key_def version_index_key_def)

section \<open>Well-formed data rows\<close>

text \<open>User keys start with the scope alias's \<open>@\<close>; every row of that region is a version of one.\<close>

definition data_key :: "bytes \<Rightarrow> bool" where
  "data_key uk \<longleftrightarrow> prefix (lit ''@'') uk"

definition data_wf :: "rows \<Rightarrow> bool" where
  "data_wf m \<longleftrightarrow> (\<forall>k. m k \<noteq> None \<longrightarrow> data_key k \<longrightarrow> (\<exists>uk t kd. k = encode_row uk t kd \<and> data_key uk))"

lemma data_key_row [simp]: "data_key uk \<Longrightarrow> data_key (encode_row uk t kd)"
  by (auto simp: data_key_def encode_row_def)

lemma data_key_prefix: "data_key uk \<Longrightarrow> prefix uk k \<Longrightarrow> data_key k"
  unfolding data_key_def by (rule prefix_order.trans)

lemma not_data_index [simp]: "\<not> data_key (version_index_key t r)"
  by (simp add: data_key_def version_index_key_def version_index_tag_def)

lemma data_not_index: "data_key k \<Longrightarrow> k \<noteq> version_index_key t r"
  using not_data_index by metis

lemma data_row_not_index [simp]:
  "data_key uk \<Longrightarrow> encode_row uk t kd \<noteq> version_index_key t' r"
  "data_key uk \<Longrightarrow> version_index_key t' r \<noteq> encode_row uk t kd"
  by (metis data_key_row data_not_index)+

lemma data_wfE:
  assumes "data_wf m" "m k \<noteq> None" "data_key k"
  obtains uk t kd where "k = encode_row uk t kd" "data_key uk"
  using assms unfolding data_wf_def by blast

section \<open>Reads refine the versioned map\<close>

lemma find_sorted_least:
  assumes "sorted_wrt (<) (map fst es)" "find P es = Some x" "y \<in> set es" "P y"
  shows "fst x \<le> fst (y :: 'a::linorder \<times> 'b)"
  using assms by (induction es) (auto split: if_splits)

definition visible_row :: "bytes \<Rightarrow> u64 \<Rightarrow> bytes \<times> bytes \<Rightarrow> bool" where
  "visible_row key ts e \<longleftrightarrow> (\<exists>t kd. fst e = encode_row key t kd \<and> t \<le> ts)"

lemma get_loop_find:
  assumes "\<And>k v. (k, v) \<in> set es \<Longrightarrow> \<exists>uk t kd. k = encode_row uk t kd"
  shows "get_loop key ts es = Inr (case find (visible_row key ts) es of
     None \<Rightarrow> None
   | Some (k, v) \<Rightarrow> if \<exists>t. k = encode_row key t Deletion then None else Some (key, v))"
  using assms
proof (induction es)
  case (Cons e es)
  obtain k v where e: "e = (k, v)" by force
  with Cons.prems obtain uk t kd where k: "k = encode_row uk t kd" by (metis list.set_intros(1))
  have IH: "get_loop key ts es = Inr (case find (visible_row key ts) es of
     None \<Rightarrow> None
   | Some (k, v) \<Rightarrow> if \<exists>t. k = encode_row key t Deletion then None else Some (key, v))"
    by (intro Cons.IH) (metis Cons.prems list.set_intros(2))
  have "visible_row key ts (k, v) \<longleftrightarrow> uk = key \<and> t \<le> ts" by (auto simp: visible_row_def k)
  then show ?case by (cases kd) (auto simp: e k IH not_le)
qed simp

text \<open>The least visible row decides what a reader sees.\<close>

lemma mv_read_least:
  assumes row: "m (encode_row key t kd) = Some v" "t \<le> ts"
    and least: "\<And>t' kd'. t' \<le> ts \<Longrightarrow> m (encode_row key t' kd') \<noteq> None \<Longrightarrow>
      encode_row key t kd \<le> encode_row key t' kd'"
  shows "mv_read m key ts = (if kd = Deletion then None else Some v)"
proof -
  let ?V = "{t. t \<le> ts \<and> mv m key t \<noteq> None}"
  have "mv m key t \<noteq> None" using row(1) by (cases kd) (auto simp: mv_def)
  then have t: "t \<in> ?V" using row(2) by simp
  have le: "t' \<le> t" if "t' \<in> ?V" for t'
  proof -
    from that obtain kd' where "m (encode_row key t' kd') \<noteq> None" by (auto simp: mv_def split: if_splits)
    with that least [of t' kd'] have "encode_row key t kd \<le> encode_row key t' kd'" by simp
    then have "encode_row key t kd < encode_row key t' kd' \<or> encode_row key t kd = encode_row key t' kd'"
      by (simp add: order.order_iff_strict)
    then show "t' \<le> t" unfolding encode_row_less_iff encode_row_inject by auto
  qed
  have "Max ?V = t" using t le by (intro Max_eqI) auto
  moreover have "mv m key t = Some (if kd = Deletion then None else Some v)"
  proof (cases kd)
    case Deletion
    then show ?thesis using row(1) by (simp add: mv_def)
  next
    case Insertion
    have "m (encode_row key t Deletion) = None"
      using least [of t Deletion] row(2) Insertion encode_row_less_iff [of key t Deletion t Insertion]
      by (metis key_kind.distinct(1) not_le)
    then show ?thesis using row(1) Insertion by (simp add: mv_def)
  qed
  ultimately show ?thesis using t by (auto simp: mv_read_def Let_def)
qed

lemma mv_read_None: "(\<And>t kd. t \<le> ts \<Longrightarrow> m (encode_row key t kd) = None) \<Longrightarrow> mv_read m key ts = None"
  by (simp add: mv_read_def mv_def)

context keyspace
begin

lemma get_from_raw_refines:
  assumes wf: "data_wf (ks_get K s)" and key: "data_key key"
  shows "get_from_raw K s key ts = Inr (map_option (Pair key) (mv_read (ks_get K s) key ts))"
proof -
  let ?es = "ks_prefix K s key" and ?m = "ks_get K s"
  have "\<exists>uk t kd. k = encode_row uk t kd" if "(k, v) \<in> set ?es" for k v
    using that wf key data_key_prefix by (metis data_wfE mem_prefix option.distinct(1))
  note loop = get_loop_find [of ?es key ts, OF this]
  have mem: "(encode_row key t kd, v) \<in> set ?es" if "?m (encode_row key t kd) = Some v" for t kd v
    using that by (simp add: mem_prefix)
  show ?thesis
  proof (cases "find (visible_row key ts) ?es")
    case None
    have "?m (encode_row key t kd) = None" if "t \<le> ts" for t kd
      using None mem that unfolding find_None_iff visible_row_def by (metis fst_conv not_Some_eq)
    then show ?thesis using loop None by (simp add: get_from_raw_def mv_read_None)
  next
    case (Some e)
    then have e: "e \<in> set ?es" "visible_row key ts e" by (auto simp: find_Some_iff)
    then obtain t kd v where kv: "e = (encode_row key t kd, v)" "t \<le> ts" by (metis visible_row_def prod.collapse)
    have "mv_read ?m key ts = (if kd = Deletion then None else Some v)"
    proof (rule mv_read_least)
      show "?m (encode_row key t kd) = Some v" using e(1) kv by (simp add: mem_prefix)
      fix t' kd' assume "t' \<le> ts" "?m (encode_row key t' kd') \<noteq> None"
      then obtain v' where "(encode_row key t' kd', v') \<in> set ?es" using mem by blast
      moreover have "visible_row key ts (encode_row key t' kd', v')"
        using \<open>t' \<le> ts\<close> by (auto simp: visible_row_def)
      ultimately show "encode_row key t kd \<le> encode_row key t' kd'"
        using find_sorted_least [OF _ Some] prefix_entries [of s key] kv(1) by (force simp: sorted_entries_def)
    qed (rule kv(2))
    then show ?thesis using loop Some kv(1) by (cases kd) (simp_all add: get_from_raw_def)
  qed
qed

section \<open>Writes\<close>

lemma rows_insert_at:
  "ks_get K (insert_at_raw K s key v ts) =
    (ks_get K s)(version_index_key ts (encode_row key ts Insertion) \<mapsto> [], encode_row key ts Insertion \<mapsto> v)"
  by (simp add: insert_at_raw_def Let_def get_insert)

lemma rows_put_at:
  "ks_get K (put_at_raw K s key v ts) =
    (ks_get K s)(encode_row key ts Deletion := None, version_index_key ts (encode_row key ts Deletion) := None,
      version_index_key ts (encode_row key ts Insertion) \<mapsto> [], encode_row key ts Insertion \<mapsto> v)"
  by (simp add: put_at_raw_def Let_def rows_insert_at get_remove)

lemma rows_erase_at:
  "ks_get K (erase_at_raw K s key ts) =
    (ks_get K s)(version_index_key ts (encode_row key ts Deletion) \<mapsto> [], encode_row key ts Deletion \<mapsto> [])"
  by (simp add: erase_at_raw_def Let_def get_insert)

lemmas rows_writes = rows_insert_at rows_put_at rows_erase_at

lemma mv_put_at:
  assumes "data_key key" "data_key key'"
  shows "mv (ks_get K (put_at_raw K s key v ts)) key' t
    = (if key' = key \<and> t = ts then Some (Some v) else mv (ks_get K s) key' t)"
  using assms by (auto simp: mv_def rows_put_at)

lemma mv_erase_at:
  assumes "data_key key" "data_key key'"
  shows "mv (ks_get K (erase_at_raw K s key ts)) key' t
    = (if key' = key \<and> t = ts then Some None else mv (ks_get K s) key' t)"
  using assms by (auto simp: mv_def rows_erase_at)

text \<open>The insertion of replication leaves a tombstone of the same version in place.\<close>

lemma mv_insert_at:
  assumes "data_key key" "data_key key'"
  shows "mv (ks_get K (insert_at_raw K s key v ts)) key' t
    = (if key' = key \<and> t = ts
       then (if mv (ks_get K s) key t = Some None then Some None else Some (Some v)) else mv (ks_get K s) key' t)"
  using assms by (auto simp: mv_def rows_insert_at)

lemmas mv_writes = mv_put_at mv_erase_at mv_insert_at

lemma data_wf_writes:
  assumes "data_wf (ks_get K s)" "data_key key"
  shows "data_wf (ks_get K (put_at_raw K s key v ts))" "data_wf (ks_get K (erase_at_raw K s key ts))"
    "data_wf (ks_get K (insert_at_raw K s key v ts))"
  using assms unfolding data_wf_def rows_writes by (auto simp: fun_upd_apply split: if_splits)

end

section \<open>What a reader sees after a write\<close>

lemma mv_read_cong:
  "(\<And>t. t \<le> ts \<Longrightarrow> mv m key t = mv m' key t) \<Longrightarrow> mv_read m key ts = mv_read m' key ts"
proof -
  assume e: "\<And>t. t \<le> ts \<Longrightarrow> mv m key t = mv m' key t"
  then have V: "{t. t \<le> ts \<and> mv m key t \<noteq> None} = {t. t \<le> ts \<and> mv m' key t \<noteq> None}" by auto
  have "Max {t. t \<le> ts \<and> mv m' key t \<noteq> None} \<le> ts" if "{t. t \<le> ts \<and> mv m' key t \<noteq> None} \<noteq> {}"
    using Max_in [OF _ that] by simp
  then show ?thesis using e V by (auto simp: mv_read_def Let_def)
qed

lemma mv_read_at:
  assumes "mv m key t = Some r" "t \<le> ts" "\<And>t'. t < t' \<Longrightarrow> t' \<le> ts \<Longrightarrow> mv m key t' = None"
  shows "mv_read m key ts = r"
proof -
  have "y \<le> t" if "y \<le> ts" "mv m key y \<noteq> None" for y
    using assms(3) [of y] that by (meson not_le)
  then have "Max {t. t \<le> ts \<and> mv m key t \<noteq> None} = t"
    using assms(1,2) by (intro Max_eqI) auto
  then show ?thesis using assms(1,2) by (auto simp: mv_read_def Let_def)
qed

end
