(* ===== verification/Mvcc_List.thy ===== *)
theory Mvcc_List
  imports Mvcc
begin

text \<open>
  Listings, the iterators of \<open>swarm/db/src/store/fjall/tx.rs\<close> that collapse the versions of a user
  key to the newest one (\<open>prefix_latest\<close>, \<open>range_latest_kv\<close> and their reversed and untracked
  variants). An iterator is the list of the items it yields. They rely on the versions of a key
  being adjacent, which holds for user keys none of which is a prefix of another.
\<close>

section \<open>The iterators\<close>

type_synonym 'a items = "(tx_error + 'a) list"

fun latest_loop :: "bytes option \<Rightarrow> (bytes \<times> bytes) list \<Rightarrow> (bytes \<times> bytes) items" where
  "latest_loop prev [] = []"
| "latest_loop prev ((k, v) # it) =
    (case decode_row k of
       Inl err \<Rightarrow> Inl err # latest_loop prev it
     | Inr (user_key, _, kind) \<Rightarrow>
         if prev = Some user_key then latest_loop prev it
         else case kind of
             Deletion \<Rightarrow> latest_loop (Some user_key) it
           | Insertion \<Rightarrow> Inr (user_key, v) # latest_loop (Some user_key) it)"

definition item_key :: "tx_error + bytes \<times> bytes \<Rightarrow> tx_error + bytes" where
  "item_key item = and_then item (\<lambda>(k, v). Inr k)"

definition prefix_latest :: "'s engine \<Rightarrow> 's \<Rightarrow> bytes \<Rightarrow> bytes items" where
  "prefix_latest K s key = map item_key (latest_loop None (ks_prefix K s key))"

definition prefix_latest_untracked :: "'s engine \<Rightarrow> 's \<Rightarrow> bytes \<Rightarrow> bytes items" where
  "prefix_latest_untracked K s key = map item_key (latest_loop None (ks_prefix K s key))"

definition range_latest :: "'s engine \<Rightarrow> 's \<Rightarrow> bytes \<Rightarrow> bytes \<Rightarrow> bytes items" where
  "range_latest K s lower upper = map item_key (latest_loop None (ks_range K s lower (Some upper)))"

definition range_latest_kv :: "'s engine \<Rightarrow> 's \<Rightarrow> bytes \<Rightarrow> bytes \<Rightarrow> (bytes \<times> bytes) items" where
  "range_latest_kv K s lower upper = latest_loop None (ks_range K s lower (Some upper))"

definition range_latest_kv_untracked :: "'s engine \<Rightarrow> 's \<Rightarrow> bytes \<Rightarrow> bytes option \<Rightarrow> (bytes \<times> bytes) items" where
  "range_latest_kv_untracked K s lower upper = latest_loop None (ks_range K s lower upper)"

text \<open>
  Descending, the newest row of a key comes last: the row met so far is held back in \<open>pending\<close>
  until a row of another key follows.
\<close>

fun pending_item :: "(bytes \<times> bytes \<times> key_kind) option \<Rightarrow> (bytes \<times> bytes) items" where
  "pending_item (Some (k, v, Insertion)) = [Inr (k, v)]"
| "pending_item _ = []"

fun rev_loop :: "(bytes \<times> bytes \<times> key_kind) option \<Rightarrow> (bytes \<times> bytes) list \<Rightarrow> (bytes \<times> bytes) items" where
  "rev_loop pending [] = pending_item pending"
| "rev_loop pending ((k, v) # it) =
    (case decode_row k of
       Inl err \<Rightarrow> Inl err # rev_loop pending it
     | Inr (user_key, _, kind) \<Rightarrow>
         if map_option fst pending = Some user_key then rev_loop (Some (user_key, v, kind)) it
         else pending_item pending @ rev_loop (Some (user_key, v, kind)) it)"

definition range_latest_kv_untracked_rev :: "'s engine \<Rightarrow> 's \<Rightarrow> bytes \<Rightarrow> bytes option \<Rightarrow> (bytes \<times> bytes) items" where
  "range_latest_kv_untracked_rev K s lower upper = rev_loop None (rev (ks_range K s lower upper))"

definition range_latest_kv_rev :: "'s engine \<Rightarrow> 's \<Rightarrow> bytes \<Rightarrow> bytes \<Rightarrow> (bytes \<times> bytes) items" where
  "range_latest_kv_rev K s lower upper = rev_loop None (rev (ks_range K s lower (Some upper)))"

section \<open>Decoded rows\<close>

text \<open>The rows an iterator meets, decoded.\<close>

type_synonym row = "bytes \<times> u64 \<times> key_kind \<times> bytes"

definition row_entry :: "row \<Rightarrow> bytes \<times> bytes" where
  "row_entry r = (case r of (uk, t, kd, v) \<Rightarrow> (encode_row uk t kd, v))"

lemma row_entry_simp [simp]: "row_entry (uk, t, kd, v) = (encode_row uk t kd, v)"
  by (simp add: row_entry_def)

lemma rows_of_entries:
  assumes "\<And>k v. (k, v) \<in> set es \<Longrightarrow> \<exists>uk t kd. k = encode_row uk t kd"
  shows "\<exists>rs. es = map row_entry rs"
  using assms
proof (induction es)
  case (Cons e es)
  obtain k v where e: "e = (k, v)" by force
  with Cons.prems obtain uk t kd where "k = encode_row uk t kd" by (metis list.set_intros(1))
  moreover obtain rs where "es = map row_entry rs" using Cons by (metis list.set_intros(2))
  ultimately have "e # es = map row_entry ((uk, t, kd, v) # rs)" using e by simp
  then show ?case by (rule exI)
qed simp

text \<open>The first row of each user key: what the ascending iterator keeps.\<close>

fun newest :: "bytes option \<Rightarrow> row list \<Rightarrow> (bytes \<times> bytes) list" where
  "newest prev [] = []"
| "newest prev ((uk, t, kd, v) # rs) =
    (if prev = Some uk then newest prev rs
     else (if kd = Insertion then [(uk, v)] else []) @ newest (Some uk) rs)"

lemma latest_loop_newest: "latest_loop prev (map row_entry rs) = map Inr (newest prev rs)"
proof (induction rs arbitrary: prev)
  case (Cons r rs)
  obtain uk t kd v where "r = (uk, t, kd, v)" by (cases r)
  then show ?case using Cons by (cases kd) simp_all
qed simp

text \<open>With equal keys adjacent, the iterator from the other end yields the same items.\<close>

definition grouped :: "row list \<Rightarrow> bool" where
  "grouped rs \<longleftrightarrow> sorted (map fst rs)"

lemma grouped_simps [simp]:
  "grouped []" "grouped (r # rs) \<longleftrightarrow> (\<forall>r'\<in>set rs. fst r \<le> fst r') \<and> grouped rs"
  by (auto simp: grouped_def)

lemma grouped_append: "grouped (rs @ ss) \<longleftrightarrow> grouped rs \<and> grouped ss \<and> (\<forall>r\<in>set rs. \<forall>s\<in>set ss. fst r \<le> fst s)"
  by (auto simp: grouped_def sorted_append)

text \<open>What a key's first row contributes.\<close>

definition head_item :: "row list \<Rightarrow> bytes \<Rightarrow> bytes option" where
  "head_item rs uk = (case find (\<lambda>r. fst r = uk) rs of
     Some (_, _, Insertion, v) \<Rightarrow> Some v | _ \<Rightarrow> None)"

lemma head_item_Nil [simp]: "head_item [] uk = None"
  by (simp add: head_item_def)

lemma head_item_Cons [simp]:
  "head_item ((uk, t, kd, v) # rs) uk' =
    (if uk = uk' then (if kd = Insertion then Some v else None) else head_item rs uk')"
  by (cases kd) (auto simp: head_item_def)

lemma find_SomeD: "find P xs = Some x \<Longrightarrow> x \<in> set xs \<and> P x"
  by (auto simp: find_Some_iff)

lemma newest_spec:
  assumes "grouped rs" and "\<And>p. prev = Some p \<Longrightarrow> \<forall>r\<in>set rs. p \<le> fst r"
  shows "sorted_wrt (<) (map fst (newest prev rs))
    \<and> set (newest prev rs) = {(uk, v). prev \<noteq> Some uk \<and> head_item rs uk = Some v}"
  using assms
proof (induction rs arbitrary: prev)
  case (Cons r rs)
  obtain uk t kd v where r: "r = (uk, t, kd, v)" by (cases r)
  have g: "grouped rs" "\<forall>r'\<in>set rs. uk \<le> fst r'" using Cons.prems(1) r by auto
  show ?case
  proof (cases "prev = Some uk")
    case True
    then show ?thesis using Cons.IH [of prev] g r by auto
  next
    case False
    have IH: "sorted_wrt (<) (map fst (newest (Some uk) rs))"
      "set (newest (Some uk) rs) = {(uk', v). uk \<noteq> uk' \<and> head_item rs uk' = Some v}"
      using Cons.IH [of "Some uk"] g by auto
    have "uk < uk'" if "(uk', v') \<in> set (newest (Some uk) rs)" for uk' v'
    proof -
      from that IH(2) have "uk \<noteq> uk'" "head_item rs uk' = Some v'" by auto
      then have "uk' \<in> fst ` set rs"
        by (auto simp: head_item_def find_Some_iff image_iff split: option.splits)
      then show ?thesis using g(2) \<open>uk \<noteq> uk'\<close> by (auto simp: order.strict_iff_order)
    qed
    then have "\<forall>x\<in>set (newest (Some uk) rs). uk < fst x" by auto
    moreover have "prev \<noteq> Some uk'" if "(uk', v') \<in> set (newest (Some uk) rs)" for uk' v'
    proof
      assume p: "prev = Some uk'"
      then have "uk' \<le> uk" using Cons.prems(2) [OF p] r by simp
      moreover have "uk < uk'" using \<open>\<forall>x\<in>set (newest (Some uk) rs). uk < fst x\<close> that by auto
      ultimately show False by simp
    qed
    ultimately show ?thesis using False IH r by (auto simp: sorted_wrt_append split: if_splits)
  qed
qed simp

text \<open>The descending loop emits, for each key, the row that comes first in ascending order.\<close>

definition pending_of :: "row \<Rightarrow> bytes \<times> bytes \<times> key_kind" where
  "pending_of r = (case r of (uk, t, kd, v) \<Rightarrow> (uk, v, kd))"

lemma newest_skip: "(\<forall>r\<in>set rs. fst r \<noteq> uk) \<Longrightarrow> newest (Some uk) rs = newest None rs"
  by (cases rs) auto

lemma pending_newest: "map Inr (if kd = Insertion then [(uk, v)] else []) = pending_item (Some (uk, v, kd))"
  by (cases kd) simp_all

lemma rev_loop_newest:
  assumes "grouped (rs @ [p])"
  shows "map Inr (rev (newest (Some (fst p)) ss)) @ rev_loop (Some (pending_of p)) (map row_entry (rev rs))
    = map Inr (rev (newest None (rs @ p # ss)))"
  using assms
proof (induction rs arbitrary: p ss rule: rev_induct)
  case Nil
  obtain uk t kd v where p: "p = (uk, t, kd, v)" by (cases p)
  then show ?case by (cases kd) (auto simp: pending_of_def)
next
  case (snoc r rs)
  obtain uk t kd v where p: "p = (uk, t, kd, v)" by (cases p)
  obtain uk' t' kd' v' where r: "r = (uk', t', kd', v')" by (cases r)
  have IH: "map Inr (rev (newest (Some uk') ss)) @ rev_loop (Some (pending_of r)) (map row_entry (rev rs))
      = map Inr (rev (newest None (rs @ r # ss)))" for ss
    using snoc.IH [of r ss] snoc.prems r by (auto simp: grouped_append)
  show ?case
  proof (cases "uk = uk'")
    case True
    then show ?thesis using IH [of "p # ss"] by (simp add: p r pending_of_def)
  next
    case False
    have "newest (Some uk') (p # ss) = (if kd = Insertion then [(uk, v)] else []) @ newest (Some uk) ss"
      using False by (simp add: p)
    then show ?thesis using IH [of "p # ss"] False
      by (cases kd) (simp_all add: p r pending_of_def)
  qed
qed

lemma rev_loop_rev:
  assumes "grouped rs"
  shows "rev_loop None (rev (map row_entry rs)) = rev (latest_loop None (map row_entry rs))"
proof (cases rs rule: rev_cases)
  case (snoc rs' p)
  obtain uk t kd v where p: "p = (uk, t, kd, v)" by (cases p)
  have "rev_loop None (rev (map row_entry rs)) = rev_loop (Some (pending_of p)) (map row_entry (rev rs'))"
    by (simp add: snoc p pending_of_def rev_map)
  also have "\<dots> = map Inr (rev (newest None rs))"
    using rev_loop_newest [of rs' p "[]"] assms by (simp add: snoc)
  finally show ?thesis by (simp add: latest_loop_newest rev_map)
qed simp

section \<open>Sorted rows of prefix-free keys are grouped\<close>

definition prefix_free :: "bytes set \<Rightarrow> bool" where
  "prefix_free U \<longleftrightarrow> (\<forall>a\<in>U. \<forall>b\<in>U. prefix a b \<longrightarrow> a = b)"

lemma prefix_freeD: "prefix_free U \<Longrightarrow> a \<in> U \<Longrightarrow> b \<in> U \<Longrightarrow> prefix a b \<Longrightarrow> a = b"
  by (auto simp: prefix_free_def)

lemma prefix_free_mono: "prefix_free U \<Longrightarrow> V \<subseteq> U \<Longrightarrow> prefix_free V"
  by (auto simp: prefix_free_def)

lemma encode_row_key_le:
  assumes "prefix_free U" "uk \<in> U" "uk' \<in> U" "encode_row uk t kd < encode_row uk' t' kd'"
  shows "uk \<le> uk'"
proof (rule ccontr)
  assume "\<not> uk \<le> uk'"
  then have "uk' < uk" by simp
  moreover have "\<not> prefix uk' uk" using assms(1-3) \<open>uk' < uk\<close> by (metis less_irrefl prefix_freeD)
  ultimately have "encode_row uk' t' kd' < encode_row uk t kd"
    unfolding encode_row_def by (rule lex_less_append_not_prefix)
  then show False using assms(4) by simp
qed

lemma sorted_rows_grouped:
  assumes "prefix_free U" "fst ` set rs \<subseteq> U" "sorted_wrt (<) (map fst (map row_entry rs))"
  shows "grouped rs"
  using assms(2,3)
proof (induction rs)
  case (Cons r rs)
  obtain uk t kd v where r: "r = (uk, t, kd, v)" by (cases r)
  have "uk \<le> fst r'" if r': "r' \<in> set rs" for r'
  proof -
    obtain uk' t' kd' v' where e: "r' = (uk', t', kd', v')" by (cases r')
    have "\<forall>x\<in>set rs. encode_row uk t kd < fst (row_entry x)" using Cons.prems(2) by (simp add: r)
    from bspec [OF this r'] have "encode_row uk t kd < encode_row uk' t' kd'" by (simp add: e)
    moreover have "uk \<in> U" "uk' \<in> U" using Cons.prems(1) r' by (auto simp: r e)
    ultimately show ?thesis using encode_row_key_le [OF assms(1)] by (simp add: e)
  qed
  then show ?case using Cons r by simp
qed simp

section \<open>What a listing contains\<close>

text \<open>The current value of every user key of a class.\<close>

definition current :: "rows \<Rightarrow> bytes set \<Rightarrow> rows" where
  "current m U uk = (if uk \<in> U then mv_read m uk (- 1) else None)"

text \<open>
  A window over the rows that holds the rows of user keys in \<open>U\<close> only, and with a key all its
  rows.
\<close>

definition window :: "rows \<Rightarrow> bytes set \<Rightarrow> (bytes \<Rightarrow> bool) \<Rightarrow> bool" where
  "window m U p \<longleftrightarrow> prefix_free U
    \<and> (\<forall>k. m k \<noteq> None \<longrightarrow> p k \<longrightarrow> (\<exists>uk t kd. k = encode_row uk t kd \<and> uk \<in> U))
    \<and> (\<forall>uk\<in>U. \<forall>t kd. p (encode_row uk t kd) \<longleftrightarrow> p uk)"

lemma mv_read_max_least:
  assumes "m (encode_row key t kd) = Some v"
    and "\<And>t' kd'. m (encode_row key t' kd') \<noteq> None \<Longrightarrow> encode_row key t kd \<le> encode_row key t' kd'"
  shows "mv_read m key (- 1) = (if kd = Deletion then None else Some v)"
  using mv_read_least [of m key t kd v "- 1"] assms by simp

lemma window_rows:
  assumes "window m U p" "sorted_entries m p es"
  obtains rs where "es = map row_entry rs" "grouped rs" "fst ` set rs \<subseteq> U"
proof -
  have mem: "(k, v) \<in> set es \<longleftrightarrow> m k = Some v \<and> p k" for k v using assms(2) by (auto simp: sorted_entries_def)
  then obtain rs where rs: "es = map row_entry rs"
    using rows_of_entries [of es] assms(1) unfolding window_def by (metis option.distinct(1))
  have "uk \<in> U" if "(uk, t, kd, v) \<in> set rs" for uk t kd v
  proof -
    have "row_entry (uk, t, kd, v) \<in> set es" using that rs by (auto simp del: row_entry_simp)
    then have "m (encode_row uk t kd) = Some v" "p (encode_row uk t kd)" using mem by auto
    then obtain uk' t' kd' where "encode_row uk t kd = encode_row uk' t' kd'" "uk' \<in> U"
      using assms(1) unfolding window_def by (metis option.distinct(1))
    then show ?thesis by simp
  qed
  then have U: "fst ` set rs \<subseteq> U" by auto
  moreover have "grouped rs"
    using sorted_rows_grouped [of U rs] assms U rs by (auto simp: window_def sorted_entries_def)
  ultimately show thesis using that rs by blast
qed

definition row_of :: "bytes \<Rightarrow> bytes \<times> bytes \<Rightarrow> bool" where
  "row_of uk e \<longleftrightarrow> (\<exists>t kd. fst e = encode_row uk t kd)"

lemma find_row_of: "find (row_of uk) (map row_entry rs) = map_option row_entry (find (\<lambda>r. fst r = uk) rs)"
proof (induction rs)
  case (Cons r rs)
  have "row_of uk (row_entry r) \<longleftrightarrow> fst r = uk" by (cases r) (auto simp: row_of_def)
  then show ?case using Cons by simp
qed simp

lemma head_item_current:
  assumes w: "window m U p" and es: "sorted_entries m p (map row_entry rs)" and U: "fst ` set rs \<subseteq> U"
  shows "head_item rs uk = (if p uk then current m U uk else None)"
proof -
  have mem: "(encode_row uk t kd, v) \<in> row_entry ` set rs \<longleftrightarrow> m (encode_row uk t kd) = Some v \<and> p (encode_row uk t kd)"
    for t kd v using es by (auto simp: sorted_entries_def)
  have row: "(uk, t, kd, v) \<in> set rs \<longleftrightarrow> m (encode_row uk t kd) = Some v \<and> p (encode_row uk t kd)" for t kd v
    using mem [of t kd v] by (auto simp: image_iff row_entry_def)
  show ?thesis
  proof (cases "find (\<lambda>r. fst r = uk) rs")
    case None
    have "current m U uk = None" if "p uk"
    proof (cases "uk \<in> U")
      case True
      have "m (encode_row uk t kd) = None" for t kd
        using None row True that w by (force simp: find_None_iff window_def)
      then show ?thesis by (simp add: current_def mv_read_None)
    qed (simp add: current_def)
    then show ?thesis using None by (simp add: head_item_def)
  next
    case (Some r)
    obtain t kd v where r: "r = (uk, t, kd, v)" "(uk, t, kd, v) \<in> set rs"
      using find_SomeD [OF Some] by (cases r) auto
    then have uk: "uk \<in> U" "p uk" "m (encode_row uk t kd) = Some v" using U row w by (auto simp: window_def)
    have "encode_row uk t kd \<le> encode_row uk t' kd'" if "m (encode_row uk t' kd') \<noteq> None" for t' kd'
    proof -
      from that obtain v' where "m (encode_row uk t' kd') = Some v'" by auto
      then have v': "(uk, t', kd', v') \<in> set rs" using row uk w by (auto simp: window_def)
      have "sorted_wrt (<) (map fst (map row_entry rs))" using es by (simp add: sorted_entries_def)
      moreover have "find (row_of uk) (map row_entry rs) = Some (row_entry r)"
        using Some by (simp add: find_row_of)
      moreover have "row_entry (uk, t', kd', v') \<in> set (map row_entry rs)" using v' by (simp del: row_entry_simp)
      moreover have "row_of uk (row_entry (uk, t', kd', v'))" by (auto simp: row_of_def)
      ultimately have "fst (row_entry r) \<le> fst (row_entry (uk, t', kd', v'))" by (rule find_sorted_least)
      then show ?thesis using r(1) by simp
    qed
    then have "mv_read m uk (- 1) = (if kd = Deletion then None else Some v)"
      using uk(3) by (intro mv_read_max_least) auto
    then show ?thesis using Some r(1) uk by (cases kd) (simp_all add: head_item_def current_def)
  qed
qed

text \<open>A listing is the sorted list of the current values of the window's keys.\<close>

lemma latest_loop_current:
  assumes "window m U p" "sorted_entries m p es"
  shows "\<exists>L. latest_loop None es = map Inr L \<and> rev_loop None (rev es) = map Inr (rev L)
    \<and> sorted_entries (current m U) p L"
proof -
  obtain rs where rs: "es = map row_entry rs" "grouped rs" "fst ` set rs \<subseteq> U" by (rule window_rows [OF assms])
  have "sorted_entries (current m U) p (newest None rs)"
    using newest_spec [of rs None] rs head_item_current [OF assms(1), of rs] assms(2)
    by (auto simp: sorted_entries_def split: if_splits)
  moreover have "rev_loop None (rev es) = map Inr (rev (newest None rs))"
    using rev_loop_rev [OF rs(2)] by (simp add: rs(1) latest_loop_newest rev_map)
  ultimately show ?thesis using latest_loop_newest [of None rs] rs(1) by auto
qed

end
