(* ===== verification/Tx.thy ===== *)
theory Tx
  imports Mvcc_List
begin

text \<open>
  The transaction of \<open>swarm/db/src/store/fjall/tx.rs\<close>: its state, the monad its methods run in
  (a method that fails keeps what it wrote before, as the Rust \<open>&mut self\<close> does), the low-level
  reads and writes on encoded keys, and \<open>write_scope\<close>. The transaction reads its own writes; which
  reads the engine tracks for conflict detection does not change what they return.
\<close>

section \<open>State and results\<close>

text \<open>Durations in nanoseconds, instants as the time since an arbitrary start.\<close>

type_synonym duration = nat
type_synonym instant = nat

record 's transaction =
  tx_ks :: 's
  tx_time :: u64
  tx_node :: bytes
  active_scopes :: "scope list"
  tx_retention_period :: "duration option"
  tx_idle_timeout :: "duration option"
  tx_last_used :: instant

type_synonym ('st, 'a) op = "'st \<Rightarrow> (tx_error + 'a) \<times> 'st"

definition tret :: "'a \<Rightarrow> ('st, 'a) op" where
  "tret a = (\<lambda>st. (Inr a, st))"

definition tbind :: "('st, 'a) op \<Rightarrow> ('a \<Rightarrow> ('st, 'b) op) \<Rightarrow> ('st, 'b) op" where
  "tbind m f = (\<lambda>st. case m st of (Inl e, st') \<Rightarrow> (Inl e, st') | (Inr a, st') \<Rightarrow> f a st')"

definition tlift :: "tx_error + 'a \<Rightarrow> ('st, 'a) op" where
  "tlift r = (\<lambda>st. (r, st))"

definition tread :: "('s \<Rightarrow> tx_error + 'a) \<Rightarrow> ('s transaction, 'a) op" where
  "tread f = (\<lambda>tx. (f (tx_ks tx), tx))"

definition twrite :: "('s \<Rightarrow> 's) \<Rightarrow> ('s transaction, unit) op" where
  "twrite f = (\<lambda>tx. (Inr (), tx\<lparr>tx_ks := f (tx_ks tx)\<rparr>))"

fun tfold :: "('a \<Rightarrow> ('st, unit) op) \<Rightarrow> 'a list \<Rightarrow> ('st, unit) op" where
  "tfold f [] = tret ()"
| "tfold f (x # xs) = tbind (f x) (\<lambda>_. tfold f xs)"

section \<open>Opening a transaction\<close>

record transaction_options =
  opt_retention_period :: "duration option"
  opt_idle_timeout :: "duration option"

definition tx_start :: "'s \<Rightarrow> u64 \<times> bytes \<Rightarrow> instant \<Rightarrow> transaction_options \<Rightarrow> 's transaction" where
  "tx_start ks ts now opts =
    \<lparr>tx_ks = ks, tx_time = fst ts, tx_node = snd ts, active_scopes = [],
     tx_retention_period = opt_retention_period opts, tx_idle_timeout = opt_idle_timeout opts,
     tx_last_used = now\<rparr>"

definition touch :: "instant \<Rightarrow> 's transaction \<Rightarrow> 's transaction" where
  "touch now tx = tx\<lparr>tx_last_used := now\<rparr>"

text \<open>\<open>Instant::duration_since\<close> saturates at zero, as \<open>nat\<close> subtraction does.\<close>

definition idle_expired :: "'s transaction \<Rightarrow> instant \<Rightarrow> bool" where
  "idle_expired tx now =
    (case tx_idle_timeout tx of None \<Rightarrow> False | Some timeout \<Rightarrow> now - tx_last_used tx \<ge> timeout)"

definition split_ts :: "'s transaction \<Rightarrow> u64 \<times> bytes" where
  "split_ts tx = (tx_time tx, tx_node tx)"

definition write_scope :: "scope \<Rightarrow> ('s transaction, u64) op" where
  "write_scope sc = tbind (tlift (lift_enc (scope_key sc))) (\<lambda>_ tx.
     (Inr (tx_time tx), tx\<lparr>active_scopes := List.insert sc (active_scopes tx)\<rparr>))"

section \<open>Reads and writes on encoded keys\<close>

definition put_at :: "'s engine \<Rightarrow> ser_error + bytes \<Rightarrow> bytes \<Rightarrow> u64 \<Rightarrow> ('s transaction, unit) op" where
  "put_at K enc value ts = tbind (tlift (lift_enc enc)) (\<lambda>key. twrite (\<lambda>s. put_at_raw K s key value ts))"

definition put_raw :: "'s engine \<Rightarrow> bytes \<Rightarrow> bytes \<Rightarrow> ('s transaction, unit) op" where
  "put_raw K key value = (\<lambda>tx. twrite (\<lambda>s. put_at_raw K s key value (fst (split_ts tx))) tx)"

definition tx_put :: "'s engine \<Rightarrow> ser_error + bytes \<Rightarrow> bytes \<Rightarrow> ('s transaction, unit) op" where
  "tx_put K enc value = tbind (tlift (lift_enc enc)) (\<lambda>key. put_raw K key value)"

definition put_if_absent :: "'s engine \<Rightarrow> ser_error + bytes \<Rightarrow> bytes \<Rightarrow> ('s transaction, bool) op" where
  "put_if_absent K enc value = tbind (tlift (lift_enc enc)) (\<lambda>key tx.
     case put_if_absent_raw K (tx_ks tx) key value (fst (split_ts tx)) of
       Inl e \<Rightarrow> (Inl e, tx)
     | Inr (done, s) \<Rightarrow> (Inr done, tx\<lparr>tx_ks := s\<rparr>))"

definition erase_at :: "'s engine \<Rightarrow> ser_error + bytes \<Rightarrow> u64 \<Rightarrow> ('s transaction, unit) op" where
  "erase_at K enc ts = tbind (tlift (lift_enc enc)) (\<lambda>key. twrite (\<lambda>s. erase_at_raw K s key ts))"

definition erase_raw :: "'s engine \<Rightarrow> bytes \<Rightarrow> ('s transaction, unit) op" where
  "erase_raw K key = (\<lambda>tx. twrite (\<lambda>s. erase_at_raw K s key (fst (split_ts tx))) tx)"

definition tx_erase :: "'s engine \<Rightarrow> ser_error + bytes \<Rightarrow> ('s transaction, unit) op" where
  "tx_erase K enc = tbind (tlift (lift_enc enc)) (\<lambda>key. erase_raw K key)"

definition get_from :: "'s engine \<Rightarrow> ser_error + bytes \<Rightarrow> u64 \<Rightarrow> ('s transaction, (bytes \<times> bytes) option) op" where
  "get_from K enc ts = tbind (tlift (lift_enc enc)) (\<lambda>key. tread (\<lambda>s. get_from_raw K s key ts))"

definition tx_get :: "'s engine \<Rightarrow> ser_error + bytes \<Rightarrow> ('s transaction, (bytes \<times> bytes) option) op" where
  "tx_get K enc = get_from K enc (- 1)"

text \<open>The last key under a prefix, and whether there is one.\<close>

definition find_last_key_untracked_raw :: "'s engine \<Rightarrow> 's \<Rightarrow> bytes \<Rightarrow> bytes option" where
  "find_last_key_untracked_raw K s key =
    (case rev (ks_prefix K s key) of [] \<Rightarrow> None | (k, v) # _ \<Rightarrow> Some k)"

definition find_last_key_untracked :: "'s engine \<Rightarrow> ser_error + bytes \<Rightarrow> ('s transaction, bytes option) op" where
  "find_last_key_untracked K enc =
    tbind (tlift (lift_enc enc)) (\<lambda>key. tread (\<lambda>s. Inr (find_last_key_untracked_raw K s key)))"

definition contains_key_raw_untracked :: "'s engine \<Rightarrow> 's \<Rightarrow> bytes \<Rightarrow> bool" where
  "contains_key_raw_untracked K s key = (ks_prefix K s key \<noteq> [])"

definition contains_key_untracked :: "'s engine \<Rightarrow> ser_error + bytes \<Rightarrow> ('s transaction, bool) op" where
  "contains_key_untracked K enc =
    tbind (tlift (lift_enc enc)) (\<lambda>key. tread (\<lambda>s. Inr (contains_key_raw_untracked K s key)))"

section \<open>Running methods\<close>

lemma op_simps [simp]:
  "tret a st = (Inr a, st)"
  "tlift r st = (r, st)"
  "tread f tx = (f (tx_ks tx), tx)"
  "twrite w tx = (Inr (), tx\<lparr>tx_ks := w (tx_ks tx)\<rparr>)"
  by (simp_all add: tret_def tlift_def tread_def twrite_def)

lemma tbind_apply: "tbind m f st = (case m st of (Inl e, st') \<Rightarrow> (Inl e, st') | (Inr a, st') \<Rightarrow> f a st')"
  by (simp add: tbind_def)

lemma tbind_Inr [simp]: "m st = (Inr a, st') \<Longrightarrow> tbind m f st = f a st'"
  by (simp add: tbind_def)

lemma tbind_Inl [simp]: "m st = (Inl e, st') \<Longrightarrow> tbind m f st = (Inl e, st')"
  by (simp add: tbind_def)

lemma tbind_tlift [simp]: "tbind (tlift r) f st = (case r of Inl e \<Rightarrow> (Inl e, st) | Inr a \<Rightarrow> f a st)"
  by (simp add: tbind_def)

lemma tbind_InrE:
  assumes "tbind m f st = (Inr b, st'')"
  obtains a st' where "m st = (Inr a, st')" "f a st' = (Inr b, st'')"
  using assms by (auto simp: tbind_def split: prod.splits sum.splits)

lemma lift_enc_simps [simp]: "lift_enc (Inr k) = Inr k" "lift_enc (Inl e) = Inl (Tx_Key (Ke_Encode e))"
  by (simp_all add: lift_enc_def)

text \<open>An invariant of the state that every step of a method keeps is kept by the method.\<close>

definition keeps :: "('st \<Rightarrow> bool) \<Rightarrow> ('st, 'a) op \<Rightarrow> bool" where
  "keeps I m \<longleftrightarrow> (\<forall>st. I st \<longrightarrow> I (snd (m st)))"

named_theorems keeps_intros \<open>preservation of an invariant by the parts of a method\<close>

lemma keepsD: "keeps I m \<Longrightarrow> I st \<Longrightarrow> I (snd (m st))"
  by (simp add: keeps_def)

lemma keeps_tret [keeps_intros]: "keeps I (tret a)"
  by (simp add: keeps_def)

lemma keeps_tlift [keeps_intros]: "keeps I (tlift r)"
  by (simp add: keeps_def)

lemma keeps_tread [keeps_intros]: "keeps I (tread f)"
  by (simp add: keeps_def)

lemma keeps_twrite: "(\<And>tx. I tx \<Longrightarrow> I (tx\<lparr>tx_ks := w (tx_ks tx)\<rparr>)) \<Longrightarrow> keeps I (twrite w)"
  by (simp add: keeps_def)

lemma keeps_tbind [keeps_intros]: "keeps I m \<Longrightarrow> (\<And>a. keeps I (f a)) \<Longrightarrow> keeps I (tbind m f)"
  unfolding keeps_def tbind_def by (auto split: prod.splits sum.splits)

lemma keeps_tfold [keeps_intros]: "(\<And>x. x \<in> set xs \<Longrightarrow> keeps I (f x)) \<Longrightarrow> keeps I (tfold f xs)"
  by (induction xs) (auto intro!: keeps_intros)

lemma keeps_tbind_post:
  assumes "keeps I m" "\<And>st a st'. m st = (Inr a, st') \<Longrightarrow> Q a" "\<And>a. Q a \<Longrightarrow> keeps I (f a)"
  shows "keeps I (tbind m f)"
  unfolding keeps_def
proof (intro allI impI)
  fix st assume I: "I st"
  obtain r st' where m: "m st = (r, st')" by force
  then have "I st'" using assms(1) I by (metis keepsD snd_conv)
  then show "I (snd (tbind m f st))" using m assms(2,3) by (cases r) (auto simp: keeps_def)
qed

lemma keeps_option [keeps_intros]:
  "keeps I m \<Longrightarrow> (\<And>a. x = Some a \<Longrightarrow> keeps I (f a)) \<Longrightarrow> keeps I (case_option m f x)"
  by (cases x) simp_all

lemma keeps_prod: "(\<And>a b. x = (a, b) \<Longrightarrow> keeps I (f a b)) \<Longrightarrow> keeps I (case_prod f x)"
  by (cases x) simp

lemma keeps_if [keeps_intros]: "(c \<Longrightarrow> keeps I a) \<Longrightarrow> (\<not> c \<Longrightarrow> keeps I b) \<Longrightarrow> keeps I (if c then a else b)"
  by simp

lemma keeps_tlift_bind:
  "(\<And>a. r = Inr a \<Longrightarrow> keeps I (f a)) \<Longrightarrow> keeps I (tbind (tlift r) f)"
  by (cases r) (auto simp: keeps_def)

section \<open>Scopes written to\<close>

lemma str_key_ok: "utf8_valid s \<Longrightarrow> name_ok s \<longleftrightarrow> 0 \<notin> set s"
  by (simp add: name_ok_def)

text \<open>A scope with a NUL in one of its names is refused and leaves the transaction as it was.\<close>

abbreviation nul_error :: ser_error where
  "nul_error \<equiv> Ser_Message ''cannot serialize a str containing NUL''"

definition scope_nul_free :: "scope \<Rightarrow> bool" where
  "scope_nul_free sc \<longleftrightarrow> 0 \<notin> set (namespace sc) \<and> 0 \<notin> set (database sc) \<and> 0 \<notin> set (schema sc)"

lemma scope_key_eq:
  "scope_key sc = (if scope_nul_free sc then Inr (scope_bytes sc) else Inl nul_error)"
  by (simp add: scope_key_def key_segments_eqs builder_encode_def encode_steps_def scope_fields_def ser_pre_def
      scope_bytes_def serialize_str_def numeral_eq_Suc scope_nul_free_def)

lemma write_scope_apply:
  "write_scope sc tx = (if scope_nul_free sc
     then (Inr (tx_time tx), tx\<lparr>active_scopes := List.insert sc (active_scopes tx)\<rparr>)
     else (Inl (Tx_Key (Ke_Encode nul_error)), tx))"
  by (simp add: write_scope_def scope_key_eq)

lemma scope_ok_iff: "scope_ok sc \<longleftrightarrow> scope_nul_free sc
    \<and> utf8_valid (namespace sc) \<and> utf8_valid (database sc) \<and> utf8_valid (schema sc)"
  by (auto simp: scope_ok_def name_ok_def scope_nul_free_def)

end
