(* ===== verification/Version_Index.thy ===== *)
theory Version_Index
  imports Tx
begin

text \<open>
  The version index of \<open>swarm/db/src/store/fjall/tx.rs\<close>: every data row has a row in the index
  under its version, so that one version of a scope can be deleted (\<open>delete_version_rows\<close>) or served
  to a peer (\<open>changeset_for\<close>) without scanning the scope. The invariant \<open>store_wf\<close> says what a
  keyspace holds and that index and data agree.
\<close>

section \<open>Operations on one version of a scope\<close>

fun delete_index_loop :: "'s engine \<Rightarrow> bytes list \<Rightarrow> ('s transaction, unit) op" where
  "delete_index_loop K [] = tret ()"
| "delete_index_loop K (ikey # index_keys) =
    tbind (tlift (version_index_data_key ikey)) (\<lambda>dkey.
      tbind (twrite (\<lambda>s. ks_remove K (ks_remove K s dkey) ikey)) (\<lambda>_. delete_index_loop K index_keys))"

definition delete_version_rows :: "'s engine \<Rightarrow> bytes \<Rightarrow> u64 \<Rightarrow> ('s transaction, nat) op" where
  "delete_version_rows K scope_raw ts =
    tbind (tread (\<lambda>s. Inr (map fst (ks_prefix K s (version_index_prefix ts scope_raw))))) (\<lambda>index_keys.
      tbind (delete_index_loop K index_keys) (\<lambda>_. tret (length index_keys)))"

definition delete_scope_at_version :: "'s engine \<Rightarrow> scope \<Rightarrow> u64 \<Rightarrow> ('s transaction, unit) op" where
  "delete_scope_at_version K sc ts =
    tbind (tlift (lift_enc (scope_key sc))) (\<lambda>raw.
      tbind (delete_version_rows K raw ts) (\<lambda>count. tret ()))"

definition delete_chunk :: "'s engine \<Rightarrow> sync_point \<Rightarrow> ('s transaction, unit) op" where
  "delete_chunk K sp =
    tbind (tlift (lift_enc (scope_key (sp_scope sp)))) (\<lambda>raw.
      tbind (delete_version_rows K raw (sp_ts sp)) (\<lambda>_. tret ()))"

definition forget_chunk :: "'s engine \<Rightarrow> sync_point \<Rightarrow> ('s transaction, unit) op" where
  "forget_chunk K sp =
    tbind (tlift (lift_enc (sync_point_key sp))) (\<lambda>key.
      tbind (delete_chunk K sp) (\<lambda>_. twrite (\<lambda>s. ks_remove K s key)))"

type_synonym changes = "(bytes \<times> bytes option) list"

text \<open>What the index row of a user key stands for: the value of its data row, or a deletion.\<close>

definition changeset_value :: "rows \<Rightarrow> bytes \<Rightarrow> key_kind \<Rightarrow> tx_error + bytes option" where
  "changeset_value m dkey kind =
    (case kind of
       Insertion \<Rightarrow> (case m dkey of None \<Rightarrow> Inl Tx_MissingRow | Some v \<Rightarrow> Inr (Some v))
     | Deletion \<Rightarrow> Inr None)"

fun changeset_loop :: "rows \<Rightarrow> bytes option \<Rightarrow> bytes list \<Rightarrow> tx_error + changes" where
  "changeset_loop m prev [] = Inr []"
| "changeset_loop m prev (ikey # it) =
    and_then (version_index_data_key ikey) (\<lambda>dkey.
      and_then (decode_row dkey) (\<lambda>(user_key, _, kind).
        if prev = Some user_key then changeset_loop m prev it
        else and_then (changeset_value m dkey kind) (\<lambda>value.
          and_then (changeset_loop m (Some user_key) it) (\<lambda>out. Inr ((user_key, value) # out)))))"

definition changeset_for :: "'s engine \<Rightarrow> 's \<Rightarrow> sync_point \<Rightarrow> tx_error + changes" where
  "changeset_for K s sp =
    and_then (lift_enc (scope_key (sp_scope sp))) (\<lambda>raw.
      changeset_loop (ks_get K s) None (map fst (ks_prefix K s (version_index_prefix (sp_ts sp) raw))))"

section \<open>User keys\<close>

definition in_scope :: "scope \<Rightarrow> bytes \<Rightarrow> bool" where
  "in_scope sc uk \<longleftrightarrow> prefix (scope_bytes sc) uk"

text \<open>
  What the store relies on of the keys its callers write: each starts with the encoding of a
  scope, and no row of one lies between the two rows another may have at a version.
\<close>

locale user_keys =
  fixes U :: "bytes set"
  assumes scoped: "uk \<in> U \<Longrightarrow> \<exists>sc. scope_ok sc \<and> in_scope sc uk"
    and separated: "uk \<in> U \<Longrightarrow> uk' \<in> U \<Longrightarrow>
      prefix (uk @ write_word (- 1 - t :: u64) @ [0, 0, 0]) (encode_row uk' t kd) \<Longrightarrow> uk = uk'"

section \<open>Regions of the keyspace\<close>

definition store_wf :: "bytes set \<Rightarrow> rows \<Rightarrow> bool" where
  "store_wf U m \<longleftrightarrow>
    (\<forall>k. m k \<noteq> None \<longrightarrow> (\<exists>uk\<in>U. \<exists>t kd. k = encode_row uk t kd)
      \<or> (\<exists>uk\<in>U. \<exists>t kd. k = version_index_key t (encode_row uk t kd))
      \<or> (\<exists>sp. sync_point_ok sp \<and> k = sync_point_bytes sp) \<or> k = version_index_flag)
    \<and> (\<forall>uk\<in>U. \<forall>t kd. m (encode_row uk t kd) = None \<longleftrightarrow> m (version_index_key t (encode_row uk t kd)) = None)"

lemma store_wf_indexed:
  "store_wf U m \<Longrightarrow> uk \<in> U \<Longrightarrow> m (version_index_key t (encode_row uk t kd)) = None \<longleftrightarrow> m (encode_row uk t kd) = None"
  by (simp add: store_wf_def)

lemma store_wfE:
  assumes "store_wf U m" "m k \<noteq> None"
  obtains (row) uk t kd where "uk \<in> U" "k = encode_row uk t kd"
  | (index) uk t kd where "uk \<in> U" "k = version_index_key t (encode_row uk t kd)"
  | (point) sp where "sync_point_ok sp" "k = sync_point_bytes sp"
  | (flag) "k = version_index_flag"
  using assms unfolding store_wf_def by blast

text \<open>The first byte of a key tells its region.\<close>

lemma hd_index [simp]: "hd (version_index_key t r) = 94"
  by (simp add: version_index_key_def version_index_tag_def)

lemma hd_point [simp]: "hd (sync_point_bytes sp) = 35"
  by (simp add: sync_point_bytes_def)

lemma hd_flag [simp]: "hd version_index_flag = 33"
  by (simp add: version_index_flag_def)

lemma regions_distinct [simp]:
  "version_index_key t r \<noteq> sync_point_bytes sp" "sync_point_bytes sp \<noteq> version_index_key t r"
  "version_index_key t r \<noteq> version_index_flag" "version_index_flag \<noteq> version_index_key t r"
  "sync_point_bytes sp \<noteq> version_index_flag" "version_index_flag \<noteq> sync_point_bytes sp"
  by (rule notI, drule arg_cong [of _ _ hd], simp)+

context user_keys
begin

lemma row_tag: "uk \<in> U \<Longrightarrow> hd (encode_row uk t kd) = 64"
  using scoped [of uk] by (auto simp: in_scope_def prefix_def scope_bytes_def encode_row_def)

lemma row_data_key [simp]: "uk \<in> U \<Longrightarrow> data_key uk"
  using scoped [of uk] by (auto simp: in_scope_def prefix_def scope_bytes_def data_key_def)

lemma row_regions [simp]:
  assumes "uk \<in> U"
  shows "encode_row uk t kd \<noteq> version_index_key t' r" "version_index_key t' r \<noteq> encode_row uk t kd"
    "encode_row uk t kd \<noteq> sync_point_bytes sp" "sync_point_bytes sp \<noteq> encode_row uk t kd"
    "encode_row uk t kd \<noteq> version_index_flag" "version_index_flag \<noteq> encode_row uk t kd"
  using row_tag [OF assms, of t kd] by (auto dest: arg_cong [of _ _ hd])

text \<open>A scope's prefix meets the rows of the keys in the scope.\<close>

lemma scope_of_row:
  assumes "scope_ok sc" "uk \<in> U"
  shows "prefix (scope_bytes sc) (encode_row uk t kd) \<longleftrightarrow> in_scope sc uk"
proof
  assume p: "prefix (scope_bytes sc) (encode_row uk t kd)"
  obtain sc' where sc': "scope_ok sc'" "in_scope sc' uk" using scoped [OF assms(2)] by blast
  then obtain r where "encode_row uk t kd = scope_bytes sc' @ r" by (auto simp: in_scope_def prefix_def encode_row_def)
  then have "sc = sc'" using scope_bytes_prefix [OF assms(1) sc'(1)] p by auto
  then show "in_scope sc uk" using sc' by simp
qed (auto simp: in_scope_def encode_row_def)

lemma in_scope_unique: "scope_ok sc \<Longrightarrow> scope_ok sc' \<Longrightarrow> in_scope sc uk \<Longrightarrow> in_scope sc' uk \<Longrightarrow> sc = sc'"
  by (metis in_scope_def prefix_def scope_bytes_prefix)

lemma index_prefix_iff:
  assumes "scope_ok sc" "uk \<in> U"
  shows "prefix (version_index_prefix ts (scope_bytes sc)) (version_index_key t (encode_row uk t kd))
    \<longleftrightarrow> t = ts \<and> in_scope sc uk"
  using scope_of_row [OF assms]
  by (auto simp: version_index_prefix_def version_index_key_def prefix_append_len)

lemma index_prefix_region:
  "prefix (version_index_prefix ts r) k \<Longrightarrow> hd k = 94"
  by (auto simp: version_index_prefix_def version_index_key_def version_index_tag_def prefix_def)

lemma index_prefix_key:
  assumes wf: "store_wf U m" and sc: "scope_ok sc"
  shows "m k \<noteq> None \<and> prefix (version_index_prefix ts (scope_bytes sc)) k
    \<longleftrightarrow> (\<exists>uk\<in>U. \<exists>kd. in_scope sc uk \<and> k = version_index_key ts (encode_row uk ts kd) \<and> m (encode_row uk ts kd) \<noteq> None)"
    (is "?l \<longleftrightarrow> ?r")
proof
  assume l: ?l
  with wf have "m k \<noteq> None" by simp
  with wf show ?r
  proof (cases rule: store_wfE)
    case (index uk t kd)
    then show ?thesis using l index_prefix_iff [OF sc index(1)] store_wf_indexed [OF wf index(1)] by auto
  next
    case (row uk t kd)
    then show ?thesis using l index_prefix_region [of ts _ k] row_tag by auto
  qed (use l index_prefix_region [of ts _ k] in auto)
next
  assume ?r
  then obtain uk kd where "uk \<in> U" "in_scope sc uk" "k = version_index_key ts (encode_row uk ts kd)"
    "m (encode_row uk ts kd) \<noteq> None" by blast
  then show ?l using store_wf_indexed [OF wf, of uk ts kd] index_prefix_iff [OF sc, of uk ts ts kd] by simp
qed

section \<open>The invariant is kept\<close>

lemma store_wf_write_row:
  assumes "store_wf U m" "uk \<in> U"
  shows "store_wf U (m(version_index_key t (encode_row uk t kd) \<mapsto> x, encode_row uk t kd \<mapsto> y))"
  using assms unfolding store_wf_def by (auto simp: fun_upd_apply)

lemma store_wf_remove_row:
  assumes "store_wf U m" "uk \<in> U"
  shows "store_wf U (m(encode_row uk t kd := None, version_index_key t (encode_row uk t kd) := None))"
  using assms unfolding store_wf_def by (auto simp: fun_upd_apply)

lemma store_wf_point: "store_wf U m \<Longrightarrow> sync_point_ok sp \<Longrightarrow> store_wf U (m(sync_point_bytes sp := x))"
  unfolding store_wf_def by (auto simp: fun_upd_apply)

lemma store_wf_flag: "store_wf U m \<Longrightarrow> store_wf U (m(version_index_flag := x))"
  unfolding store_wf_def by (auto simp: fun_upd_apply)

lemma store_wf_empty: "store_wf U (\<lambda>_. None)"
  by (simp add: store_wf_def)

lemma store_wf_data_wf:
  assumes "store_wf U m"
  shows "data_wf m"
  unfolding data_wf_def
proof (intro allI impI)
  fix k assume "m k \<noteq> None" and k: "data_key k"
  then have "hd k = 64" by (auto simp: data_key_def prefix_def)
  from assms \<open>m k \<noteq> None\<close> show "\<exists>uk t kd. k = encode_row uk t kd \<and> data_key uk"
    by (cases rule: store_wfE) (use \<open>hd k = 64\<close> row_data_key in auto)
qed

end

section \<open>Dropping a version\<close>

definition version_row :: "bytes set \<Rightarrow> scope \<Rightarrow> u64 \<Rightarrow> bytes \<Rightarrow> bool" where
  "version_row U sc ts r \<longleftrightarrow> (\<exists>uk\<in>U. \<exists>kd. in_scope sc uk \<and> r = encode_row uk ts kd)"

definition drop_version :: "bytes set \<Rightarrow> scope \<Rightarrow> u64 \<Rightarrow> rows \<Rightarrow> rows" where
  "drop_version U sc ts m = (\<lambda>k. if version_row U sc ts k \<or> (\<exists>r. version_row U sc ts r \<and> k = version_index_key ts r)
     then None else m k)"

context user_keys
begin

lemma mv_drop_version:
  "uk \<in> U \<Longrightarrow> mv (drop_version U sc ts m) uk t = (if t = ts \<and> in_scope sc uk then None else mv m uk t)"
  by (auto simp: mv_def drop_version_def version_row_def)

lemma drop_version_other:
  "drop_version U sc ts m (sync_point_bytes sp) = m (sync_point_bytes sp)"
  "drop_version U sc ts m version_index_flag = m version_index_flag"
  by (auto simp: drop_version_def version_row_def)

lemma store_wf_drop_version:
  assumes "store_wf U m"
  shows "store_wf U (drop_version U sc ts m)"
proof -
  have "drop_version U sc ts m (encode_row uk t kd) = (if t = ts \<and> in_scope sc uk then None else m (encode_row uk t kd))"
    "drop_version U sc ts m (version_index_key t (encode_row uk t kd))
      = (if t = ts \<and> in_scope sc uk then None else m (version_index_key t (encode_row uk t kd)))"
    if "uk \<in> U" for uk t kd
    using that by (auto simp: drop_version_def version_row_def)
  moreover have "m k \<noteq> None" if "drop_version U sc ts m k \<noteq> None" for k
    using that by (auto simp: drop_version_def split: if_splits)
  ultimately show ?thesis using assms unfolding store_wf_def by auto
qed

end

locale user_store = keyspace K + user_keys U for K :: "'s engine" and U
begin

lemma delete_index_loop_run:
  assumes "\<forall>ik\<in>set iks. \<exists>r. ik = version_index_key ts r"
  shows "\<exists>s'. delete_index_loop K iks tx = (Inr (), tx\<lparr>tx_ks := s'\<rparr>)
    \<and> ks_get K s' = (\<lambda>k. if k \<in> set iks \<or> version_index_key ts k \<in> set iks then None else ks_get K (tx_ks tx) k)"
  using assms
proof (induction iks arbitrary: tx)
  case Nil
  show ?case by (intro exI [of _ "tx_ks tx"]) simp
next
  case (Cons ik iks)
  then obtain r where ik: "ik = version_index_key ts r" by auto
  let ?s = "ks_remove K (ks_remove K (tx_ks tx) r) ik"
  obtain s' where s': "delete_index_loop K iks (tx\<lparr>tx_ks := ?s\<rparr>) = (Inr (), tx\<lparr>tx_ks := s'\<rparr>)"
    "ks_get K s' = (\<lambda>k. if k \<in> set iks \<or> version_index_key ts k \<in> set iks then None else ks_get K ?s k)"
    using Cons.IH [of "tx\<lparr>tx_ks := ?s\<rparr>"] Cons.prems by (auto cong: if_cong)
  have "ks_get K ?s = (ks_get K (tx_ks tx))(r := None, ik := None)" by (simp add: get_remove)
  then have "ks_get K s' = (\<lambda>k. if k \<in> set (ik # iks) \<or> version_index_key ts k \<in> set (ik # iks) then None
      else ks_get K (tx_ks tx) k)"
    using s'(2) by (auto simp: fun_eq_iff ik)
  then show ?case using s'(1) ik by auto
qed

lemma delete_version_rows_run:
  assumes wf: "store_wf U (ks_get K (tx_ks tx))" and sc: "scope_ok sc"
  shows "\<exists>s'. delete_version_rows K (scope_bytes sc) ts tx
      = (Inr (card {r. version_row U sc ts r \<and> ks_get K (tx_ks tx) r \<noteq> None}), tx\<lparr>tx_ks := s'\<rparr>)
    \<and> ks_get K s' = drop_version U sc ts (ks_get K (tx_ks tx))"
proof -
  let ?m = "ks_get K (tx_ks tx)" and ?p = "version_index_prefix ts (scope_bytes sc)"
  let ?iks = "map fst (ks_prefix K (tx_ks tx) ?p)"
  have iks: "k \<in> set ?iks \<longleftrightarrow> (\<exists>r. version_row U sc ts r \<and> ?m r \<noteq> None \<and> k = version_index_key ts r)" for k
  proof -
    have "k \<in> set ?iks \<longleftrightarrow> ?m k \<noteq> None \<and> prefix ?p k" unfolding prefix_keys by simp
    then show ?thesis unfolding index_prefix_key [OF wf sc] version_row_def by blast
  qed
  obtain s' where s': "delete_index_loop K ?iks tx = (Inr (), tx\<lparr>tx_ks := s'\<rparr>)"
    "ks_get K s' = (\<lambda>k. if k \<in> set ?iks \<or> version_index_key ts k \<in> set ?iks then None else ?m k)"
    using delete_index_loop_run [of ?iks ts tx] iks by blast
  have "?m (version_index_key ts r) = None" if "version_row U sc ts r" "?m r = None" for r
    using that store_wf_indexed [OF wf] by (auto simp: version_row_def)
  then have rows: "ks_get K s' = drop_version U sc ts ?m"
    unfolding s'(2) iks drop_version_def by (auto simp: fun_eq_iff)
  have "distinct ?iks" using prefix_entries by (rule sorted_entries_distinct)
  then have "length ?iks = card (set ?iks)" by (rule distinct_card [symmetric])
  also have "set ?iks = version_index_key ts ` {r. version_row U sc ts r \<and> ?m r \<noteq> None}"
    unfolding set_eq_iff iks by (auto simp: image_iff)
  also have "card \<dots> = card {r. version_row U sc ts r \<and> ?m r \<noteq> None}"
    by (intro card_image) (auto simp: inj_on_def)
  finally show ?thesis using s'(1) rows by (auto simp: delete_version_rows_def)
qed

end

section \<open>Serving a version\<close>

text \<open>The first of the adjacent entries of each key.\<close>

fun first_of :: "'k option \<Rightarrow> ('k \<times> 'v) list \<Rightarrow> ('k \<times> 'v) list" where
  "first_of prev [] = []"
| "first_of prev ((k, v) # xs) = (if prev = Some k then first_of prev xs else (k, v) # first_of (Some k) xs)"

lemma first_of_spec:
  assumes "sorted_wrt R (map fst xs)"
    and "antisymp_on (set_option prev \<union> fst ` set xs) R"
    and "\<And>p x. prev = Some p \<Longrightarrow> x \<in> set xs \<Longrightarrow> R p (fst x)"
  shows "distinct (map fst (first_of prev xs))
    \<and> map_of (first_of prev xs) = (\<lambda>k. if prev = Some k then None else map_of xs k)"
  using assms
proof (induction xs arbitrary: prev)
  case (Cons x xs)
  obtain k v where x: "x = (k, v)" by force
  have IH: "distinct (map fst (first_of (Some k) xs))"
    "map_of (first_of (Some k) xs) = (\<lambda>k'. if k = k' then None else map_of xs k')"
    using Cons.IH [of "Some k"] Cons.prems(1) antisymp_on_subset [OF Cons.prems(2), of "insert k (fst ` set xs)"]
    by (auto simp: x)
  show ?case
  proof (cases "prev = Some k")
    case True
    then show ?thesis
      using Cons.IH [of prev] Cons.prems(1,3) antisymp_on_subset [OF Cons.prems(2), of "set_option prev \<union> fst ` set xs"]
      by (auto simp: fun_eq_iff x)
  next
    case False
    have notin: "map_of xs p = None" if "prev = Some p" for p
    proof (rule ccontr)
      assume "map_of xs p \<noteq> None"
      then have p: "p \<in> fst ` set xs" by (simp add: map_of_eq_None_iff)
      then have "R k p" "R p k" using Cons.prems(1) Cons.prems(3) [OF that, of x] x by auto
      then have "p = k" using antisymp_onD [OF Cons.prems(2), of p k] p x that by auto
      then show False using that False by simp
    qed
    have "k \<notin> fst ` set (first_of (Some k) xs)"
      using IH(2) by (metis (mono_tags) map_of_eq_None_iff)
    then show ?thesis using IH False notin x by (auto simp: fun_eq_iff)
  qed
qed (simp add: fun_eq_iff)

text \<open>A kind is one non-zero byte after three zero bytes.\<close>

lemma write_kind: "\<exists>b. write_word (kind_num kd) = [0, 0, 0, b] \<and> b \<noteq> 0"
proof -
  have "unat (kind_num kd) div 256 = 0" by (cases kd) simp_all
  moreover have "write_be n 0 = replicate n 0" for n
    by (induction n) (simp_all add: write_be.simps replicate_append_same)
  ultimately have "write_be (Suc 3) (unat (kind_num kd)) = replicate 3 0 @ [word_of_nat (unat (kind_num kd) mod 256)]"
    by (simp only: write_be.simps)
  moreover have "Suc 3 = 4" by simp
  moreover have "(word_of_nat (unat (kind_num kd) mod 256) :: byte) \<noteq> 0" by (cases kd) simp_all
  ultimately show ?thesis by (simp add: write_word_form(3)) (simp add: numeral_3_eq_3)
qed

context user_keys
begin

definition index_entry :: "u64 \<Rightarrow> bytes \<times> key_kind \<Rightarrow> bytes" where
  "index_entry ts x = version_index_key ts (encode_row (fst x) ts (snd x))"

definition row_stem :: "u64 \<Rightarrow> bytes \<Rightarrow> bytes" where
  "row_stem ts uk = uk @ write_word (- 1 - ts) @ [0, 0, 0]"

lemma encode_row_stem: "\<exists>b. encode_row uk ts kd = row_stem ts uk @ [b]"
  using write_kind [of kd] by (auto simp: encode_row_def row_stem_def)

lemma row_stem_inj: "inj_on (row_stem ts) U"
  by (auto simp: inj_on_def row_stem_def)

lemma row_stem_prefix:
  assumes "uk \<in> U" "uk' \<in> U" "prefix (row_stem ts uk) (row_stem ts uk')"
  shows "uk = uk'"
proof (rule separated [OF assms(1,2)])
  obtain b where "encode_row uk' ts Deletion = row_stem ts uk' @ [b]" using encode_row_stem by blast
  then have "prefix (row_stem ts uk) (encode_row uk' ts Deletion)" using assms(3) by (auto simp: prefix_def)
  then show "prefix (uk @ write_word (- 1 - ts) @ [0, 0, 0]) (encode_row uk' ts Deletion)" by (simp add: row_stem_def)
qed

lemma row_stem_le:
  assumes "uk \<in> U" "uk' \<in> U" "encode_row uk ts kd < encode_row uk' ts kd'"
  shows "row_stem ts uk \<le> row_stem ts uk'"
proof (rule ccontr)
  assume "\<not> row_stem ts uk \<le> row_stem ts uk'"
  then have less: "row_stem ts uk' < row_stem ts uk" by simp
  moreover have "\<not> prefix (row_stem ts uk') (row_stem ts uk)"
    using row_stem_prefix [OF assms(2,1)] less by auto
  ultimately have "encode_row uk' ts kd' < encode_row uk ts kd"
    using encode_row_stem [of uk ts kd] encode_row_stem [of uk' ts kd'] lex_less_append_not_prefix by metis
  then show False using assms(3) by simp
qed

lemma index_entry_less: "index_entry ts x < index_entry ts y \<longleftrightarrow> encode_row (fst x) ts (snd x) < encode_row (fst y) ts (snd y)"
  by (simp add: index_entry_def version_index_key_def)

lemma index_entry_inj: "inj (index_entry ts)"
  by (auto simp: inj_on_def index_entry_def)

lemma sorted_stems:
  assumes "fst ` set xs \<subseteq> U" "sorted_wrt (<) (map (index_entry ts) xs)"
  shows "sorted_wrt (\<lambda>a b. row_stem ts a \<le> row_stem ts b) (map fst xs)"
  using assms
proof (induction xs)
  case (Cons x xs)
  have "row_stem ts (fst x) \<le> row_stem ts (fst y)" if "y \<in> set xs" for y
    using Cons.prems that row_stem_le [of "fst x" "fst y" ts] by (auto simp: index_entry_less)
  then show ?case using Cons by auto
qed simp

text \<open>A deletion comes before an insertion of the same key and version.\<close>

lemma map_of_deletion:
  assumes "sorted_wrt (<) (map (index_entry ts) xs)"
  shows "map_of xs uk = (if (uk, Deletion) \<in> set xs then Some Deletion
    else if (uk, Insertion) \<in> set xs then Some Insertion else None)"
  using assms
proof (induction xs)
  case (Cons x xs)
  obtain uk' kd where x: "x = (uk', kd)" by force
  have "(uk', Deletion) \<notin> set xs" if "kd = Insertion"
    using Cons.prems that x by (auto simp: index_entry_less encode_row_less_iff)
  then show ?case using Cons x by (cases kd) auto
qed simp

definition change :: "rows \<Rightarrow> u64 \<Rightarrow> bytes \<times> key_kind \<Rightarrow> bytes \<times> bytes option" where
  "change m ts x = (fst x, if snd x = Deletion then None else m (encode_row (fst x) ts Insertion))"

lemma change_mem: "(uk, v) \<in> set (map (change m ts) xs) \<longleftrightarrow> (\<exists>kd. (uk, kd) \<in> set xs \<and> change m ts (uk, kd) = (uk, v))"
proof
  assume "(uk, v) \<in> set (map (change m ts) xs)"
  then obtain x where x: "x \<in> set xs" "change m ts x = (uk, v)" unfolding set_map by (metis imageE)
  then have "x = (uk, snd x)" by (simp add: change_def prod_eq_iff)
  then show "\<exists>kd. (uk, kd) \<in> set xs \<and> change m ts (uk, kd) = (uk, v)" using x by metis
next
  assume "\<exists>kd. (uk, kd) \<in> set xs \<and> change m ts (uk, kd) = (uk, v)"
  then obtain kd where kd: "(uk, kd) \<in> set xs" "change m ts (uk, kd) = (uk, v)" by blast
  have "change m ts (uk, kd) \<in> set (map (change m ts) xs)" unfolding set_map using kd(1) by (rule imageI)
  then show "(uk, v) \<in> set (map (change m ts) xs)" by (simp only: kd(2))
qed

lemma changeset_loop_run:
  assumes "\<forall>x\<in>set xs. m (encode_row (fst x) ts (snd x)) \<noteq> None"
  shows "changeset_loop m prev (map (index_entry ts) xs) = Inr (map (change m ts) (first_of prev xs))"
  using assms
proof (induction xs arbitrary: prev)
  case (Cons x xs)
  obtain uk kd where x: "x = (uk, kd)" by force
  obtain v where "m (encode_row uk ts kd) = Some v" using Cons.prems x by auto
  then have "changeset_value m (encode_row uk ts kd) kd = Inr (snd (change m ts x))"
    by (cases kd) (simp_all add: changeset_value_def change_def x)
  then show ?case using Cons by (simp add: x index_entry_def) (simp add: change_def)
qed simp

end

context user_store
begin

lemma changeset_for_run:
  assumes wf: "store_wf U (ks_get K s)" and sc: "scope_ok (sp_scope sp)"
  shows "\<exists>out. changeset_for K s sp = Inr out \<and> distinct (map fst out)
    \<and> set out = {(uk, v). uk \<in> U \<and> in_scope (sp_scope sp) uk \<and> mv (ks_get K s) uk (sp_ts sp) = Some v}"
proof -
  let ?m = "ks_get K s" and ?ts = "sp_ts sp" and ?sc = "sp_scope sp"
  let ?iks = "map fst (ks_prefix K s (version_index_prefix ?ts (scope_bytes ?sc)))"
  have iks: "k \<in> set ?iks \<longleftrightarrow> (\<exists>uk\<in>U. \<exists>kd. in_scope ?sc uk \<and> k = index_entry ?ts (uk, kd) \<and> ?m (encode_row uk ?ts kd) \<noteq> None)" for k
  proof -
    have "k \<in> set ?iks \<longleftrightarrow> ?m k \<noteq> None \<and> prefix (version_index_prefix ?ts (scope_bytes ?sc)) k"
      by (simp only: prefix_keys mem_Collect_eq)
    then show ?thesis by (simp only: index_prefix_key [OF wf sc] index_entry_def fst_conv snd_conv)
  qed
  then have "\<forall>k\<in>set ?iks. \<exists>x. k = index_entry ?ts x" by blast
  then obtain xs where xs: "?iks = map (index_entry ?ts) xs" using iffD2 [OF ex_map_conv] by blast
  have mem: "(uk, kd) \<in> set xs \<longleftrightarrow> uk \<in> U \<and> in_scope ?sc uk \<and> ?m (encode_row uk ?ts kd) \<noteq> None" for uk kd
  proof -
    have "(uk, kd) \<in> set xs \<longleftrightarrow> index_entry ?ts (uk, kd) \<in> set ?iks" unfolding xs set_map by (simp add: inj_image_mem_iff [OF index_entry_inj])
    then show ?thesis unfolding iks by (auto simp: index_entry_def)
  qed
  have sorted: "sorted_wrt (<) (map (index_entry ?ts) xs)"
    using prefix_entries [of s "version_index_prefix ?ts (scope_bytes ?sc)"] xs by (simp add: sorted_entries_def)
  have U: "fst ` set xs \<subseteq> U" using mem by auto
  have present: "\<forall>x\<in>set xs. ?m (encode_row (fst x) ?ts (snd x)) \<noteq> None" using mem by (metis prod.collapse)
  have "antisymp_on (fst ` set xs) (\<lambda>a b. row_stem ?ts a \<le> row_stem ?ts b)"
    using U inj_onD [OF row_stem_inj] by (intro antisymp_onI) (meson antisym subsetD)
  then have f: "distinct (map fst (first_of None xs))" "map_of (first_of None xs) = map_of xs"
    using first_of_spec [OF sorted_stems [OF U sorted], of None] by auto
  let ?out = "map (change ?m ?ts) (first_of None xs)"
  have "changeset_for K s sp = Inr ?out"
    using changeset_loop_run [of xs ?m ?ts None] present by (simp add: changeset_for_def scope_key_form sc xs)
  moreover have "distinct (map fst ?out)" using f(1) by (simp add: change_def comp_def)
  moreover have "(uk, v) \<in> set ?out \<longleftrightarrow> uk \<in> U \<and> in_scope ?sc uk \<and> mv ?m uk ?ts = Some v" for uk v
  proof -
    have "(uk, v) \<in> set ?out \<longleftrightarrow> (\<exists>kd. map_of xs uk = Some kd \<and> change ?m ?ts (uk, kd) = (uk, v))"
      using f(2) map_of_eq_Some_iff [OF f(1), of uk] change_mem [of uk v ?m ?ts "first_of None xs"] by simp
    then show ?thesis
      by (cases "?m (encode_row uk ?ts Deletion)"; cases "?m (encode_row uk ?ts Insertion)"; cases "uk \<in> U \<and> in_scope ?sc uk")
        (auto simp: map_of_deletion [OF sorted] mem mv_def change_def)
  qed
  ultimately show ?thesis by auto
qed

end

end
