(* ===== verification/Sync_Points.thy ===== *)
theory Sync_Points
  imports Version_Index
begin

text \<open>
  Sync points (\<open>swarm/db/src/store/fjall/tx.rs\<close>, \<open>swarm/db-commons/src/models/replication.rs\<close>): the
  record a commit leaves per scope it wrote to, with its metadata serialised by \<open>postcard\<close>, a
  parameter of the model. Here are the scans over them, the newest epoch of every version
  (\<open>collect_latest_heads\<close>), replicated changesets and \<open>commit\<close>.
\<close>

section \<open>Metadata\<close>

datatype sync_marker = Sm_Mutation | Sm_Deletion

record sync_meta =
  sm_parent :: "sync_point_id option"
  sm_parent_epoch :: "u64 option"
  sm_marker :: sync_marker
  sm_retention_period :: "duration option"

text \<open>\<open>postcard::to_allocvec\<close> and \<open>from_bytes\<close>, at one type.\<close>

record 'a postcard =
  to_allocvec :: "'a \<Rightarrow> bytes option"
  from_bytes :: "bytes \<Rightarrow> 'a option"

locale postcard_codec =
  fixes P :: "'a postcard" and ok :: "'a \<Rightarrow> bool"
  assumes from_to: "ok a \<Longrightarrow> \<exists>b. to_allocvec P a = Some b \<and> from_bytes P b = Some a"

definition decode_meta :: "sync_meta postcard \<Rightarrow> bytes \<Rightarrow> tx_error + sync_meta" where
  "decode_meta P v = (case from_bytes P v of None \<Rightarrow> Inl Tx_Meta | Some sm \<Rightarrow> Inr sm)"

definition decode_point :: "bytes \<Rightarrow> tx_error + sync_point" where
  "decode_point k = (case sync_point_decode k of None \<Rightarrow> Inl Tx_SyncPoint | Some sp \<Rightarrow> Inr sp)"

section \<open>Writing sync points\<close>

definition insert_meta :: "'s engine \<Rightarrow> sync_meta postcard \<Rightarrow> sync_point \<Rightarrow> sync_meta \<Rightarrow> ('s transaction, unit) op" where
  "insert_meta K P sp sm =
    tbind (tlift (lift_enc (sync_point_key sp))) (\<lambda>key.
      tbind (tlift (case to_allocvec P sm of None \<Rightarrow> Inl Tx_Meta | Some v \<Rightarrow> Inr v)) (\<lambda>value.
        twrite (\<lambda>s. ks_insert K s key value)))"

definition mark_syncpoint_purged :: "'s engine \<Rightarrow> sync_meta postcard \<Rightarrow> sync_point \<Rightarrow> sync_meta \<Rightarrow> ('s transaction, unit) op" where
  "mark_syncpoint_purged K P sp sm = insert_meta K P sp (sm\<lparr>sm_marker := Sm_Deletion\<rparr>)"

section \<open>Scans\<close>

definition sync_point_prefix :: "scope \<Rightarrow> u64 option \<Rightarrow> ser_error + bytes" where
  "sync_point_prefix sc ts =
    (case ts of
       None \<Rightarrow> builder_encode (key_segments sync_point_spec) 3 (self_of (scope_fields sc))
     | Some t \<Rightarrow> builder_encode (key_segments sync_point_spec) 4 (self_of (scope_fields sc @ [(''ts'', VU64 t)])))"

definition find_last_syncpoint_untracked :: "'s engine \<Rightarrow> scope \<Rightarrow> u64 option \<Rightarrow> ('s transaction, sync_point option) op" where
  "find_last_syncpoint_untracked K sc ts =
    tbind (find_last_key_untracked K (sync_point_prefix sc ts)) (\<lambda>last.
      case last of
        None \<Rightarrow> tret None
      | Some key \<Rightarrow> tbind (tlift (decode_point key)) (\<lambda>sp. tret (Some (with_sp_id sc (as_id sp)))))"

text \<open>The callback of a scan returns its updated captured state.\<close>

fun sync_points_loop :: "sync_meta postcard \<Rightarrow> ('c \<Rightarrow> sync_point \<Rightarrow> sync_meta \<Rightarrow> tx_error + 'c) \<Rightarrow> 'c
    \<Rightarrow> (bytes \<times> bytes) list \<Rightarrow> tx_error + 'c" where
  "sync_points_loop P func c [] = Inr c"
| "sync_points_loop P func c ((k, v) # it) =
    and_then (decode_point k) (\<lambda>sp. and_then (decode_meta P v) (\<lambda>sm.
      and_then (func c sp sm) (\<lambda>c'. sync_points_loop P func c' it)))"

fun sync_points_while_loop :: "sync_meta postcard \<Rightarrow> ('c \<Rightarrow> sync_point \<Rightarrow> sync_meta \<Rightarrow> tx_error + bool \<times> 'c) \<Rightarrow> 'c
    \<Rightarrow> (bytes \<times> bytes) list \<Rightarrow> tx_error + 'c" where
  "sync_points_while_loop P func c [] = Inr c"
| "sync_points_while_loop P func c ((k, v) # it) =
    and_then (decode_point k) (\<lambda>sp. and_then (decode_meta P v) (\<lambda>sm.
      and_then (func c sp sm) (\<lambda>(continue, c'). if \<not> continue then Inr c' else sync_points_while_loop P func c' it)))"

definition find_sync_points :: "'s engine \<Rightarrow> sync_meta postcard \<Rightarrow> 's \<Rightarrow> bytes \<Rightarrow> bytes
    \<Rightarrow> ('c \<Rightarrow> sync_point \<Rightarrow> sync_meta \<Rightarrow> tx_error + 'c) \<Rightarrow> 'c \<Rightarrow> tx_error + 'c" where
  "find_sync_points K P s lower upper func c = sync_points_loop P func c (ks_range K s lower (Some upper))"

definition find_sync_points_while :: "'s engine \<Rightarrow> sync_meta postcard \<Rightarrow> 's \<Rightarrow> bytes \<Rightarrow> bytes
    \<Rightarrow> ('c \<Rightarrow> sync_point \<Rightarrow> sync_meta \<Rightarrow> tx_error + bool \<times> 'c) \<Rightarrow> 'c \<Rightarrow> tx_error + 'c" where
  "find_sync_points_while K P s lower upper func c = sync_points_while_loop P func c (ks_range K s lower (Some upper))"

definition find_sync_points_rev :: "'s engine \<Rightarrow> sync_meta postcard \<Rightarrow> 's \<Rightarrow> bytes \<Rightarrow> bytes
    \<Rightarrow> ('c \<Rightarrow> sync_point \<Rightarrow> sync_meta \<Rightarrow> tx_error + 'c) \<Rightarrow> 'c \<Rightarrow> tx_error + 'c" where
  "find_sync_points_rev K P s lower upper func c = sync_points_loop P func c (rev (ks_range K s lower (Some upper)))"

type_synonym head = "scope \<times> sync_point_id \<times> sync_meta"

definition heads_step :: "('c \<Rightarrow> head \<Rightarrow> tx_error + 'c) \<Rightarrow> head option \<times> 'c \<Rightarrow> sync_point \<Rightarrow> sync_meta
    \<Rightarrow> tx_error + head option \<times> 'c" where
  "heads_step func st sp sm =
    (case st of (current_sp, c) \<Rightarrow>
      if (case current_sp of None \<Rightarrow> False
          | Some (sc, (_, ts, _), _) \<Rightarrow> ts = sp_ts sp \<and> sc = sp_scope sp)
      then Inr (current_sp, c)
      else and_then (case current_sp of None \<Rightarrow> Inr c | Some h \<Rightarrow> func c h) (\<lambda>c'.
        Inr (Some (sp_scope sp, as_id sp, sm), c')))"

definition collect_latest_heads :: "'s engine \<Rightarrow> sync_meta postcard \<Rightarrow> 's \<Rightarrow> bytes \<Rightarrow> bytes
    \<Rightarrow> ('c \<Rightarrow> head \<Rightarrow> tx_error + 'c) \<Rightarrow> 'c \<Rightarrow> tx_error + 'c" where
  "collect_latest_heads K P s lower upper func c =
    and_then (find_sync_points_rev K P s lower upper (heads_step func) (None, c)) (\<lambda>(current_sp, c').
      case current_sp of None \<Rightarrow> Inr c' | Some h \<Rightarrow> func c' h)"

section \<open>Replicated changesets\<close>

definition insert_entry :: "'s engine \<Rightarrow> u64 \<Rightarrow> bytes \<times> bytes option \<Rightarrow> ('s transaction, unit) op" where
  "insert_entry K ts e =
    (case e of
       (key, Some value) \<Rightarrow> twrite (\<lambda>s. insert_at_raw K s key value ts)
     | (key, None) \<Rightarrow> twrite (\<lambda>s. erase_at_raw K s key ts))"

definition insert_changeset :: "'s engine \<Rightarrow> sync_meta postcard \<Rightarrow> sync_point \<Rightarrow> sync_meta \<Rightarrow> changes
    \<Rightarrow> ('s transaction, bool) op" where
  "insert_changeset K P sp sm entries =
    tbind (contains_key_untracked K (sync_point_key sp)) (\<lambda>present.
      if present then tret False
      else tbind (insert_meta K P sp sm) (\<lambda>_.
        if sm_marker sm = Sm_Deletion
        then tbind (delete_scope_at_version K (sp_scope sp) (sp_ts sp)) (\<lambda>_. tret True)
        else tbind (tfold (insert_entry K (sp_ts sp)) entries) (\<lambda>_. tret True)))"

section \<open>Committing\<close>

text \<open>How the engine answers \<open>tx.commit()\<close>.\<close>

datatype commit_outcome = Committed | Conflicted | Poisoned | Failed

definition commit_scope :: "'s engine \<Rightarrow> sync_meta postcard \<Rightarrow> scope \<Rightarrow> ('s transaction, unit) op" where
  "commit_scope K P sc =
    tbind (find_last_syncpoint_untracked K sc None) (\<lambda>last tx.
      let (ts, ident) = split_ts tx;
          meta = \<lparr>sm_parent = map_option as_id last, sm_parent_epoch = None, sm_marker = Sm_Mutation,
                  sm_retention_period = tx_retention_period tx\<rparr>
      in insert_meta K P \<lparr>sp_scope = sc, sp_ts = ts, sp_epoch = ts, sp_node = ident\<rparr> meta tx)"

definition take_scopes :: "('s transaction, scope list) op" where
  "take_scopes tx = (Inr (active_scopes tx), tx\<lparr>active_scopes := []\<rparr>)"

definition commit :: "'s engine \<Rightarrow> sync_meta postcard \<Rightarrow> commit_outcome \<Rightarrow> 's transaction \<Rightarrow> tx_error + 's" where
  "commit K P outcome tx =
    (case tbind take_scopes (tfold (commit_scope K P)) tx of
       (Inl e, _) \<Rightarrow> Inl e
     | (Inr _, tx') \<Rightarrow>
         (case outcome of
            Committed \<Rightarrow> Inr (tx_ks tx')
          | Conflicted \<Rightarrow> Inl Tx_Conflict
          | Poisoned \<Rightarrow> Inl Tx_Unavailable
          | Failed \<Rightarrow> Inl Tx_Engine))"

section \<open>The version index flag\<close>

definition version_index_ready :: "'s engine \<Rightarrow> 's \<Rightarrow> bool" where
  "version_index_ready K s = (ks_get K s version_index_flag \<noteq> None)"

definition set_version_index_ready :: "'s engine \<Rightarrow> ('s transaction, unit) op" where
  "set_version_index_ready K = twrite (\<lambda>s. ks_insert K s version_index_flag [])"

definition holds_no_user_data :: "'s engine \<Rightarrow> 's \<Rightarrow> bool" where
  "holds_no_user_data K s =
    (let empty = (\<lambda>tag. ks_range K s [tag] (Some [tag + 1]) = [])
     in empty (of_char CHR ''@'') \<and> empty (of_char CHR ''#''))"

section \<open>Sync points as keys\<close>

definition sp_stem :: "scope \<Rightarrow> u64 \<Rightarrow> bytes" where
  "sp_stem sc ts = lit ''#'' @ scope_bytes sc @ lit ''sp'' @ write_word ts"

definition sp_tail :: "sync_point \<Rightarrow> bytes" where
  "sp_tail sp = write_word (sp_epoch sp) @ sp_node sp"

definition sp_rank :: "sync_point \<Rightarrow> u64 \<times> u64 \<times> bytes" where
  "sp_rank sp = (sp_ts sp, sp_epoch sp, sp_node sp)"

lemma sync_point_bytes_stem: "sync_point_bytes sp = sp_stem (sp_scope sp) (sp_ts sp) @ sp_tail sp"
  by (simp add: sync_point_bytes_def sp_stem_def sp_tail_def)

lemma sync_point_prefix_forms:
  assumes "scope_ok sc"
  shows "sync_point_prefix sc None = Inr (lit ''#'' @ scope_bytes sc @ lit ''sp'')"
    and "sync_point_prefix sc (Some t) = Inr (sp_stem sc t)"
  using assms by (simp_all add: sync_point_prefix_def sp_stem_def key_form_simps)

lemma scope_stem_iff:
  assumes "scope_ok sc" "sync_point_ok sp"
  shows "prefix (lit ''#'' @ scope_bytes sc @ lit ''sp'') (sync_point_bytes sp) \<longleftrightarrow> sp_scope sp = sc"
proof
  assume "prefix (lit ''#'' @ scope_bytes sc @ lit ''sp'') (sync_point_bytes sp)"
  then have "prefix (scope_bytes sc @ lit ''sp'') (scope_bytes (sp_scope sp) @ lit ''sp'' @ write_word (sp_ts sp) @ sp_tail sp)"
    by (simp add: sync_point_bytes_def sp_tail_def)
  then have "prefix (scope_bytes sc) (scope_bytes (sp_scope sp) @ lit ''sp'' @ write_word (sp_ts sp) @ sp_tail sp)"
    by (rule append_prefixD)
  then show "sp_scope sp = sc" using scope_bytes_prefix assms by (metis sync_point_ok_def)
qed (auto simp: sync_point_bytes_def)

lemma sp_stem_iff:
  assumes "scope_ok sc" "sync_point_ok sp"
  shows "prefix (sp_stem sc t) (sync_point_bytes sp) \<longleftrightarrow> sp_scope sp = sc \<and> sp_ts sp = t"
proof
  assume p: "prefix (sp_stem sc t) (sync_point_bytes sp)"
  then have "prefix (lit ''#'' @ scope_bytes sc @ lit ''sp'') (sync_point_bytes sp)"
    unfolding sp_stem_def by (metis append_assoc append_prefixD)
  then have sc: "sp_scope sp = sc" using scope_stem_iff [OF assms] by simp
  with p have "prefix (write_word t @ []) (write_word (sp_ts sp) @ sp_tail sp)"
    by (simp add: sync_point_bytes_def sp_stem_def sp_tail_def)
  then have "write_word t = write_word (sp_ts sp)" by (subst (asm) prefix_append_len) simp_all
  with sc show "sp_scope sp = sc \<and> sp_ts sp = t" by simp
qed (auto simp: sync_point_bytes_stem)

lemma sp_stem_prefix:
  assumes "scope_ok sc" "scope_ok sc'" "prefix (sp_stem sc t) (sp_stem sc' t')"
  shows "sc = sc' \<and> t = t'"
proof -
  let ?sp = "\<lparr>sp_scope = sc', sp_ts = t', sp_epoch = 0, sp_node = replicate 16 0\<rparr>"
  have "prefix (sp_stem sc t) (sync_point_bytes ?sp)"
    using assms(3) by (auto simp: sync_point_bytes_stem prefix_def)
  then show ?thesis using sp_stem_iff [of sc ?sp t] assms(1,2) by (simp add: sync_point_ok_def)
qed

lemma sp_stem_le:
  assumes "sync_point_ok sp" "sync_point_ok sq" "sync_point_bytes sp < sync_point_bytes sq"
  shows "sp_stem (sp_scope sp) (sp_ts sp) \<le> sp_stem (sp_scope sq) (sp_ts sq)"
proof (rule ccontr)
  assume "\<not> ?thesis"
  then have less: "sp_stem (sp_scope sq) (sp_ts sq) < sp_stem (sp_scope sp) (sp_ts sp)" by simp
  moreover have "\<not> prefix (sp_stem (sp_scope sq) (sp_ts sq)) (sp_stem (sp_scope sp) (sp_ts sp))"
    using sp_stem_prefix [of "sp_scope sq" "sp_scope sp"] assms(1,2) less by (metis less_irrefl sync_point_ok_def)
  ultimately have "sync_point_bytes sq < sync_point_bytes sp"
    unfolding sync_point_bytes_stem by (rule lex_less_append_not_prefix)
  then show False using assms(3) by simp
qed

lemma sp_tail_less:
  assumes "length (sp_node sp) = 16" "length (sp_node sq) = 16"
  shows "sp_tail sp < sp_tail sq \<longleftrightarrow> (sp_epoch sp, sp_node sp) < (sp_epoch sq, sp_node sq)"
  by (auto simp: sp_tail_def lex_append_iff write_word_less_iff less_prod_simp)

section \<open>The sync points a keyspace holds\<close>

definition point_in :: "rows \<Rightarrow> sync_point \<Rightarrow> bool" where
  "point_in m sp \<longleftrightarrow> sync_point_ok sp \<and> m (sync_point_bytes sp) \<noteq> None"

definition point_meta :: "sync_meta postcard \<Rightarrow> rows \<Rightarrow> sync_point \<Rightarrow> sync_meta option" where
  "point_meta P m sp = (case m (sync_point_bytes sp) of None \<Rightarrow> None | Some v \<Rightarrow> from_bytes P v)"

definition metas_wf :: "sync_meta postcard \<Rightarrow> rows \<Rightarrow> bool" where
  "metas_wf P m \<longleftrightarrow> (\<forall>sp. point_in m sp \<longrightarrow> point_meta P m sp \<noteq> None)"

text \<open>The greatest of the points that satisfy \<open>Q\<close>, if there is one.\<close>

definition is_last :: "rows \<Rightarrow> (sync_point \<Rightarrow> bool) \<Rightarrow> sync_point option \<Rightarrow> bool" where
  "is_last m Q r \<longleftrightarrow>
    (case r of
       None \<Rightarrow> \<forall>sp. point_in m sp \<longrightarrow> \<not> Q sp
     | Some sp \<Rightarrow> point_in m sp \<and> Q sp \<and> (\<forall>sq. point_in m sq \<longrightarrow> Q sq \<longrightarrow> sp_rank sq \<le> sp_rank sp))"

definition of_version :: "scope \<Rightarrow> u64 option \<Rightarrow> sync_point \<Rightarrow> bool" where
  "of_version sc ts sp \<longleftrightarrow> sp_scope sp = sc \<and> (case ts of None \<Rightarrow> True | Some t \<Rightarrow> sp_ts sp = t)"

lemma is_last_unique:
  assumes "is_last m (of_version sc ts) r" "is_last m (of_version sc ts) r'"
  shows "r = r'"
proof -
  have "sp = sq" if "r = Some sp" "r' = Some sq" for sp sq
  proof -
    have "sp_rank sp \<le> sp_rank sq" "sp_rank sq \<le> sp_rank sp" "sp_scope sp = sp_scope sq"
      using assms that by (auto simp: is_last_def of_version_def)
    then have "sp_rank sp = sp_rank sq" by simp
    then show ?thesis using \<open>sp_scope sp = sp_scope sq\<close> by (simp add: sp_rank_def)
  qed
  then show ?thesis using assms by (cases r; cases r') (auto simp: is_last_def)
qed

lemma sync_point_decode_self [simp]: "sync_point_ok sp \<Longrightarrow> decode_point (sync_point_bytes sp) = Inr sp"
  using sync_point_decode_bytes [of sp "[]"] by (simp add: decode_point_def)

lemma with_as_id [simp]: "sp_scope sp = sc \<Longrightarrow> with_sp_id sc (as_id sp) = sp"
  by (auto simp: with_sp_id_def as_id_def)

lemma as_with_id [simp]: "as_id (with_sp_id sc ident) = ident"
  by (cases ident) (auto simp: with_sp_id_def as_id_def)

context user_keys
begin

lemma point_region:
  assumes wf: "store_wf U m" and "m k \<noteq> None" "hd k = 35"
  obtains sp where "point_in m sp" "k = sync_point_bytes sp"
  using wf assms(2)
proof (cases rule: store_wfE)
  case (point sp)
  then show ?thesis using that [of sp] assms(2) by (simp add: point_in_def)
qed (use assms(3) row_tag in auto)

end

lemma sorted_last:
  assumes "sorted_wrt (<) (map fst es)" "es \<noteq> []" "e \<in> set es"
  shows "fst e \<le> (fst (last es) :: 'a::linorder)"
  using assms by (induction es) (auto simp: less_imp_le)

context user_store
begin

lemma find_last_key_run:
  assumes wf: "store_wf U (ks_get K s)"
    and pfx: "\<And>sp. sync_point_ok sp \<Longrightarrow> prefix p (sync_point_bytes sp) \<longleftrightarrow> of_version sc ts sp"
    and "hd p = 35" "p \<noteq> []"
  shows "\<exists>r. is_last (ks_get K s) (of_version sc ts) r
    \<and> find_last_key_untracked_raw K s p = map_option sync_point_bytes r"
proof -
  let ?m = "ks_get K s" and ?es = "ks_prefix K s p"
  have hd: "hd k = 35" if "prefix p k" for k using that assms(3,4) by (auto simp: prefix_def)
  have keys: "k \<in> fst ` set ?es \<longleftrightarrow> (\<exists>sp. point_in ?m sp \<and> of_version sc ts sp \<and> k = sync_point_bytes sp)" for k
  proof -
    have "k \<in> fst ` set ?es \<longleftrightarrow> ?m k \<noteq> None \<and> prefix p k" using prefix_keys [of s p] by simp
    also have "\<dots> \<longleftrightarrow> (\<exists>sp. point_in ?m sp \<and> of_version sc ts sp \<and> k = sync_point_bytes sp)"
      using point_region [OF wf, of k] hd [of k] pfx by (metis point_in_def)
    finally show ?thesis .
  qed
  show ?thesis
  proof (cases "?es = []")
    case True
    have "\<not> (point_in ?m sp \<and> of_version sc ts sp)" for sp
      using keys [of "sync_point_bytes sp"] True by auto
    then have "is_last ?m (of_version sc ts) None" by (simp add: is_last_def)
    then show ?thesis using True by (intro exI [of _ None]) (simp add: find_last_key_untracked_raw_def)
  next
    case False
    then have "fst (last ?es) \<in> fst ` set ?es" by simp
    then obtain sp where sp: "point_in ?m sp" "of_version sc ts sp" "fst (last ?es) = sync_point_bytes sp"
      using keys by blast
    have "sp_rank sq \<le> sp_rank sp" if sq: "point_in ?m sq" "of_version sc ts sq" for sq
    proof -
      have "sync_point_bytes sq \<in> fst ` set ?es" using keys sq by blast
      then obtain e where e: "e \<in> set ?es" "fst e = sync_point_bytes sq" by auto
      have "sync_point_bytes sq \<le> sync_point_bytes sp"
        using sorted_last [OF _ False e(1)] prefix_entries [of s p] e(2) sp(3) by (simp add: sorted_entries_def)
      moreover have "sp_scope sq = sp_scope sp" using sq(2) sp(2) by (simp add: of_version_def)
      ultimately show ?thesis
        using sync_point_order [of sp sq] sq(1) sp(1) by (auto simp: point_in_def sync_point_ok_def sp_rank_def not_less [symmetric])
    qed
    then have "is_last ?m (of_version sc ts) (Some sp)" using sp by (simp add: is_last_def)
    moreover have "find_last_key_untracked_raw K s p = Some (fst (last ?es))"
      using False by (cases ?es rule: rev_cases) (auto simp: find_last_key_untracked_raw_def)
    ultimately show ?thesis using sp(3) by (intro exI [of _ "Some sp"]) simp
  qed
qed

lemma find_last_syncpoint_run:
  assumes wf: "store_wf U (ks_get K (tx_ks tx))" and sc: "scope_ok sc"
  shows "\<exists>r. is_last (ks_get K (tx_ks tx)) (of_version sc ts) r
    \<and> find_last_syncpoint_untracked K sc ts tx = (Inr r, tx)"
proof -
  obtain p where p: "sync_point_prefix sc ts = Inr p" "hd p = 35" "p \<noteq> []"
    "\<And>sp. sync_point_ok sp \<Longrightarrow> prefix p (sync_point_bytes sp) \<longleftrightarrow> of_version sc ts sp"
  proof (cases ts)
    case None
    show thesis by (rule that [of "lit ''#'' @ scope_bytes sc @ lit ''sp''"])
      (use None sync_point_prefix_forms [OF sc] scope_stem_iff [OF sc] in \<open>auto simp: of_version_def\<close>)
  next
    case (Some t)
    show thesis by (rule that [of "sp_stem sc t"])
      (use Some sync_point_prefix_forms [OF sc] sp_stem_iff [OF sc] in \<open>auto simp: of_version_def sp_stem_def\<close>)
  qed
  obtain r where r: "is_last (ks_get K (tx_ks tx)) (of_version sc ts) r"
    "find_last_key_untracked_raw K (tx_ks tx) p = map_option sync_point_bytes r"
    using find_last_key_run [OF wf p(4,2,3)] by blast
  have "find_last_syncpoint_untracked K sc ts tx = (Inr r, tx)"
  proof (cases r)
    case (Some sp)
    then have "sync_point_ok sp" "sp_scope sp = sc" using r(1) by (auto simp: is_last_def point_in_def of_version_def)
    then show ?thesis using Some r(2) p(1)
      by (simp add: find_last_syncpoint_untracked_def find_last_key_untracked_def)
  qed (use r(2) p(1) in \<open>simp add: find_last_syncpoint_untracked_def find_last_key_untracked_def\<close>)
  then show ?thesis using r(1) by blast
qed

end

section \<open>The heads of a range\<close>

fun fold_res :: "('c \<Rightarrow> 'a \<Rightarrow> 'e + 'c) \<Rightarrow> 'c \<Rightarrow> 'a list \<Rightarrow> 'e + 'c" where
  "fold_res f c [] = Inr c"
| "fold_res f c (x # xs) = and_then (f c x) (\<lambda>c'. fold_res f c' xs)"

lemma fold_res_append: "fold_res f c (xs @ ys) = and_then (fold_res f c xs) (\<lambda>c'. fold_res f c' ys)"
  by (induction xs arbitrary: c) (simp_all add: and_then_assoc)

lemma fold_res_total: "(\<And>c x. x \<in> set xs \<Longrightarrow> f c x = Inr (g c x)) \<Longrightarrow> fold_res f c xs = Inr (foldl g c xs)"
  by (induction xs arbitrary: c) simp_all

lemma and_then_Inr [simp]: "and_then r Inr = r"
  by (cases r) simp_all

definition point_entry :: "rows \<Rightarrow> sync_point \<Rightarrow> bytes \<times> bytes" where
  "point_entry m sp = (sync_point_bytes sp, the (m (sync_point_bytes sp)))"

definition with_meta :: "sync_meta postcard \<Rightarrow> rows \<Rightarrow> sync_point \<Rightarrow> sync_point \<times> sync_meta" where
  "with_meta P m sp = (sp, the (point_meta P m sp))"

lemma point_step:
  assumes "metas_wf P m" "point_in m sp"
  shows "decode_point (fst (point_entry m sp)) = Inr sp"
    "decode_meta P (snd (point_entry m sp)) = Inr (the (point_meta P m sp))"
proof -
  show "decode_point (fst (point_entry m sp)) = Inr sp" using assms(2) by (simp add: point_entry_def point_in_def)
  have "point_meta P m sp \<noteq> None" using assms by (simp add: metas_wf_def)
  then show "decode_meta P (snd (point_entry m sp)) = Inr (the (point_meta P m sp))"
    using assms(2) by (auto simp: point_entry_def point_in_def point_meta_def decode_meta_def split: option.splits)
qed

lemma sync_points_loop_run:
  assumes "metas_wf P m" "\<forall>sp\<in>set pts. point_in m sp"
  shows "sync_points_loop P func c (map (point_entry m) pts)
    = fold_res (\<lambda>c x. func c (fst x) (snd x)) c (map (with_meta P m) pts)"
  using assms(2)
proof (induction pts arbitrary: c)
  case (Cons sp pts)
  obtain k v where kv: "point_entry m sp = (k, v)" by force
  then have "decode_point k = Inr sp" "decode_meta P v = Inr (the (point_meta P m sp))"
    using point_step [OF assms(1), of sp] Cons.prems by auto
  then show ?case using Cons by (simp add: kv with_meta_def)
qed simp

definition head_key :: "sync_point \<times> sync_meta \<Rightarrow> scope \<times> u64" where
  "head_key x = (sp_scope (fst x), sp_ts (fst x))"

definition head_of :: "sync_point \<times> sync_meta \<Rightarrow> head" where
  "head_of x = (sp_scope (fst x), as_id (fst x), snd x)"

definition heads_of :: "(scope \<times> u64) option \<Rightarrow> (sync_point \<times> sync_meta) list \<Rightarrow> (sync_point \<times> sync_meta) list" where
  "heads_of prev xs = map snd (first_of prev (map (\<lambda>x. (head_key x, x)) xs))"

lemma heads_of_simps [simp]:
  "heads_of prev [] = []"
  "heads_of prev (x # xs) = (if prev = Some (head_key x) then heads_of prev xs else x # heads_of (Some (head_key x)) xs)"
  by (simp_all add: heads_of_def)

lemma heads_step_fold:
  "and_then (fold_res (\<lambda>st x. heads_step func st (fst x) (snd x)) (map_option head_of cur, c) xs)
      (\<lambda>(current_sp, c'). case current_sp of None \<Rightarrow> Inr c' | Some h \<Rightarrow> func c' h)
    = fold_res func c (map head_of ((case cur of None \<Rightarrow> [] | Some x \<Rightarrow> [x]) @ heads_of (map_option head_key cur) xs))"
proof (induction xs arbitrary: cur c)
  case Nil
  then show ?case by (cases cur) simp_all
next
  case (Cons x xs)
  have same: "(case map_option head_of cur of None \<Rightarrow> False | Some (sc, (_, ts, _), _) \<Rightarrow> ts = sp_ts (fst x) \<and> sc = sp_scope (fst x))
      \<longleftrightarrow> map_option head_key cur = Some (head_key x)"
    by (cases cur) (auto simp: head_of_def head_key_def as_id_def)
  show ?case
  proof (cases "map_option head_key cur = Some (head_key x)")
    case True
    then have "heads_step func (map_option head_of cur, c) (fst x) (snd x) = Inr (map_option head_of cur, c)"
      using same by (simp add: heads_step_def)
    moreover obtain y where "cur = Some y" "head_key y = head_key x" using True by (cases cur) auto
    ultimately show ?thesis using Cons.IH [of cur c] by simp
  next
    case False
    then have "heads_step func (map_option head_of cur, c) (fst x) (snd x)
        = and_then (case map_option head_of cur of None \<Rightarrow> Inr c | Some h \<Rightarrow> func c h) (\<lambda>c'. Inr (map_option head_of (Some x), c'))"
      by (cases cur) (auto simp: heads_step_def head_of_def head_key_def as_id_def)
    moreover have "fold_res func c (map head_of ((case cur of None \<Rightarrow> [] | Some x \<Rightarrow> [x]) @ heads_of (map_option head_key cur) (x # xs)))
        = and_then (case map_option head_of cur of None \<Rightarrow> Inr c | Some h \<Rightarrow> func c h)
          (\<lambda>c'. fold_res func c' (map head_of ([x] @ heads_of (Some (head_key x)) xs)))"
      using False by (cases cur) simp_all
    ultimately show ?thesis using Cons.IH [of "Some x"] by (simp add: and_then_assoc)
  qed
qed

lemma map_of_greatest:
  fixes b :: "'a \<Rightarrow> 'b::linorder"
  assumes "sorted_wrt (\<lambda>x y. b y < b x) xs"
  shows "map_of (map (\<lambda>x. (g x, x)) xs) k = Some x
    \<longleftrightarrow> x \<in> set xs \<and> g x = k \<and> (\<forall>y\<in>set xs. g y = k \<longrightarrow> b y \<le> b x)"
  using assms
proof (induction xs)
  case (Cons a xs)
  show ?case
  proof (cases "g a = k")
    case True
    then show ?thesis using Cons.prems by (auto simp: not_le)
  next
    case False
    then show ?thesis using Cons by auto
  qed
qed simp

lemma first_of_subset: "set (first_of prev xs) \<subseteq> set xs"
  by (induction prev xs rule: first_of.induct) auto

lemma heads_of_spec:
  assumes desc: "sorted_wrt (\<lambda>x y. sync_point_bytes (fst y) < sync_point_bytes (fst x)) xs"
    and ok: "\<forall>x\<in>set xs. sync_point_ok (fst x)"
  shows "distinct (map head_key (heads_of None xs))"
    and "x \<in> set (heads_of None xs) \<longleftrightarrow>
      x \<in> set xs \<and> (\<forall>y\<in>set xs. head_key y = head_key x \<longrightarrow> sync_point_bytes (fst y) \<le> sync_point_bytes (fst x))"
proof -
  let ?ks = "map (\<lambda>x. (head_key x, x)) xs"
  let ?R = "\<lambda>a b. sp_stem (fst b) (snd b) \<le> sp_stem (fst a) (snd a)"
  have "sorted_wrt (\<lambda>x y. ?R (head_key x) (head_key y)) xs"
    using desc ok by (intro sorted_wrt_mono_rel [OF _ desc]) (auto simp: head_key_def intro: sp_stem_le)
  then have sorted: "sorted_wrt ?R (map fst ?ks)" by (simp add: sorted_wrt_map)
  have "antisymp_on (head_key ` set xs) ?R"
  proof (intro antisymp_onI; elim imageE)
    fix a b x y assume "a = head_key x" "x \<in> set xs" "b = head_key y" "y \<in> set xs" "?R a b" "?R b a"
    then have "scope_ok (fst a)" "scope_ok (fst b)" "prefix (sp_stem (fst a) (snd a)) (sp_stem (fst b) (snd b))"
      using ok by (auto simp: head_key_def sync_point_ok_def)
    then show "a = b" using sp_stem_prefix by (metis prod.collapse)
  qed
  then have f: "distinct (map fst (first_of None ?ks))" "map_of (first_of None ?ks) = map_of ?ks"
    using first_of_spec [OF sorted, of None] by (auto simp: image_image)
  have keyed: "y = (head_key (snd y), snd y)" if "y \<in> set (first_of None ?ks)" for y
    using that first_of_subset [of None ?ks] by auto
  have "(head_key \<circ> snd) y = fst y" if "y \<in> set (first_of None ?ks)" for y
    using arg_cong [OF keyed [OF that], of fst] by simp
  then have "map head_key (heads_of None xs) = map fst (first_of None ?ks)" by (simp add: heads_of_def)
  then show "distinct (map head_key (heads_of None xs))" using f(1) by simp
  have "x \<in> set (heads_of None xs) \<longleftrightarrow> (head_key x, x) \<in> set (first_of None ?ks)"
  proof
    assume "x \<in> set (heads_of None xs)"
    then obtain y where "y \<in> set (first_of None ?ks)" "x = snd y" unfolding heads_of_def set_map by (rule imageE)
    then show "(head_key x, x) \<in> set (first_of None ?ks)" using keyed [of y] by simp
  next
    assume "(head_key x, x) \<in> set (first_of None ?ks)"
    then have "snd (head_key x, x) \<in> snd ` set (first_of None ?ks)" by (rule imageI)
    then show "x \<in> set (heads_of None xs)" by (simp add: heads_of_def)
  qed
  also have "\<dots> \<longleftrightarrow> map_of ?ks (head_key x) = Some x" using map_of_eq_Some_iff [OF f(1)] f(2) by simp
  also have "\<dots> \<longleftrightarrow> x \<in> set xs \<and> (\<forall>y\<in>set xs. head_key y = head_key x \<longrightarrow> sync_point_bytes (fst y) \<le> sync_point_bytes (fst x))"
    using map_of_greatest [OF desc, of head_key "head_key x" x] by simp
  finally show "x \<in> set (heads_of None xs) \<longleftrightarrow>
      x \<in> set xs \<and> (\<forall>y\<in>set xs. head_key y = head_key x \<longrightarrow> sync_point_bytes (fst y) \<le> sync_point_bytes (fst x))" .
qed

text \<open>A point is the head of its version when no other point of the version has a greater epoch.\<close>

definition is_head :: "rows \<Rightarrow> sync_point \<Rightarrow> bool" where
  "is_head m sp \<longleftrightarrow> point_in m sp \<and>
    (\<forall>sq. point_in m sq \<longrightarrow> sp_scope sq = sp_scope sp \<longrightarrow> sp_ts sq = sp_ts sp \<longrightarrow>
      (sp_epoch sq, sp_node sq) \<le> (sp_epoch sp, sp_node sp))"

lemma is_head_bytes:
  assumes "point_in m sp"
  shows "is_head m sp \<longleftrightarrow> (\<forall>sq. point_in m sq \<longrightarrow> sp_scope sq = sp_scope sp \<longrightarrow> sp_ts sq = sp_ts sp \<longrightarrow>
      sync_point_bytes sq \<le> sync_point_bytes sp)"
proof -
  have "(sp_epoch sq, sp_node sq) \<le> (sp_epoch sp, sp_node sp) \<longleftrightarrow> sync_point_bytes sq \<le> sync_point_bytes sp"
    if "point_in m sq" "sp_scope sq = sp_scope sp" "sp_ts sq = sp_ts sp" for sq
    using that assms sp_tail_less [of sp sq]
    by (simp add: sync_point_bytes_stem point_in_def sync_point_ok_def not_less [symmetric])
  then show ?thesis using assms by (auto simp: is_head_def)
qed

text \<open>A range of sync-point keys that holds all points of a version or none.\<close>

definition point_range :: "bytes \<Rightarrow> bytes \<Rightarrow> (scope \<Rightarrow> bool) \<Rightarrow> bool" where
  "point_range lower upper Q \<longleftrightarrow>
    (\<forall>k. in_range lower (Some upper) k \<longrightarrow> hd k = 35)
    \<and> (\<forall>sp. sync_point_ok sp \<longrightarrow> in_range lower (Some upper) (sync_point_bytes sp) = Q (sp_scope sp))"

context user_store
begin

lemma key_range_points:
  assumes wf: "store_wf U (ks_get K s)" and rng: "\<And>k. in_range lower (Some upper) k \<Longrightarrow> hd k = 35"
  obtains pts where "ks_range K s lower (Some upper) = map (point_entry (ks_get K s)) pts"
    "sorted_wrt (\<lambda>a b. sync_point_bytes a < sync_point_bytes b) pts"
    "set pts = {sp. point_in (ks_get K s) sp \<and> in_range lower (Some upper) (sync_point_bytes sp)}"
proof -
  let ?m = "ks_get K s" and ?es = "ks_range K s lower (Some upper)"
  let ?Q = "\<lambda>sp. in_range lower (Some upper) (sync_point_bytes sp)"
  have ent: "\<exists>sp. e = point_entry ?m sp \<and> point_in ?m sp \<and> ?Q sp" if "e \<in> set ?es" for e
  proof -
    obtain k v where e: "e = (k, v)" by force
    then have k: "?m k = Some v" "in_range lower (Some upper) k" using that by (auto simp: mem_range)
    then obtain sp where "point_in ?m sp" "k = sync_point_bytes sp" using point_region [OF wf, of k] rng [of k] by auto
    then show ?thesis using k e by (auto simp: point_entry_def)
  qed
  then obtain f where f: "\<forall>e\<in>set ?es. e = point_entry ?m (f e) \<and> point_in ?m (f e) \<and> ?Q (f e)"
    using bchoice [of "set ?es" "\<lambda>e sp. e = point_entry ?m sp \<and> point_in ?m sp \<and> ?Q sp"] by blast
  then have fst_f: "sync_point_bytes (f e) = fst e" if "e \<in> set ?es" for e
    using that by (metis fst_conv point_entry_def)
  have "?es = map (point_entry ?m) (map f ?es)" using f by (simp add: comp_def map_idI)
  moreover have "sorted_wrt (\<lambda>a b. sync_point_bytes a < sync_point_bytes b) (map f ?es)"
    using range_entries [of s lower "Some upper"] fst_f
    by (auto simp: sorted_entries_def sorted_wrt_map intro: sorted_wrt_mono_rel [rotated])
  moreover have "set (map f ?es) = {sp. point_in ?m sp \<and> ?Q sp}"
  proof (intro set_eqI iffI)
    fix sp assume sp: "sp \<in> {sp. point_in ?m sp \<and> ?Q sp}"
    then have e: "point_entry ?m sp \<in> set ?es" by (auto simp: point_entry_def mem_range point_in_def)
    then have "sync_point_bytes (f (point_entry ?m sp)) = sync_point_bytes sp"
      using fst_f by (metis fst_conv point_entry_def)
    moreover have "point_in ?m (f (point_entry ?m sp))" using f e by blast
    ultimately have "f (point_entry ?m sp) = sp"
      using sp by (intro sync_point_bytes_inject) (auto simp: point_in_def)
    then show "sp \<in> set (map f ?es)" using e by force
  qed (use f in auto)
  ultimately show thesis by (rule that)
qed

lemma range_points:
  assumes wf: "store_wf U (ks_get K s)" and rng: "point_range lower upper Q"
  obtains pts where "ks_range K s lower (Some upper) = map (point_entry (ks_get K s)) pts"
    "sorted_wrt (\<lambda>a b. sync_point_bytes a < sync_point_bytes b) pts"
    "set pts = {sp. point_in (ks_get K s) sp \<and> Q (sp_scope sp)}"
proof -
  have eq: "{sp. point_in (ks_get K s) sp \<and> in_range lower (Some upper) (sync_point_bytes sp)} = {sp. point_in (ks_get K s) sp \<and> Q (sp_scope sp)}"
    using rng by (auto simp: point_range_def point_in_def)
  have hd: "\<And>k. in_range lower (Some upper) k \<Longrightarrow> hd k = 35" using rng by (simp add: point_range_def)
  show thesis by (rule key_range_points [OF wf hd]) (assumption, rule that, simp_all only: eq)
qed

text \<open>Scanning for heads runs the callback once per version, on the point with the greatest epoch.\<close>

lemma collect_latest_heads_run:
  assumes wf: "store_wf U (ks_get K s)" and metas: "metas_wf P (ks_get K s)" and rng: "point_range lower upper Q"
  obtains hs where "\<And>func (c :: 'c). collect_latest_heads K P s lower upper func c = fold_res func c (map head_of hs)"
    "distinct (map head_key hs)"
    "set hs = {with_meta P (ks_get K s) sp | sp. is_head (ks_get K s) sp \<and> Q (sp_scope sp)}"
proof -
  let ?m = "ks_get K s"
  obtain pts where pts: "ks_range K s lower (Some upper) = map (point_entry ?m) pts"
    "sorted_wrt (\<lambda>a b. sync_point_bytes a < sync_point_bytes b) pts"
    "set pts = {sp. point_in ?m sp \<and> Q (sp_scope sp)}" by (rule range_points [OF wf rng])
  let ?xs = "map (with_meta P ?m) (rev pts)"
  have run: "collect_latest_heads K P s lower upper func c = fold_res func c (map head_of (heads_of None ?xs))"
    for func and c :: 'c
  proof -
    have "sync_points_loop P (heads_step func) (None, c) (map (point_entry ?m) (rev pts))
        = fold_res (\<lambda>st x. heads_step func st (fst x) (snd x)) (None, c) ?xs"
      using pts(3) by (intro sync_points_loop_run [OF metas]) auto
    then show ?thesis
      using heads_step_fold [of func None c ?xs]
      by (simp add: collect_latest_heads_def find_sync_points_rev_def pts(1) rev_map)
  qed
  have desc: "sorted_wrt (\<lambda>x y. sync_point_bytes (fst y) < sync_point_bytes (fst x)) ?xs"
    using pts(2) by (simp add: sorted_wrt_map sorted_wrt_rev with_meta_def)
  have ok: "\<forall>x\<in>set ?xs. sync_point_ok (fst x)"
    using pts(3) by (auto simp: with_meta_def point_in_def)
  note spec = heads_of_spec [OF desc ok]
  have "x \<in> set (heads_of None ?xs) \<longleftrightarrow> (\<exists>sp. x = with_meta P ?m sp \<and> is_head ?m sp \<and> Q (sp_scope sp))" for x
  proof -
    have "is_head ?m sp \<and> Q (sp_scope sp) \<longleftrightarrow> sp \<in> set pts \<and>
        (\<forall>sq\<in>set pts. head_key (with_meta P ?m sq) = head_key (with_meta P ?m sp) \<longrightarrow> sync_point_bytes sq \<le> sync_point_bytes sp)"
      for sp
    proof (cases "point_in ?m sp")
      case True
      then show ?thesis unfolding is_head_bytes [OF True] pts(3) by (auto simp: head_key_def with_meta_def)
    next
      case False
      then show ?thesis using pts(3) by (simp add: is_head_def)
    qed
    then show ?thesis unfolding spec(2) by (auto simp: with_meta_def)
  qed
  then have "set (heads_of None ?xs) = {with_meta P ?m sp | sp. is_head ?m sp \<and> Q (sp_scope sp)}" by blast
  then show thesis using that run spec(1) by blast
qed

end

end
