(* ===== verification/Changesets.thy ===== *)
theory Changesets
  imports Sync_Points
begin

text \<open>
  Correctness of the writes that maintain sync points: replicated changesets
  (\<open>insert_changeset\<close>), the commit of a transaction, and forgetting a version. Each lemma gives the
  rows after the operation as a function of the rows before; the invariant of the store is
  \<open>store_wf\<close> together with readable metadata.
\<close>

section \<open>The invariant of a store\<close>

definition store_ok :: "bytes set \<Rightarrow> sync_meta postcard \<Rightarrow> rows \<Rightarrow> bool" where
  "store_ok U P m \<longleftrightarrow> store_wf U m \<and> metas_wf P m"

text \<open>Metadata as the types of the program allow it.\<close>

definition meta_ok :: "sync_meta \<Rightarrow> bool" where
  "meta_ok sm \<longleftrightarrow>
    (case sm_parent sm of None \<Rightarrow> True | Some (_, _, node) \<Rightarrow> length node = 16)
    \<and> (case sm_retention_period sm of None \<Rightarrow> True | Some d \<Rightarrow> d div 10 ^ 9 < 2 ^ 64)"

text \<open>What entries make of a version: a tombstone wins over a value.\<close>

definition merged :: "bytes option option \<Rightarrow> bytes option option \<Rightarrow> bytes option option" where
  "merged old new = (case new of None \<Rightarrow> old | Some None \<Rightarrow> Some None
     | Some (Some v) \<Rightarrow> if old = Some None then Some None else Some (Some v))"

locale meta_store = user_store K U + meta: postcard_codec P meta_ok
  for K :: "'s engine" and U and P :: "sync_meta postcard"
begin

lemma store_okI: "store_wf U m \<Longrightarrow> metas_wf P m \<Longrightarrow> store_ok U P m"
  by (simp add: store_ok_def)

lemma store_ok_wf: "store_ok U P m \<Longrightarrow> store_wf U m"
  by (simp add: store_ok_def)

lemma metas_wf_rows:
  assumes "metas_wf P m" "\<And>sp. sync_point_ok sp \<Longrightarrow> m' (sync_point_bytes sp) = m (sync_point_bytes sp)"
  shows "metas_wf P m'"
  using assms by (auto simp: metas_wf_def point_in_def point_meta_def split: option.splits)

text \<open>Writing a sync point.\<close>

lemma insert_meta_run:
  assumes sp: "sync_point_ok sp" and "meta_ok sm"
  obtains v where "from_bytes P v = Some sm"
    "insert_meta K P sp sm tx = (Inr (), tx\<lparr>tx_ks := ks_insert K (tx_ks tx) (sync_point_bytes sp) v\<rparr>)"
proof -
  obtain v where v: "to_allocvec P sm = Some v" "from_bytes P v = Some sm" using meta.from_to [OF assms(2)] by blast
  have "sync_point_key sp = Inr (sync_point_bytes sp)" using sp sync_point_key_form by (simp add: sync_point_ok_def)
  then show thesis using that [OF v(2)] v(1) by (simp add: insert_meta_def)
qed

lemma store_ok_point:
  assumes ok: "store_ok U P m" and sp: "sync_point_ok sp" and v: "from_bytes P v = Some sm"
  shows "store_ok U P (m(sync_point_bytes sp \<mapsto> v))"
proof (rule store_okI)
  show "store_wf U (m(sync_point_bytes sp \<mapsto> v))" using ok sp store_wf_point by (auto simp: store_ok_def)
  show "metas_wf P (m(sync_point_bytes sp \<mapsto> v))"
    using ok sp v sync_point_bytes_inject
    by (auto simp: store_ok_def metas_wf_def point_in_def point_meta_def)
qed

lemma store_ok_no_point: "store_ok U P m \<Longrightarrow> sync_point_ok sp \<Longrightarrow> store_ok U P (m(sync_point_bytes sp := None))"
  using store_wf_point [of m sp None] by (auto simp: store_ok_def metas_wf_def point_in_def point_meta_def)

lemma store_ok_drop_version: "store_ok U P m \<Longrightarrow> store_ok U P (drop_version U sc ts m)"
  using store_wf_drop_version [of m sc ts] metas_wf_rows [of m "drop_version U sc ts m"]
  by (simp add: store_ok_def drop_version_other)

lemma mv_point: "uk \<in> U \<Longrightarrow> mv (m(sync_point_bytes sp := x)) uk t = mv m uk t"
  by (simp add: mv_def)

section \<open>Deleting a version\<close>

lemma delete_scope_at_version_run:
  assumes "store_ok U P (ks_get K (tx_ks tx))" "scope_ok sc"
  obtains s' where "delete_scope_at_version K sc ts tx = (Inr (), tx\<lparr>tx_ks := s'\<rparr>)"
    "ks_get K s' = drop_version U sc ts (ks_get K (tx_ks tx))"
  using delete_version_rows_run [of tx sc ts] assms scope_key_form [of sc]
  by (auto simp: delete_scope_at_version_def store_ok_def)

lemma delete_chunk_run:
  assumes "store_ok U P (ks_get K (tx_ks tx))" "sync_point_ok sp"
  obtains s' where "delete_chunk K sp tx = (Inr (), tx\<lparr>tx_ks := s'\<rparr>)"
    "ks_get K s' = drop_version U (sp_scope sp) (sp_ts sp) (ks_get K (tx_ks tx))"
  using delete_version_rows_run [of tx "sp_scope sp" "sp_ts sp"] assms scope_key_form [of "sp_scope sp"]
  by (auto simp: delete_chunk_def store_ok_def sync_point_ok_def)

lemma forget_chunk_run:
  assumes "store_ok U P (ks_get K (tx_ks tx))" "sync_point_ok sp"
  obtains s' where "forget_chunk K sp tx = (Inr (), tx\<lparr>tx_ks := s'\<rparr>)"
    "ks_get K s' = (drop_version U (sp_scope sp) (sp_ts sp) (ks_get K (tx_ks tx)))(sync_point_bytes sp := None)"
proof -
  obtain s' where "delete_chunk K sp tx = (Inr (), tx\<lparr>tx_ks := s'\<rparr>)"
    "ks_get K s' = drop_version U (sp_scope sp) (sp_ts sp) (ks_get K (tx_ks tx))" by (rule delete_chunk_run [OF assms])
  then show thesis
    using that [of "ks_remove K s' (sync_point_bytes sp)"] assms(2) sync_point_key_form [of sp]
    by (simp add: forget_chunk_def get_remove sync_point_ok_def)
qed

section \<open>Replicated changesets\<close>

lemma entries_run:
  assumes "store_ok U P (ks_get K (tx_ks tx))" "fst ` set entries \<subseteq> U" "distinct (map fst entries)"
  shows "\<exists>s'. tfold (insert_entry K ts) entries tx = (Inr (), tx\<lparr>tx_ks := s'\<rparr>)
    \<and> store_ok U P (ks_get K s')
    \<and> (\<forall>sp. ks_get K s' (sync_point_bytes sp) = ks_get K (tx_ks tx) (sync_point_bytes sp))
    \<and> (\<forall>uk\<in>U. \<forall>t. mv (ks_get K s') uk t
        = (if t = ts then merged (mv (ks_get K (tx_ks tx)) uk t) (map_of entries uk) else mv (ks_get K (tx_ks tx)) uk t))"
  using assms
proof (induction entries arbitrary: tx)
  case Nil
  then show ?case by (intro exI [of _ "tx_ks tx"]) (simp add: merged_def)
next
  case (Cons e es)
  obtain uk v where e: "e = (uk, v)" by force
  then have uk: "uk \<in> U" using Cons.prems(2) by simp
  let ?m = "ks_get K (tx_ks tx)"
  let ?s = "case v of Some x \<Rightarrow> insert_at_raw K (tx_ks tx) uk x ts | None \<Rightarrow> erase_at_raw K (tx_ks tx) uk ts"
  have step: "insert_entry K ts e tx = (Inr (), tx\<lparr>tx_ks := ?s\<rparr>)"
    by (cases v) (simp_all add: e insert_entry_def)
  obtain kd x where rows: "ks_get K ?s = ?m(version_index_key ts (encode_row uk ts kd) \<mapsto> [], encode_row uk ts kd \<mapsto> x)"
    by (cases v) (auto simp: rows_writes)
  have wf: "store_wf U (ks_get K ?s)"
    unfolding rows using Cons.prems(1) uk by (intro store_wf_write_row) (auto simp: store_ok_def)
  have sp: "ks_get K ?s (sync_point_bytes sp) = ?m (sync_point_bytes sp)" for sp
    using uk by (simp add: rows)
  have ok: "store_ok U P (ks_get K ?s)"
    using wf sp Cons.prems(1) metas_wf_rows [of ?m] by (auto simp: store_ok_def)
  have mv: "mv (ks_get K ?s) uk' t = (if t = ts \<and> uk' = uk then merged (mv ?m uk' t) (Some v) else mv ?m uk' t)"
    if "uk' \<in> U" for uk' t
    using that uk by (cases v) (auto simp: mv_writes merged_def)
  obtain s' where s': "tfold (insert_entry K ts) es (tx\<lparr>tx_ks := ?s\<rparr>) = (Inr (), tx\<lparr>tx_ks := s'\<rparr>)"
    "store_ok U P (ks_get K s')" "\<forall>sp. ks_get K s' (sync_point_bytes sp) = ks_get K ?s (sync_point_bytes sp)"
    "\<forall>uk\<in>U. \<forall>t. mv (ks_get K s') uk t
        = (if t = ts then merged (mv (ks_get K ?s) uk t) (map_of es uk) else mv (ks_get K ?s) uk t)"
    using Cons.IH [of "tx\<lparr>tx_ks := ?s\<rparr>"] ok Cons.prems(2,3) by (auto cong: if_cong)
  have "map_of es uk = None" using Cons.prems(3) e by (simp add: map_of_eq_None_iff)
  then have "mv (ks_get K s') uk' t = (if t = ts then merged (mv ?m uk' t) (map_of (e # es) uk') else mv ?m uk' t)"
    if "uk' \<in> U" for uk' t
    using s'(4) that mv e by (auto simp: merged_def)
  then show ?case using step s'(1,2,3) sp by auto
qed

lemma contains_point:
  assumes "store_wf U (ks_get K s)" "sync_point_ok sp"
  shows "contains_key_raw_untracked K s (sync_point_bytes sp) \<longleftrightarrow> ks_get K s (sync_point_bytes sp) \<noteq> None"
proof -
  have "ks_prefix K s (sync_point_bytes sp) \<noteq> [] \<longleftrightarrow> (\<exists>k. k \<in> set (map fst (ks_prefix K s (sync_point_bytes sp))))"
    by (cases "ks_prefix K s (sync_point_bytes sp)") auto
  also have "\<dots> \<longleftrightarrow> (\<exists>k. ks_get K s k \<noteq> None \<and> prefix (sync_point_bytes sp) k)" by (simp only: prefix_keys mem_Collect_eq)
  also have "\<dots> \<longleftrightarrow> ks_get K s (sync_point_bytes sp) \<noteq> None"
  proof
    assume "\<exists>k. ks_get K s k \<noteq> None \<and> prefix (sync_point_bytes sp) k"
    then obtain k where k: "ks_get K s k \<noteq> None" "prefix (sync_point_bytes sp) k" by blast
    have "sync_point_bytes sp \<noteq> []" by (simp add: sync_point_bytes_def)
    then have "hd k = 35" using k(2) hd_point [of sp] by (metis hd_append2 prefix_def)
    then obtain sq where sq: "point_in (ks_get K s) sq" "k = sync_point_bytes sq" using point_region [OF assms(1) k(1)] by blast
    then have "sp = sq" using sync_point_bytes_inject [OF assms(2)] k(2) by (simp add: point_in_def)
    then show "ks_get K s (sync_point_bytes sp) \<noteq> None" using k(1) sq(2) by simp
  qed blast
  finally show ?thesis by (simp add: contains_key_raw_untracked_def)
qed

lemma insert_changeset_start:
  assumes "store_ok U P (ks_get K (tx_ks tx))" "sync_point_ok sp"
  shows "insert_changeset K P sp sm entries tx =
    (if ks_get K (tx_ks tx) (sync_point_bytes sp) \<noteq> None then (Inr False, tx)
     else tbind (insert_meta K P sp sm) (\<lambda>_.
        if sm_marker sm = Sm_Deletion
        then tbind (delete_scope_at_version K (sp_scope sp) (sp_ts sp)) (\<lambda>_. tret True)
        else tbind (tfold (insert_entry K (sp_ts sp)) entries) (\<lambda>_. tret True)) tx)"
  using assms contains_point [of "tx_ks tx" sp] sync_point_key_form [of sp]
  by (simp add: insert_changeset_def contains_key_untracked_def store_ok_def sync_point_ok_def)

text \<open>The sync point a changeset records; other points stay as they are.\<close>

definition point_added :: "sync_point \<Rightarrow> sync_meta \<Rightarrow> rows \<Rightarrow> rows \<Rightarrow> bool" where
  "point_added sp sm m m' \<longleftrightarrow> point_in m' sp \<and> point_meta P m' sp = Some sm
    \<and> (\<forall>sq. sync_point_ok sq \<longrightarrow> sq \<noteq> sp \<longrightarrow> m' (sync_point_bytes sq) = m (sync_point_bytes sq))"

lemma point_addedI:
  assumes "sync_point_ok sp" "from_bytes P v = Some sm"
    "\<And>sq. sync_point_ok sq \<Longrightarrow> m' (sync_point_bytes sq) = (m(sync_point_bytes sp \<mapsto> v)) (sync_point_bytes sq)"
  shows "point_added sp sm m m'"
  using assms sync_point_bytes_inject by (auto simp: point_added_def point_in_def point_meta_def)

lemma insert_changeset_mutation:
  assumes ok: "store_ok U P (ks_get K (tx_ks tx))" and sp: "sync_point_ok sp" and sm: "meta_ok sm" "sm_marker sm = Sm_Mutation"
    and new: "\<not> point_in (ks_get K (tx_ks tx)) sp" and es: "fst ` set entries \<subseteq> U" "distinct (map fst entries)"
  obtains s' where "insert_changeset K P sp sm entries tx = (Inr True, tx\<lparr>tx_ks := s'\<rparr>)"
    "store_ok U P (ks_get K s')" "point_added sp sm (ks_get K (tx_ks tx)) (ks_get K s')"
    "\<And>uk t. uk \<in> U \<Longrightarrow> mv (ks_get K s') uk t = (if t = sp_ts sp
        then merged (mv (ks_get K (tx_ks tx)) uk t) (map_of entries uk) else mv (ks_get K (tx_ks tx)) uk t)"
proof -
  let ?m = "ks_get K (tx_ks tx)"
  obtain v where v: "from_bytes P v = Some sm"
    "insert_meta K P sp sm tx = (Inr (), tx\<lparr>tx_ks := ks_insert K (tx_ks tx) (sync_point_bytes sp) v\<rparr>)"
    by (rule insert_meta_run [OF sp sm(1)])
  let ?s = "ks_insert K (tx_ks tx) (sync_point_bytes sp) v"
  have rows: "ks_get K ?s = ?m(sync_point_bytes sp \<mapsto> v)" by (simp add: get_insert)
  then have "store_ok U P (ks_get K ?s)" using store_ok_point [OF ok sp v(1)] by simp
  then obtain s' where s': "tfold (insert_entry K (sp_ts sp)) entries (tx\<lparr>tx_ks := ?s\<rparr>) = (Inr (), tx\<lparr>tx_ks := s'\<rparr>)"
    "store_ok U P (ks_get K s')" "\<forall>sq. ks_get K s' (sync_point_bytes sq) = ks_get K ?s (sync_point_bytes sq)"
    "\<forall>uk\<in>U. \<forall>t. mv (ks_get K s') uk t
        = (if t = sp_ts sp then merged (mv (ks_get K ?s) uk t) (map_of entries uk) else mv (ks_get K ?s) uk t)"
    using entries_run [of "tx\<lparr>tx_ks := ?s\<rparr>" entries "sp_ts sp"] es by (auto cong: if_cong)
  show thesis
  proof (rule that [OF _ s'(2)])
    show "insert_changeset K P sp sm entries tx = (Inr True, tx\<lparr>tx_ks := s'\<rparr>)"
      using insert_changeset_start [OF ok sp, of sm entries] new sp sm(2) v(2) s'(1) by (simp add: point_in_def)
    show "point_added sp sm ?m (ks_get K s')" using s'(3) rows by (intro point_addedI [OF sp v(1)]) simp
  qed (use s'(4) rows mv_point in auto)
qed

lemma insert_changeset_deletion:
  assumes ok: "store_ok U P (ks_get K (tx_ks tx))" and sp: "sync_point_ok sp" and sm: "meta_ok sm" "sm_marker sm = Sm_Deletion"
    and new: "\<not> point_in (ks_get K (tx_ks tx)) sp"
  obtains s' where "insert_changeset K P sp sm entries tx = (Inr True, tx\<lparr>tx_ks := s'\<rparr>)"
    "store_ok U P (ks_get K s')" "point_added sp sm (ks_get K (tx_ks tx)) (ks_get K s')"
    "\<And>uk t. uk \<in> U \<Longrightarrow> mv (ks_get K s') uk t =
       (if t = sp_ts sp \<and> in_scope (sp_scope sp) uk then None else mv (ks_get K (tx_ks tx)) uk t)"
proof -
  let ?m = "ks_get K (tx_ks tx)"
  obtain v where v: "from_bytes P v = Some sm"
    "insert_meta K P sp sm tx = (Inr (), tx\<lparr>tx_ks := ks_insert K (tx_ks tx) (sync_point_bytes sp) v\<rparr>)"
    by (rule insert_meta_run [OF sp sm(1)])
  let ?s = "ks_insert K (tx_ks tx) (sync_point_bytes sp) v"
  have rows: "ks_get K ?s = ?m(sync_point_bytes sp \<mapsto> v)" by (simp add: get_insert)
  then have okv: "store_ok U P (ks_get K ?s)" using store_ok_point [OF ok sp v(1)] by simp
  obtain s' where s': "delete_scope_at_version K (sp_scope sp) (sp_ts sp) (tx\<lparr>tx_ks := ?s\<rparr>) = (Inr (), tx\<lparr>tx_ks := s'\<rparr>)"
    "ks_get K s' = drop_version U (sp_scope sp) (sp_ts sp) (ks_get K ?s)"
    using delete_scope_at_version_run [of "tx\<lparr>tx_ks := ?s\<rparr>" "sp_scope sp" "sp_ts sp"] okv sp
    by (auto simp: sync_point_ok_def)
  show thesis
  proof (rule that)
    show "insert_changeset K P sp sm entries tx = (Inr True, tx\<lparr>tx_ks := s'\<rparr>)"
      using insert_changeset_start [OF ok sp, of sm entries] new sp sm(2) v(2) s'(1) by (simp add: point_in_def)
    show "store_ok U P (ks_get K s')" using store_ok_drop_version okv s'(2) by simp
    show "point_added sp sm ?m (ks_get K s')"
      using rows by (intro point_addedI [OF sp v(1)]) (simp add: s'(2) drop_version_other)
  qed (simp add: s'(2) mv_drop_version rows mv_point)
qed

end

section \<open>Committing\<close>

definition commit_point :: "'s transaction \<Rightarrow> scope \<Rightarrow> sync_point" where
  "commit_point tx sc = \<lparr>sp_scope = sc, sp_ts = tx_time tx, sp_epoch = tx_time tx, sp_node = tx_node tx\<rparr>"

definition commit_meta :: "'s transaction \<Rightarrow> sync_point option \<Rightarrow> sync_meta" where
  "commit_meta tx prev = \<lparr>sm_parent = map_option as_id prev, sm_parent_epoch = None, sm_marker = Sm_Mutation,
     sm_retention_period = tx_retention_period tx\<rparr>"

text \<open>A transaction whose node id and scopes are values of their Rust types.\<close>

definition tx_ok :: "'s transaction \<Rightarrow> bool" where
  "tx_ok tx \<longleftrightarrow> length (tx_node tx) = 16 \<and> (\<forall>sc\<in>set (active_scopes tx). scope_ok sc) \<and> distinct (active_scopes tx)
    \<and> (case tx_retention_period tx of None \<Rightarrow> True | Some d \<Rightarrow> d div 10 ^ 9 < 2 ^ 64)"

lemma commit_point_ks [simp]:
  "commit_point (tx\<lparr>tx_ks := s\<rparr>) sc = commit_point tx sc" "commit_meta (tx\<lparr>tx_ks := s\<rparr>) r = commit_meta tx r"
  "commit_point (tx\<lparr>active_scopes := a\<rparr>) sc = commit_point tx sc" "commit_meta (tx\<lparr>active_scopes := a\<rparr>) r = commit_meta tx r"
  by (simp_all add: commit_point_def commit_meta_def)

lemma is_last_cong:
  assumes "\<And>sp. Q sp \<Longrightarrow> point_in m sp = point_in m' sp"
  shows "is_last m Q r \<longleftrightarrow> is_last m' Q r"
  using assms by (cases r) (auto simp: is_last_def)

context meta_store
begin

lemma commit_scope_run:
  assumes ok: "store_ok U P (ks_get K (tx_ks tx))" and sc: "scope_ok sc" and node: "length (tx_node tx) = 16"
    and ret: "case tx_retention_period tx of None \<Rightarrow> True | Some d \<Rightarrow> d div 10 ^ 9 < 2 ^ 64"
  obtains r v where "is_last (ks_get K (tx_ks tx)) (of_version sc None) r"
    "to_allocvec P (commit_meta tx r) = Some v" "from_bytes P v = Some (commit_meta tx r)"
    "commit_scope K P sc tx = (Inr (), tx\<lparr>tx_ks := ks_insert K (tx_ks tx) (sync_point_bytes (commit_point tx sc)) v\<rparr>)"
proof -
  obtain r where r: "is_last (ks_get K (tx_ks tx)) (of_version sc None) r"
    "find_last_syncpoint_untracked K sc None tx = (Inr r, tx)"
    using find_last_syncpoint_run [OF _ sc, of tx None] ok by (auto simp: store_ok_def)
  have "meta_ok (commit_meta tx r)"
    using r(1) ret by (auto simp: meta_ok_def commit_meta_def is_last_def as_id_def point_in_def sync_point_ok_def split: option.splits)
  then obtain v where v: "to_allocvec P (commit_meta tx r) = Some v" "from_bytes P v = Some (commit_meta tx r)"
    using meta.from_to by blast
  have "sync_point_key (commit_point tx sc) = Inr (sync_point_bytes (commit_point tx sc))"
    using sc sync_point_key_form by (simp add: commit_point_def)
  then show thesis
    using that [OF r(1) v] r(2) v(1)
    by (simp add: commit_scope_def split_ts_def insert_meta_def Let_def commit_point_def commit_meta_def)
qed

lemma commit_scopes_run:
  assumes "store_ok U P (ks_get K (tx_ks tx))" "\<forall>sc\<in>set scs. scope_ok sc" "distinct scs"
    and node: "length (tx_node tx) = 16"
    and ret: "case tx_retention_period tx of None \<Rightarrow> True | Some d \<Rightarrow> d div 10 ^ 9 < 2 ^ 64"
  shows "\<exists>s'. tfold (commit_scope K P) scs tx = (Inr (), tx\<lparr>tx_ks := s'\<rparr>) \<and> store_ok U P (ks_get K s')
    \<and> (\<forall>sc\<in>set scs. \<exists>r v. is_last (ks_get K (tx_ks tx)) (of_version sc None) r \<and> to_allocvec P (commit_meta tx r) = Some v
        \<and> from_bytes P v = Some (commit_meta tx r) \<and> ks_get K s' (sync_point_bytes (commit_point tx sc)) = Some v)
    \<and> (\<forall>k. (\<forall>sc\<in>set scs. k \<noteq> sync_point_bytes (commit_point tx sc)) \<longrightarrow> ks_get K s' k = ks_get K (tx_ks tx) k)"
  using assms
proof (induction scs arbitrary: tx)
  case Nil
  then show ?case by (intro exI [of _ "tx_ks tx"]) simp
next
  case (Cons sc scs)
  let ?m = "ks_get K (tx_ks tx)" and ?cp = "commit_point tx"
  have sc: "scope_ok sc" "sc \<notin> set scs" using Cons.prems(2,3) by auto
  obtain r v where rv: "is_last ?m (of_version sc None) r" "to_allocvec P (commit_meta tx r) = Some v"
    "from_bytes P v = Some (commit_meta tx r)"
    "commit_scope K P sc tx = (Inr (), tx\<lparr>tx_ks := ks_insert K (tx_ks tx) (sync_point_bytes (?cp sc)) v\<rparr>)"
    by (rule commit_scope_run [OF Cons.prems(1) sc(1) Cons.prems(4,5)])
  let ?s = "ks_insert K (tx_ks tx) (sync_point_bytes (?cp sc)) v"
  have rows: "ks_get K ?s = ?m(sync_point_bytes (?cp sc) \<mapsto> v)" by (simp add: get_insert)
  have cp_ok: "sync_point_ok (?cp sc')" if "scope_ok sc'" for sc'
    using that Cons.prems(4) by (simp add: sync_point_ok_def commit_point_def)
  have "store_ok U P (ks_get K ?s)" using store_ok_point [OF Cons.prems(1) cp_ok [OF sc(1)] rv(3)] rows by simp
  then obtain s' where s': "tfold (commit_scope K P) scs (tx\<lparr>tx_ks := ?s\<rparr>) = (Inr (), tx\<lparr>tx_ks := s'\<rparr>)"
    "store_ok U P (ks_get K s')"
    "\<forall>sc\<in>set scs. \<exists>r v. is_last (ks_get K ?s) (of_version sc None) r \<and> to_allocvec P (commit_meta tx r) = Some v
        \<and> from_bytes P v = Some (commit_meta tx r) \<and> ks_get K s' (sync_point_bytes (?cp sc)) = Some v"
    "\<forall>k. (\<forall>sc\<in>set scs. k \<noteq> sync_point_bytes (?cp sc)) \<longrightarrow> ks_get K s' k = ks_get K ?s k"
    using Cons.IH [of "tx\<lparr>tx_ks := ?s\<rparr>"] Cons.prems(2-5) by auto
  have other: "sync_point_bytes (?cp sc') \<noteq> sync_point_bytes sp" if "scope_ok sc'" "sync_point_ok sp" "sp_scope sp \<noteq> sc'" for sc' sp
    using that sync_point_bytes_inject [OF cp_ok [OF that(1)] that(2)] by (auto simp: commit_point_def)
  have last_eq: "is_last (ks_get K ?s) (of_version sc' None) r' \<longleftrightarrow> is_last ?m (of_version sc' None) r'"
    if "sc' \<in> set scs" for sc' r'
  proof (rule is_last_cong)
    fix sp assume "of_version sc' None sp"
    then have "sp_scope sp \<noteq> sc" using that sc(2) by (auto simp: of_version_def)
    then show "point_in (ks_get K ?s) sp = point_in ?m sp"
      using other [OF sc(1), of sp] by (auto simp: point_in_def rows)
  qed
  have here: "ks_get K s' (sync_point_bytes (?cp sc)) = Some v"
  proof -
    have "sync_point_bytes (?cp sc) \<noteq> sync_point_bytes (?cp sc')" if "sc' \<in> set scs" for sc'
      using other [OF sc(1) cp_ok, of sc'] that sc(2) Cons.prems(2) by (auto simp: commit_point_def)
    then show ?thesis using s'(4) rows by simp
  qed
  have "\<exists>r v. is_last ?m (of_version sc' None) r \<and> to_allocvec P (commit_meta tx r) = Some v
      \<and> from_bytes P v = Some (commit_meta tx r) \<and> ks_get K s' (sync_point_bytes (?cp sc')) = Some v" if "sc' \<in> set scs" for sc'
    using bspec [OF s'(3) that] by (simp only: last_eq [OF that])
  then have "\<forall>sc'\<in>set (sc # scs). \<exists>r v. is_last ?m (of_version sc' None) r \<and> to_allocvec P (commit_meta tx r) = Some v
      \<and> from_bytes P v = Some (commit_meta tx r) \<and> ks_get K s' (sync_point_bytes (?cp sc')) = Some v"
    using rv(1-3) here by (metis set_ConsD)
  moreover have "\<forall>k. (\<forall>sc'\<in>set (sc # scs). k \<noteq> sync_point_bytes (?cp sc')) \<longrightarrow> ks_get K s' k = ?m k"
    using s'(4) rows by simp
  moreover have "tfold (commit_scope K P) (sc # scs) tx = (Inr (), tx\<lparr>tx_ks := s'\<rparr>)" using rv(4) s'(1) by simp
  ultimately show ?case using s'(2) by blast
qed

lemma commit_run:
  assumes "store_ok U P (ks_get K (tx_ks tx))" "tx_ok tx"
  obtains s' where "\<And>outcome. commit K P outcome tx = (case outcome of Committed \<Rightarrow> Inr s'
      | Conflicted \<Rightarrow> Inl Tx_Conflict | Poisoned \<Rightarrow> Inl Tx_Unavailable | Failed \<Rightarrow> Inl Tx_Engine)"
    "store_ok U P (ks_get K s')"
    "\<And>sc. sc \<in> set (active_scopes tx) \<Longrightarrow> \<exists>r v. is_last (ks_get K (tx_ks tx)) (of_version sc None) r
        \<and> to_allocvec P (commit_meta tx r) = Some v
        \<and> from_bytes P v = Some (commit_meta tx r) \<and> ks_get K s' (sync_point_bytes (commit_point tx sc)) = Some v"
    "\<And>k. (\<forall>sc\<in>set (active_scopes tx). k \<noteq> sync_point_bytes (commit_point tx sc)) \<Longrightarrow> ks_get K s' k = ks_get K (tx_ks tx) k"
proof -
  obtain s' where s': "tfold (commit_scope K P) (active_scopes tx) (tx\<lparr>active_scopes := []\<rparr>)
      = (Inr (), tx\<lparr>active_scopes := [], tx_ks := s'\<rparr>)" "store_ok U P (ks_get K s')"
    "\<forall>sc\<in>set (active_scopes tx). \<exists>r v. is_last (ks_get K (tx_ks tx)) (of_version sc None) r
        \<and> to_allocvec P (commit_meta tx r) = Some v
        \<and> from_bytes P v = Some (commit_meta tx r) \<and> ks_get K s' (sync_point_bytes (commit_point tx sc)) = Some v"
    "\<forall>k. (\<forall>sc\<in>set (active_scopes tx). k \<noteq> sync_point_bytes (commit_point tx sc)) \<longrightarrow> ks_get K s' k = ks_get K (tx_ks tx) k"
    using commit_scopes_run [of "tx\<lparr>active_scopes := []\<rparr>" "active_scopes tx"] assms by (auto simp: tx_ok_def)
  have "commit K P outcome tx = (case outcome of Committed \<Rightarrow> Inr s'
      | Conflicted \<Rightarrow> Inl Tx_Conflict | Poisoned \<Rightarrow> Inl Tx_Unavailable | Failed \<Rightarrow> Inl Tx_Engine)" for outcome
    using s'(1) by (cases outcome) (simp_all add: commit_def tbind_apply take_scopes_def)
  then show thesis using that s'(2-4) by blast
qed

text \<open>The order in which the hash set of scopes is iterated does not matter.\<close>

lemma commit_order:
  assumes ok: "store_ok U P (ks_get K (tx_ks tx))" "tx_ok tx" "tx_ok tx'"
    and eq: "tx' = tx\<lparr>active_scopes := active_scopes tx'\<rparr>" "set (active_scopes tx') = set (active_scopes tx)"
    and c: "commit K P Committed tx = Inr s" "commit K P Committed tx' = Inr s'"
  shows "ks_get K s = ks_get K s'"
proof
  fix k
  have ks: "tx_ks tx' = tx_ks tx" "commit_point tx' sc = commit_point tx sc" "commit_meta tx' r = commit_meta tx r" for sc r
    by (subst eq(1), simp)+
  obtain t where t: "commit K P Committed tx = Inr t"
    "\<And>sc. sc \<in> set (active_scopes tx) \<Longrightarrow> \<exists>r v. is_last (ks_get K (tx_ks tx)) (of_version sc None) r
        \<and> to_allocvec P (commit_meta tx r) = Some v \<and> ks_get K t (sync_point_bytes (commit_point tx sc)) = Some v"
    "\<And>k. (\<forall>sc\<in>set (active_scopes tx). k \<noteq> sync_point_bytes (commit_point tx sc)) \<Longrightarrow> ks_get K t k = ks_get K (tx_ks tx) k"
    by (rule commit_run [OF ok(1,2)]) (force split: commit_outcome.splits)
  obtain t' where t': "commit K P Committed tx' = Inr t'"
    "\<And>sc. sc \<in> set (active_scopes tx) \<Longrightarrow> \<exists>r v. is_last (ks_get K (tx_ks tx)) (of_version sc None) r
        \<and> to_allocvec P (commit_meta tx r) = Some v \<and> ks_get K t' (sync_point_bytes (commit_point tx sc)) = Some v"
    "\<And>k. (\<forall>sc\<in>set (active_scopes tx). k \<noteq> sync_point_bytes (commit_point tx sc)) \<Longrightarrow> ks_get K t' k = ks_get K (tx_ks tx) k"
    by (rule commit_run [of tx']) (use ok ks eq(2) in \<open>force split: commit_outcome.splits\<close>)+
  show "ks_get K s k = ks_get K s' k"
  proof (cases "\<exists>sc\<in>set (active_scopes tx). k = sync_point_bytes (commit_point tx sc)")
    case True
    then obtain sc where "sc \<in> set (active_scopes tx)" "k = sync_point_bytes (commit_point tx sc)" by blast
    with t(2) [of sc] t'(2) [of sc] show ?thesis using is_last_unique c t(1) t'(1) by fastforce
  next
    case False
    then show ?thesis using t(3) t'(3) c t(1) t'(1) by simp
  qed
qed

end

end
