(* ===== verification/User_Keys.thy ===== *)
theory User_Keys
  imports Changesets
begin

text \<open>
  The keys the API of \<open>swarm/db/src/store/fjall/tx.rs\<close> writes (key-value pairs, table entities,
  measurements, blobs, blob metadata and paths) satisfy what the version index relies on, although
  the key of a blob is a prefix of the keys of its metadata.
\<close>

section \<open>Closed forms\<close>

lemma serialize_hash: "serialize (hash_val h) = Inr (write_word (0 :: u32) @ h)"
proof -
  have "ser_all (map (serialize \<circ> VU8) h) = Inr h"
    by (induction h) (simp_all add: serialize_u8_def)
  then show ?thesis by (simp add: hash_val_def ser_pre_def)
qed

lemma path_key_form:
  "scope_ok sc \<Longrightarrow> 0 \<notin> set p \<Longrightarrow> path_key sc p = Inr (scope_bytes sc @ lit ''fn'' @ p @ [0])"
  by (simp add: path_key_def key_form_simps)

lemma blob_id_key_form:
  "scope_ok sc \<Longrightarrow> blob_id_key sc h = Inr (scope_bytes sc @ lit ''fs'' @ write_word (0 :: u32) @ h)"
  by (simp add: blob_id_key_def key_form_simps serialize_hash)

lemma blob_meta_key_form:
  "scope_ok sc \<Longrightarrow> 0 \<notin> set p \<Longrightarrow>
    blob_meta_key sc h p = Inr (scope_bytes sc @ lit ''fs'' @ write_word (0 :: u32) @ h @ lit ''$'' @ p @ [0])"
  by (simp add: blob_meta_key_def key_form_simps serialize_hash)

section \<open>The user keys\<close>

text \<open>What follows the scope in a user key, by the class of the key.\<close>

datatype key_body =
    Kv bytes
  | Entity bytes bytes
  | Measurement bytes u64
  | Blob_Id bytes
  | Blob_Meta bytes bytes
  | Path bytes

primrec body_bytes :: "key_body \<Rightarrow> bytes" where
  "body_bytes (Kv key) = lit ''kv'' @ key @ [0]"
| "body_bytes (Entity name ident) = lit ''tb'' @ name @ 0 # serialize_bytes ident"
| "body_bytes (Measurement m ts) = lit ''ts'' @ m @ 0 # lit ''/'' @ write_word ts"
| "body_bytes (Blob_Id h) = lit ''fs'' @ write_word (0 :: u32) @ h"
| "body_bytes (Blob_Meta h p) = lit ''fs'' @ write_word (0 :: u32) @ h @ lit ''$'' @ p @ [0]"
| "body_bytes (Path p) = lit ''fn'' @ p @ [0]"

primrec body_ok :: "key_body \<Rightarrow> bool" where
  "body_ok (Kv key) = (name_ok key)"
| "body_ok (Entity name ident) = (name_ok name \<and> length ident < 2 ^ 64)"
| "body_ok (Measurement m ts) = (name_ok m)"
| "body_ok (Blob_Id h) = (length h = 32)"
| "body_ok (Blob_Meta h p) = (length h = 32 \<and> name_ok p)"
| "body_ok (Path p) = (name_ok p)"

definition user_key :: "scope \<Rightarrow> key_body \<Rightarrow> bytes" where
  "user_key sc b = scope_bytes sc @ body_bytes b"

definition domain_keys :: "bytes set" where
  "domain_keys = {user_key sc b | sc b. scope_ok sc \<and> body_ok b}"

lemma user_key_forms:
  assumes "scope_ok sc"
  shows "0 \<notin> set key \<Longrightarrow> kv_key sc key = Inr (user_key sc (Kv key))"
    and "0 \<notin> set name \<Longrightarrow> entity_key sc name ident = Inr (user_key sc (Entity name ident))"
    and "0 \<notin> set m \<Longrightarrow> measurement_key sc m ts = Inr (user_key sc (Measurement m ts))"
    and "blob_id_key sc h = Inr (user_key sc (Blob_Id h))"
    and "0 \<notin> set p \<Longrightarrow> blob_meta_key sc h p = Inr (user_key sc (Blob_Meta h p))"
    and "0 \<notin> set p \<Longrightarrow> path_key sc p = Inr (user_key sc (Path p))"
  using assms by (simp_all add: user_key_def kv_key_form entity_key_form measurement_key_form blob_id_key_form
      blob_meta_key_form path_key_form)

lemma user_key_mem [simp, intro]: "scope_ok sc \<Longrightarrow> body_ok b \<Longrightarrow> user_key sc b \<in> domain_keys"
  by (auto simp: domain_keys_def)

lemma user_key_in_scope [simp]: "in_scope sc (user_key sc b)"
  by (simp add: in_scope_def user_key_def)

section \<open>Which keys continue others\<close>

lemma nul_prefix_iff:
  "0 \<notin> set a \<Longrightarrow> 0 \<notin> set b \<Longrightarrow> prefix (a @ 0 # x) (b @ 0 # y) \<longleftrightarrow> a = b \<and> prefix x y"
proof (induction a arbitrary: b)
  case Nil
  then show ?case by (cases b) auto
next
  case (Cons c a)
  then show ?case by (cases b) auto
qed

lemma serialize_bytes_prefix:
  assumes "length a < 2 ^ 64" "length b < 2 ^ 64" "prefix (serialize_bytes a) (serialize_bytes b)"
  shows "a = b"
  using serde.prefix_free [of TBytes "VBytes a" "VBytes b" "serialize_bytes a" "serialize_bytes b"] assms by simp

text \<open>Among the bodies, only a blob's metadata continues another key, the blob's.\<close>

lemma nul_not_prefix [simp]: "0 \<notin> set b \<Longrightarrow> \<not> prefix (a @ 0 # x) b"
  by (auto simp: prefix_def)

lemma prefix_same_length: "length a = length b \<Longrightarrow> prefix a (b @ r) \<longleftrightarrow> a = b"
  using prefix_append_len [of a b "[]" r] by simp

lemma body_prefix:
  assumes "body_ok b" "body_ok b'" "prefix (body_bytes b) (body_bytes b')"
  shows "b = b' \<or> (\<exists>h p. b = Blob_Id h \<and> b' = Blob_Meta h p)"
proof -
  have eq: "h = h'" if "length h = 32" "length h' = 32" "prefix h h'" for h h' :: bytes
    using that prefix_same_length [of h h' "[]"] by simp
  have eq64: "t = t'" if "prefix (write_word t) (write_word (t' :: u64))" for t t'
    using that prefix_same_length [of "write_word t" "write_word t'" "[]"] by simp
  show ?thesis
  proof (cases b)
    case (Blob_Meta h p)
    show ?thesis
    proof (cases b')
      case (Blob_Id h')
      then show ?thesis using assms Blob_Meta prefix_length_le [of "body_bytes b" "body_bytes b'"] by simp
    qed (use assms Blob_Meta in \<open>auto simp: name_ok_def nul_prefix_iff prefix_append_len simp del: prefix_snoc\<close>)
  next
    case (Blob_Id h)
    then show ?thesis using assms
      by (cases b') (auto simp: name_ok_def prefix_append_len prefix_same_length dest: eq simp del: prefix_snoc)
  next
    case (Entity n i)
    then show ?thesis using assms
      by (cases b') (auto simp: name_ok_def nul_prefix_iff dest: serialize_bytes_prefix [simplified])
  qed (use assms in \<open>(cases b'; auto simp: name_ok_def nul_prefix_iff prefix_append_len dest: eq64 simp del: prefix_snoc)+\<close>)
qed

lemma zero_pair:
  fixes S X r :: bytes
  assumes pfx: "prefix X (S @ X @ r)" and S: "S \<noteq> []" "S ! 0 \<noteq> 0" "\<And>j. Suc j < length S \<Longrightarrow> S ! j \<noteq> 0"
  shows "Suc i < length X \<Longrightarrow> X ! i = 0 \<Longrightarrow> X ! Suc i = 0 \<Longrightarrow> False"
proof (induction i rule: less_induct)
  case (less i)
  obtain z where z: "S @ X @ r = X @ z" using pfx by (auto simp: prefix_def)
  have X: "X ! j = (S @ X @ r) ! j" if "j < length X" for j
    using that nth_append [of X z j] by (simp only: z if_True)
  consider "Suc i < length S" | "Suc i = length S" | "length S \<le> i" by linarith
  then show False
  proof cases
    case 1
    then show ?thesis using X [of i] less.prems S(3) [of i] by (simp add: nth_append)
  next
    case 2
    then have "X ! Suc i = X ! 0" using X [of "Suc i"] less.prems by (cases X) (simp_all add: nth_append)
    also have "\<dots> = S ! 0" using X [of 0] less.prems S(1) by (cases X) (auto simp: nth_append)
    finally show ?thesis using S(2) less.prems by simp
  next
    case 3
    then have "i - length S < length X" "Suc (i - length S) < length X" using less.prems by auto
    with 3 have "X ! i = X ! (i - length S)" "X ! Suc i = X ! Suc (i - length S)"
      using X [of i] X [of "Suc i"] less.prems by (simp_all add: nth_append Suc_diff_le)
    moreover have "i - length S < i" using 3 S(1) by (cases S) auto
    ultimately show ?thesis using less.IH [of "i - length S"] less.prems by simp
  qed
qed

lemma blob_meta_separated:
  assumes "0 \<notin> set p"
  shows "\<not> prefix (write_word (w :: u64) @ [0, 0, 0]) ((36 # p @ [0]) @ (write_word w @ [0, 0, 0]) @ r)"
proof
  assume "prefix (write_word w @ [0, 0, 0]) ((36 # p @ [0]) @ (write_word w @ [0, 0, 0]) @ r)"
  moreover have "(36 # p @ [0]) ! j \<noteq> 0" if "Suc j < length (36 # p @ [0])" for j
    using that assms by (cases j) (auto simp: nth_append in_set_conv_nth)
  moreover have "(write_word w @ [0, 0, 0]) ! 8 = 0" "(write_word w @ [0, 0, 0]) ! Suc 8 = 0"
    by (simp_all add: nth_append)
  ultimately show False using zero_pair [of "write_word w @ [0, 0, 0]" "36 # p @ [0]" r 8] by simp
qed

lemma row_continues:
  assumes "prefix (a @ X) (b @ X @ [k])" "last X \<noteq> k" "X \<noteq> []"
  shows "prefix a b"
proof (cases "length a \<le> length b")
  case True
  from assms(1) have "prefix a (b @ X @ [k])" by (rule append_prefixD)
  moreover have "prefix b (b @ X @ [k])" by simp
  ultimately show ?thesis using True by (rule prefix_length_prefix)
next
  case False
  from assms(1) obtain z where z: "b @ X @ [k] = a @ X @ z" by (auto simp: prefix_def)
  from arg_cong [OF this, of length] have "length b + 1 = length a + length z" by simp
  then have "z = []" using False by (cases z) auto
  then have "(b @ X) @ [k] = a @ X" using z by simp
  then have "k = last (a @ X)" by (metis last_snoc)
  then show ?thesis using assms(2,3) by simp
qed

lemma user_key_separated:
  assumes "scope_ok sc" "body_ok b" "scope_ok sc'" "body_ok b'"
    and pfx: "prefix (user_key sc b @ write_word (- 1 - t :: u64) @ [0, 0, 0]) (encode_row (user_key sc' b') t kd)"
  shows "user_key sc b = user_key sc' b'"
proof -
  let ?X = "write_word (- 1 - t :: u64) @ [0, 0, 0 :: byte]"
  obtain k where k: "write_word (kind_num kd) = [0, 0, 0, k]" "k \<noteq> 0"
    using write_kind [of kd] by blast
  have row: "encode_row (user_key sc' b') t kd = user_key sc' b' @ ?X @ [k]" by (simp add: encode_row_def k)
  have p: "prefix (user_key sc b) (user_key sc' b')"
  proof (rule row_continues)
    show "prefix (user_key sc b @ ?X) (user_key sc' b' @ ?X @ [k])" using pfx by (simp only: row)
    show "last ?X \<noteq> k" using k(2) by simp
  qed simp
  then have "prefix (scope_bytes sc) (scope_bytes sc' @ body_bytes b')" unfolding user_key_def by (rule append_prefixD)
  then have sc: "sc = sc'" using scope_bytes_prefix assms(1,3) by blast
  with p have "prefix (body_bytes b) (body_bytes b')" by (simp add: user_key_def)
  with body_prefix [OF assms(2,4)] have "b = b' \<or> (\<exists>h p. b = Blob_Id h \<and> b' = Blob_Meta h p)" by blast
  then show ?thesis
  proof (elim disjE exE conjE)
    fix h p assume b: "b = Blob_Id h" "b' = Blob_Meta h p"
    have "encode_row (user_key sc' b') t kd = user_key sc b @ (36 # p @ [0]) @ ?X @ [k]"
      unfolding row by (simp add: user_key_def b sc)
    then have "prefix ?X ((36 # p @ [0]) @ ?X @ [k])" using pfx by (simp only: same_prefix_prefix)
    moreover have "0 \<notin> set p" using assms(4) b(2) by (simp add: name_ok_def)
    ultimately show ?thesis using blob_meta_separated by blast
  qed (simp add: sc)
qed

interpretation dom: user_keys domain_keys
proof unfold_locales
  fix uk uk' :: bytes and t :: u64 and kd
  assume "uk \<in> domain_keys" "uk' \<in> domain_keys"
    "prefix (uk @ write_word (- 1 - t) @ [0, 0, 0]) (encode_row uk' t kd)"
  then show "uk = uk'" unfolding domain_keys_def using user_key_separated by blast
qed (auto simp: domain_keys_def)

lemma meta_storeI: "keyspace K \<Longrightarrow> postcard_codec P meta_ok \<Longrightarrow> meta_store K domain_keys P"
  by (simp add: meta_store_def user_store_def dom.user_keys_axioms)

text \<open>The scope and the body of a user key are determined by its bytes.\<close>

lemma user_key_inject:
  assumes "scope_ok sc" "scope_ok sc'" "body_ok b" "body_ok b'" "user_key sc b = user_key sc' b'"
  shows "sc = sc' \<and> b = b'"
proof -
  have "prefix (scope_bytes sc) (scope_bytes sc' @ body_bytes b')" using assms(5) by (simp add: user_key_def prefix_def) metis
  then have sc: "sc = sc'" using scope_bytes_prefix assms(1,2) by blast
  with assms(5) have "body_bytes b = body_bytes b'" by (simp add: user_key_def)
  then show ?thesis using body_prefix [OF assms(3,4)] body_prefix [OF assms(4,3)] sc by auto
qed

end
