(* ===== verification/Store_Api.thy ===== *)
theory Store_Api
  imports User_Keys
begin

text \<open>
  The API block of \<open>swarm/db/src/store/fjall/tx.rs\<close>: key-value pairs, tables, measurements and
  blobs. Every method is an operation on the transaction; the SHA-256 digest and the serialisation
  of a measurement's body are parameters. \<open>debug_assert\<close>s (compiled out of a release build) are
  left out.
\<close>

section \<open>Reading keys back\<close>

definition key_fields :: "segment_spec list \<Rightarrow> nat \<Rightarrow> bytes \<Rightarrow> tx_error + (string \<times> sval) list" where
  "key_fields spec n bs = lift_key (decode_exact (builder_decode (key_segments spec) n) bs)"

fun str_field :: "sval option \<Rightarrow> bytes" where
  "str_field (Some (VStr s)) = s"
| "str_field _ = []"

fun bytes_field :: "sval option \<Rightarrow> bytes" where
  "bytes_field (Some (VBytes b)) = b"
| "bytes_field _ = []"

fun u64_field :: "sval option \<Rightarrow> u64" where
  "u64_field (Some (VU64 w)) = w"
| "u64_field _ = 0"

fun hash_field :: "sval option \<Rightarrow> bytes" where
  "hash_field (Some (VNewtypeVariant _ (VTuple vs))) = map (\<lambda>v. case v of VU8 b \<Rightarrow> b | _ \<Rightarrow> 0) vs"
| "hash_field _ = []"

definition scope_of_fields :: "(string \<times> sval) list \<Rightarrow> scope" where
  "scope_of_fields fs = \<lparr>namespace = str_field (map_of fs ''namespace''), database = str_field (map_of fs ''database''),
     schema = str_field (map_of fs ''schema'')\<rparr>"

text \<open>\<open>UserKey\<close>, \<open>Entity\<close>, \<open>Measurement\<close>, \<open>Path\<close> and \<open>BlobId\<close>, decoded exactly.\<close>

definition user_key_decode :: "bytes \<Rightarrow> tx_error + bytes" where
  "user_key_decode bs = and_then (key_fields kv_spec 4 bs) (\<lambda>fs. Inr (str_field (map_of fs ''key'')))"

definition entity_decode :: "bytes \<Rightarrow> tx_error + bytes" where
  "entity_decode bs = and_then (key_fields table_spec 5 bs) (\<lambda>fs. Inr (bytes_field (map_of fs ''id'')))"

definition measurement_decode :: "bytes \<Rightarrow> tx_error + u64" where
  "measurement_decode bs = and_then (key_fields measurement_spec 5 bs) (\<lambda>fs. Inr (u64_field (map_of fs ''timestamp'')))"

definition path_decode :: "bytes \<Rightarrow> tx_error + bytes" where
  "path_decode bs = and_then (key_fields path_spec 4 bs) (\<lambda>fs. Inr (str_field (map_of fs ''path'')))"

type_synonym blob_id = "scope \<times> bytes"
type_synonym path = "scope \<times> bytes"

definition blob_id_decode :: "bytes \<Rightarrow> tx_error + blob_id" where
  "blob_id_decode bs = and_then (key_fields blob_id_spec 4 bs) (\<lambda>fs. Inr (scope_of_fields fs, hash_field (map_of fs ''hash'')))"

section \<open>Key-value pairs\<close>

definition value_of :: "(bytes \<times> bytes) option \<Rightarrow> bytes option" where
  "value_of e = map_option snd e"

definition key_get :: "'s engine \<Rightarrow> scope \<Rightarrow> bytes \<Rightarrow> ('s transaction, bytes option) op" where
  "key_get K sc key = tbind (tx_get K (kv_key sc key)) (\<lambda>e. tret (value_of e))"

definition key_put :: "'s engine \<Rightarrow> scope \<Rightarrow> bytes \<Rightarrow> bytes \<Rightarrow> ('s transaction, unit) op" where
  "key_put K sc key value = tbind (write_scope sc) (\<lambda>ts. put_at K (kv_key sc key) value ts)"

definition key_delete :: "'s engine \<Rightarrow> scope \<Rightarrow> bytes \<Rightarrow> ('s transaction, unit) op" where
  "key_delete K sc key = tbind (write_scope sc) (\<lambda>ts. erase_at K (kv_key sc key) ts)"

text \<open>\<open>map\<close> and \<open>collect::<Result<Vec<_>>>\<close> over the items of an iterator.\<close>

fun collect_items :: "('a \<Rightarrow> tx_error + 'b) \<Rightarrow> 'a items \<Rightarrow> tx_error + 'b list" where
  "collect_items f [] = Inr []"
| "collect_items f (item # it) =
    and_then (and_then item f) (\<lambda>y. and_then (collect_items f it) (\<lambda>ys. Inr (y # ys)))"

definition key_prefix :: "'s engine \<Rightarrow> scope \<Rightarrow> bytes \<Rightarrow> ('s transaction, bytes list) op" where
  "key_prefix K sc pre = tbind (tlift (lift_enc (kv_key sc pre))) (\<lambda>key.
     tread (\<lambda>s. collect_items user_key_decode (prefix_latest_untracked K s (butlast key))))"

definition key_list :: "'s engine \<Rightarrow> scope \<Rightarrow> bytes \<Rightarrow> ('s transaction, (bytes \<times> bytes) list) op" where
  "key_list K sc pre = tbind (tlift (lift_enc (kv_key sc pre))) (\<lambda>key.
     case prefix_to_range (butlast key) of (lower, upper) \<Rightarrow>
       tread (\<lambda>s. collect_items (\<lambda>(uk, value). and_then (user_key_decode uk) (\<lambda>k. Inr (k, value)))
         (range_latest_kv_untracked K s lower upper)))"

section \<open>Tables\<close>

definition tb_count :: "'s engine \<Rightarrow> scope \<Rightarrow> bytes \<Rightarrow> ('s transaction, nat) op" where
  "tb_count K sc name = tbind (tlift (lift_enc (table_prefix sc name))) (\<lambda>table.
     tread (\<lambda>s. and_then (collect_items entity_decode (prefix_latest_untracked K s table)) (\<lambda>es. Inr (length es))))"

definition tb_get :: "'s engine \<Rightarrow> scope \<Rightarrow> bytes \<Rightarrow> bytes \<Rightarrow> ('s transaction, bytes option) op" where
  "tb_get K sc name ident = tbind (tx_get K (entity_key sc name ident)) (\<lambda>e. tret (value_of e))"

definition tb_delete :: "'s engine \<Rightarrow> scope \<Rightarrow> bytes \<Rightarrow> bytes \<Rightarrow> ('s transaction, unit) op" where
  "tb_delete K sc name ident = tbind (write_scope sc) (\<lambda>ts. erase_at K (entity_key sc name ident) ts)"

definition tb_insert :: "'s engine \<Rightarrow> scope \<Rightarrow> bytes \<Rightarrow> bytes \<Rightarrow> bytes \<Rightarrow> ('s transaction, unit) op" where
  "tb_insert K sc name ident value = tbind (write_scope sc) (\<lambda>ts. put_at K (entity_key sc name ident) value ts)"

definition tb_insert_batched :: "'s engine \<Rightarrow> scope \<Rightarrow> bytes \<Rightarrow> (bytes \<times> bytes) list \<Rightarrow> ('s transaction, unit) op" where
  "tb_insert_batched K sc name entries = tbind (write_scope sc) (\<lambda>ts.
     tfold (\<lambda>(ident, value). put_at K (entity_key sc name ident) value ts) entries)"

datatype cursor = After bytes | At bytes | Skip nat
datatype tb_order_by = Key_Asc | Key_Desc

definition usize_max :: nat where
  "usize_max = 2 ^ 64 - 1"

text \<open>The bounds and the number of entries to skip; \<open>None\<close> when nothing can follow the cursor.\<close>

definition tb_bounds :: "scope \<Rightarrow> bytes \<Rightarrow> bytes \<Rightarrow> bytes option \<Rightarrow> tb_order_by \<Rightarrow> cursor option
    \<Rightarrow> tx_error + (bytes \<times> bytes option \<times> nat) option" where
  "tb_bounds sc name table_lo table_hi order cur =
    (case (order, cur) of
       (Key_Asc, Some (At ident)) \<Rightarrow>
         and_then (lift_enc (entity_key sc name ident)) (\<lambda>k. Inr (Some (k, table_hi, 0)))
     | (Key_Asc, Some (After ident)) \<Rightarrow>
         and_then (lift_enc (entity_key sc name ident)) (\<lambda>k.
           case snd (prefix_to_range k) of
             Some after \<Rightarrow> Inr (Some (after, table_hi, 0))
           | None \<Rightarrow> Inr None)
     | (Key_Asc, Some (Skip offset)) \<Rightarrow> Inr (Some (table_lo, table_hi, offset))
     | (Key_Asc, None) \<Rightarrow> Inr (Some (table_lo, table_hi, 0))
     | (Key_Desc, Some (At ident)) \<Rightarrow>
         and_then (lift_enc (entity_key sc name ident)) (\<lambda>k.
           case snd (prefix_to_range k) of
             Some after \<Rightarrow> Inr (Some (table_lo, Some after, 0))
           | None \<Rightarrow> Inr (Some (table_lo, table_hi, 0)))
     | (Key_Desc, Some (After ident)) \<Rightarrow>
         and_then (lift_enc (entity_key sc name ident)) (\<lambda>k. Inr (Some (table_lo, Some k, 0)))
     | (Key_Desc, Some (Skip offset)) \<Rightarrow> Inr (Some (table_lo, table_hi, offset))
     | (Key_Desc, None) \<Rightarrow> Inr (Some (table_lo, table_hi, 0)))"

fun tb_list_loop :: "nat \<Rightarrow> nat \<Rightarrow> (bytes \<times> bytes) list \<Rightarrow> (bytes \<times> bytes) items \<Rightarrow> tx_error + (bytes \<times> bytes) list" where
  "tb_list_loop skip limit results [] = Inr results"
| "tb_list_loop skip limit results (entry # entries) =
    and_then entry (\<lambda>(key, value).
      if skip > 0 then tb_list_loop (skip - 1) limit results entries
      else if length results \<ge> limit then Inr results
      else and_then (entity_decode key) (\<lambda>ident. tb_list_loop skip limit (results @ [(ident, value)]) entries))"

definition tb_list :: "'s engine \<Rightarrow> scope \<Rightarrow> bytes \<Rightarrow> cursor option \<Rightarrow> nat option \<Rightarrow> tb_order_by option
    \<Rightarrow> ('s transaction, (bytes \<times> bytes) list) op" where
  "tb_list K sc name cur limit ord =
    (let order = (case ord of None \<Rightarrow> Key_Asc | Some r \<Rightarrow> r);
         lim = (case limit of None \<Rightarrow> usize_max | Some l \<Rightarrow> l)
     in tbind (tlift (lift_enc (table_prefix sc name))) (\<lambda>table.
          case prefix_to_range table of (table_lo, table_hi) \<Rightarrow>
            tbind (tlift (tb_bounds sc name table_lo table_hi order cur)) (\<lambda>bounds.
              case bounds of
                None \<Rightarrow> tret []
              | Some (lower, upper, skip) \<Rightarrow>
                  tread (\<lambda>s. tb_list_loop skip lim []
                    (case order of
                       Key_Asc \<Rightarrow> range_latest_kv_untracked K s lower upper
                     | Key_Desc \<Rightarrow> range_latest_kv_untracked_rev K s lower upper)))))"

section \<open>Measurements\<close>

datatype ts_order_by = Timestamp_Asc | Timestamp_Desc

definition publish_measurement :: "'s engine \<Rightarrow> 'b postcard \<Rightarrow> scope \<Rightarrow> bytes \<Rightarrow> 'b \<Rightarrow> u64 \<Rightarrow> ('s transaction, unit) op" where
  "publish_measurement K B sc m body timestamp = tbind (write_scope sc) (\<lambda>ts.
     tbind (tlift (case to_allocvec B body of None \<Rightarrow> Inl (Tx_Context ''unable to serialise measurement body'') | Some v \<Rightarrow> Inr v))
       (\<lambda>value. put_at K (measurement_key sc m timestamp) value ts))"

definition measurement_prefix :: "scope \<Rightarrow> bytes \<Rightarrow> ser_error + bytes" where
  "measurement_prefix sc m = builder_encode (key_segments measurement_spec) 4 (self_of (scope_fields sc @ [(''measurement'', VStr m)]))"

definition decode_measurement :: "'b postcard \<Rightarrow> bytes \<times> bytes \<Rightarrow> tx_error + 'b \<times> u64" where
  "decode_measurement B e =
    and_then (measurement_decode (fst e)) (\<lambda>timestamp.
      case from_bytes B (snd e) of
        None \<Rightarrow> Inl (Tx_Context ''unable to deserialise measurement body'')
      | Some body \<Rightarrow> Inr (body, timestamp))"

definition find_measurement :: "'s engine \<Rightarrow> 'b postcard \<Rightarrow> scope \<Rightarrow> bytes \<Rightarrow> nat option \<Rightarrow> u64 option \<Rightarrow> u64 option
    \<Rightarrow> ts_order_by option \<Rightarrow> ('s transaction, ('b \<times> u64) list) op" where
  "find_measurement K B sc m limit start stop ord =
    tbind (tlift (lift_key (key_range (measurement_prefix sc m)))) (\<lambda>(prefix_lower, prefix_upper).
      tbind (tlift (case start of None \<Rightarrow> Inr prefix_lower | Some t \<Rightarrow> lift_enc (measurement_key sc m t))) (\<lambda>lower.
        tbind (tlift (case stop of None \<Rightarrow> Inr prefix_upper | Some t \<Rightarrow> lift_enc (measurement_key sc m t))) (\<lambda>upper.
          tread (\<lambda>s. collect_items (decode_measurement B)
            (take (case limit of None \<Rightarrow> usize_max | Some l \<Rightarrow> l)
              (case (case ord of None \<Rightarrow> Timestamp_Desc | Some r \<Rightarrow> r) of
                 Timestamp_Asc \<Rightarrow> range_latest_kv K s lower upper
               | Timestamp_Desc \<Rightarrow> range_latest_kv_rev K s lower upper))))))"

section \<open>Blobs\<close>

definition store_blob :: "'s engine \<Rightarrow> (bytes \<Rightarrow> bytes) \<Rightarrow> scope \<Rightarrow> bytes \<Rightarrow> ('s transaction, blob_id) op" where
  "store_blob K sha256 sc blob = tbind (write_scope sc) (\<lambda>ts.
     let hash = sha256 blob
     in tbind (put_at K (blob_id_key sc hash) blob ts) (\<lambda>_. tret (sc, hash)))"

definition link_blob :: "'s engine \<Rightarrow> path \<Rightarrow> blob_id \<Rightarrow> ('s transaction, unit) op" where
  "link_blob K path ident = tbind (write_scope (fst path)) (\<lambda>ts.
     tbind (put_at K (blob_meta_key (fst path) (snd ident) (snd path)) [] ts) (\<lambda>_.
       tbind (tlift (lift_enc (blob_id_key (fst ident) (snd ident)))) (\<lambda>raw.
         put_at K (path_key (fst path) (snd path)) raw ts)))"

definition unlink_blob :: "'s engine \<Rightarrow> path \<Rightarrow> ('s transaction, (blob_id \<times> bytes option) option) op" where
  "unlink_blob K path = tbind (write_scope (fst path)) (\<lambda>ts.
     tbind (tx_get K (path_key (fst path) (snd path))) (\<lambda>found.
       case found of
         None \<Rightarrow> tret None
       | Some (_, raw) \<Rightarrow>
           tbind (tlift (blob_id_decode raw)) (\<lambda>(_, hash).
             let ident = (fst path, hash); meta = blob_meta_key (fst path) hash (snd path)
             in tbind (tx_get K meta) (\<lambda>m.
                  tbind (if value_of m \<noteq> None then erase_at K meta ts else tret ()) (\<lambda>_.
                    tbind (erase_at K (path_key (fst path) (snd path)) ts) (\<lambda>_.
                      tret (Some (ident, value_of m))))))))"

definition move_blob :: "'s engine \<Rightarrow> path \<Rightarrow> path \<Rightarrow> ('s transaction, unit) op" where
  "move_blob K old_path new_path = tbind (unlink_blob K old_path) (\<lambda>r.
     case r of
       None \<Rightarrow> tlift (Inl (Tx_Context ''no blob at source path''))
     | Some (ident, _) \<Rightarrow> link_blob K new_path ident)"

definition resolve_blob :: "'s engine \<Rightarrow> blob_id \<Rightarrow> ('s transaction, bytes option) op" where
  "resolve_blob K ident = tbind (tx_get K (blob_id_key (fst ident) (snd ident))) (\<lambda>e. tret (value_of e))"

definition resolve_path :: "'s engine \<Rightarrow> path \<Rightarrow> ('s transaction, (bytes \<times> blob_id) option) op" where
  "resolve_path K path = tbind (tx_get K (path_key (fst path) (snd path))) (\<lambda>found.
     case found of
       None \<Rightarrow> tret None
     | Some (_, raw) \<Rightarrow>
         tbind (tlift (blob_id_decode raw)) (\<lambda>ident.
           tbind (resolve_blob K ident) (\<lambda>blob.
             case blob of
               None \<Rightarrow> tret None
             | Some b \<Rightarrow> tret (Some (b, (fst path, snd ident))))))"

definition resolve_path_metadata :: "'s engine \<Rightarrow> path \<Rightarrow> ('s transaction, bytes option) op" where
  "resolve_path_metadata K path = tbind (tx_get K (path_key (fst path) (snd path))) (\<lambda>found.
     case found of
       None \<Rightarrow> tret None
     | Some (_, raw) \<Rightarrow>
         tbind (tlift (blob_id_decode raw)) (\<lambda>(_, hash).
           tbind (tx_get K (blob_meta_key (fst path) hash (snd path))) (\<lambda>m. tret (value_of m))))"

definition path_prefix :: "scope \<Rightarrow> ser_error + bytes" where
  "path_prefix sc = builder_encode (key_segments path_spec) 3 (self_of (scope_fields sc))"

fun list_paths_loop :: "nat \<Rightarrow> bytes list \<Rightarrow> bytes items \<Rightarrow> tx_error + bytes list" where
  "list_paths_loop limit paths [] = Inr paths"
| "list_paths_loop limit paths (key # it) =
    and_then key (\<lambda>k. if length paths \<ge> limit then Inr paths
      else and_then (path_decode k) (\<lambda>p. list_paths_loop limit (paths @ [p]) it))"

definition list_paths :: "'s engine \<Rightarrow> scope \<Rightarrow> nat option \<Rightarrow> ('s transaction, bytes list) op" where
  "list_paths K sc limit = tbind (tlift (lift_enc (path_prefix sc))) (\<lambda>pre.
     tread (\<lambda>s. list_paths_loop (case limit of None \<Rightarrow> usize_max | Some l \<Rightarrow> l) [] (prefix_latest K s pre)))"

end
