(* ===== verification/Store_Api_Spec.thy ===== *)
theory Store_Api_Spec
  imports Store_Api
begin

text \<open>
  What the API methods do: keys decode to what they were built from, every method keeps the
  invariant of the store whatever branch it takes, writes are visible to reads of the same
  transaction, and listings contain the current values in key order.
\<close>

section \<open>Keys\<close>

lemma key_fields_bytes:
  assumes "builder_encode (key_segments spec) n self = Inr bs" "fields_typed (take n (seg_fields (key_segments spec))) self"
  shows "key_fields spec n bs = Inr (field_values (take n (seg_fields (key_segments spec))) self)"
  using invertsD [OF builder_inverts [OF assms(2)] assms(1), of "[]"]
  by (simp add: key_fields_def decode_exact_def remaining_def lift_key_def)

lemmas key_typed_simps = key_segments_eqs fields_typed_def field_values_def scope_fields_def kind_to_storage_ty_def
  scope_ok_def name_ok_def

lemma user_key_decode_key:
  assumes "scope_ok sc" "name_ok key"
  shows "user_key_decode (user_key sc (Kv key)) = Inr key"
  using assms key_fields_bytes [of kv_spec 4 "self_of (scope_fields sc @ [(''key'', VStr key)])" "user_key sc (Kv key)"]
    user_key_forms(1) [OF assms(1), of key]
  by (simp add: user_key_decode_def kv_key_def key_typed_simps)

lemma entity_decode_key:
  assumes "scope_ok sc" "name_ok name" "length ident < 2 ^ 64"
  shows "entity_decode (user_key sc (Entity name ident)) = Inr ident"
  using assms key_fields_bytes [of table_spec 5 "self_of (scope_fields sc @ [(''name'', VStr name), (''id'', VBytes ident)])"
      "user_key sc (Entity name ident)"] user_key_forms(2) [OF assms(1), of name ident]
  by (simp add: entity_decode_def entity_key_def key_typed_simps)

lemma measurement_decode_key:
  assumes "scope_ok sc" "name_ok m"
  shows "measurement_decode (user_key sc (Measurement m ts)) = Inr ts"
  using assms key_fields_bytes [of measurement_spec 5 "self_of (scope_fields sc @ [(''measurement'', VStr m), (''timestamp'', VU64 ts)])"
      "user_key sc (Measurement m ts)"] user_key_forms(3) [OF assms(1), of m ts]
  by (simp add: measurement_decode_def measurement_key_def key_typed_simps)

lemma path_decode_key:
  assumes "scope_ok sc" "name_ok p"
  shows "path_decode (user_key sc (Path p)) = Inr p"
  using assms key_fields_bytes [of path_spec 4 "self_of (scope_fields sc @ [(''path'', VStr p)])" "user_key sc (Path p)"]
    user_key_forms(6) [OF assms(1), of p]
  by (simp add: path_decode_def path_key_def key_typed_simps)

lemma hash_typed: "length h = 32 \<Longrightarrow> has_type hash_ty (hash_val h) \<and> seq_ok (hash_val h)"
  by (auto simp: hash_ty_def hash_val_def fields_ok_replicate seq_ok_def variant_ok_def)

lemma blob_id_decode_key:
  assumes "scope_ok sc" "length h = 32"
  shows "blob_id_decode (user_key sc (Blob_Id h)) = Inr (sc, h)"
  using assms key_fields_bytes [of blob_id_spec 4 "self_of (scope_fields sc @ [(''hash'', hash_val h)])" "user_key sc (Blob_Id h)"]
    user_key_forms(4) [OF assms(1), of h] hash_typed [of h]
  by (simp add: blob_id_decode_def blob_id_key_def key_typed_simps scope_of_fields_def hash_val_def comp_def)

text \<open>An encoding that succeeds is a user key.\<close>

lemma key_eqs:
  "kv_key sc key = (if scope_nul_free sc \<and> 0 \<notin> set key then Inr (user_key sc (Kv key)) else Inl nul_error)"
  "entity_key sc name ident = (if scope_nul_free sc \<and> 0 \<notin> set name then Inr (user_key sc (Entity name ident)) else Inl nul_error)"
  "measurement_key sc m ts = (if scope_nul_free sc \<and> 0 \<notin> set m then Inr (user_key sc (Measurement m ts)) else Inl nul_error)"
  "blob_id_key sc h = (if scope_nul_free sc then Inr (user_key sc (Blob_Id h)) else Inl nul_error)"
  "blob_meta_key sc h p = (if scope_nul_free sc \<and> 0 \<notin> set p then Inr (user_key sc (Blob_Meta h p)) else Inl nul_error)"
  "path_key sc p = (if scope_nul_free sc \<and> 0 \<notin> set p then Inr (user_key sc (Path p)) else Inl nul_error)"
  by (simp_all add: kv_key_def entity_key_def measurement_key_def blob_id_key_def blob_meta_key_def path_key_def
      key_segments_eqs builder_encode_def encode_steps_def scope_fields_def ser_pre_def user_key_def
      scope_bytes_def serialize_str_def serialize_u64_def serialize_hash numeral_eq_Suc scope_nul_free_def)

text \<open>A blob id that decodes has a digest of 32 bytes.\<close>

lemma deserialize_tuple_length: "deserialize_tuple ds r = (Inr vs, r') \<Longrightarrow> length vs = length ds"
  by (induction ds arbitrary: r vs r') (auto split: prod.splits sum.splits)

lemma run_decode_fields:
  "run_decode steps bs = (Inr fs, r) \<Longrightarrow> map_of fs name = Some v \<Longrightarrow>
    \<exists>ty b b'. Dec_Field name ty \<in> set steps \<and> deserialize ty b = (Inr v, b')"
proof (induction steps arbitrary: bs fs)
  case (Cons st steps)
  show ?case
  proof (cases st)
    case (Dec_Expect x)
    then show ?thesis using Cons by (auto split: prod.splits sum.splits)
  next
    case (Dec_Field nm ty)
    with Cons.prems(1) obtain w b' ws where w: "deserialize ty bs = (Inr w, b')" "run_decode steps b' = (Inr ws, r)"
      "fs = (nm, w) # ws" by (auto split: prod.splits sum.splits)
    show ?thesis
    proof (cases "nm = name")
      case True
      then show ?thesis using w Cons.prems(2) Dec_Field by auto
    next
      case False
      then show ?thesis using Cons.IH [OF w(2)] Cons.prems(2) w(3) by auto
    qed
  qed
qed simp

lemma run_decode_names: "run_decode steps bs = (Inr fs, r) \<Longrightarrow> Dec_Field name ty \<in> set steps \<Longrightarrow> map_of fs name \<noteq> None"
proof (induction steps arbitrary: bs fs)
  case (Cons st steps)
  then show ?case by (cases st) (auto split: prod.splits sum.splits)
qed simp

lemma hash_field_length:
  assumes "deserialize hash_ty b = (Inr v, b')"
  shows "length (hash_field (Some v)) = 32"
proof -
  have one: "unat idx < Suc 0 \<longleftrightarrow> unat idx = 0" for idx :: u32 by simp
  show ?thesis using assms
    by (auto simp: hash_ty_def deserialize_enum_def one split: prod.splits sum.splits if_splits dest: deserialize_tuple_length)
qed

lemma blob_id_decode_length:
  assumes "blob_id_decode raw = Inr (sc, h)"
  shows "length h = 32"
proof -
  from assms obtain fs where fs: "key_fields blob_id_spec 4 raw = Inr fs" "h = hash_field (map_of fs ''hash'')"
    by (auto simp: blob_id_decode_def and_then_Inr_iff)
  let ?steps = "decode_steps (key_segments blob_id_spec) 4"
  obtain r where run: "run_decode ?steps raw = (Inr fs, r)"
    using fs(1) by (auto simp: key_fields_def lift_key_def decode_exact_def builder_decode_def split: prod.splits sum.splits if_splits)
  have steps: "Dec_Field ''hash'' ty \<in> set ?steps \<longleftrightarrow> ty = hash_ty" for ty
    by (auto simp: key_segments_eqs decode_steps_def kind_to_storage_ty_def)
  then have "map_of fs ''hash'' \<noteq> None" using run_decode_names [OF run, of "''hash''" hash_ty] by simp
  then obtain v where v: "map_of fs ''hash'' = Some v" by auto
  from run_decode_fields [OF run v] steps obtain b b' where "deserialize hash_ty b = (Inr v, b')" by auto
  then show ?thesis using hash_field_length fs(2) v by simp
qed

section \<open>The invariant of a transaction\<close>

definition tx_inv :: "'s engine \<Rightarrow> sync_meta postcard \<Rightarrow> 's transaction \<Rightarrow> bool" where
  "tx_inv K P tx \<longleftrightarrow> store_ok domain_keys P (ks_get K (tx_ks tx)) \<and> tx_ok tx"

text \<open>A scope whose names are Rust strings.\<close>

definition scope_str :: "scope \<Rightarrow> bool" where
  "scope_str sc \<longleftrightarrow> utf8_valid (namespace sc) \<and> utf8_valid (database sc) \<and> utf8_valid (schema sc)"

lemma scope_str_ok: "scope_str sc \<Longrightarrow> scope_nul_free sc \<Longrightarrow> scope_ok sc"
  by (simp add: scope_str_def scope_ok_iff)

lemma key_mem:
  assumes "scope_str sc"
  shows "kv_key sc key = Inr uk \<Longrightarrow> utf8_valid key \<Longrightarrow> uk \<in> domain_keys"
    and "entity_key sc name ident = Inr uk \<Longrightarrow> utf8_valid name \<Longrightarrow> length ident < 2 ^ 64 \<Longrightarrow> uk \<in> domain_keys"
    and "measurement_key sc m ts = Inr uk \<Longrightarrow> utf8_valid m \<Longrightarrow> uk \<in> domain_keys"
    and "blob_id_key sc h = Inr uk \<Longrightarrow> length h = 32 \<Longrightarrow> uk \<in> domain_keys"
    and "blob_meta_key sc h p = Inr uk \<Longrightarrow> utf8_valid p \<Longrightarrow> length h = 32 \<Longrightarrow> uk \<in> domain_keys"
    and "path_key sc p = Inr uk \<Longrightarrow> utf8_valid p \<Longrightarrow> uk \<in> domain_keys"
  using assms scope_str_ok [OF assms] by (auto simp: key_eqs name_ok_def split: if_splits)

locale api_store = keyspace K + meta: postcard_codec P meta_ok
  for K :: "'s engine" and P :: "sync_meta postcard"

sublocale api_store \<subseteq> meta_store K domain_keys P
  by unfold_locales

context api_store
begin

abbreviation inv :: "'s transaction \<Rightarrow> bool" where
  "inv \<equiv> tx_inv K P"

lemma keeps_write_scope [keeps_intros]: "scope_str sc \<Longrightarrow> keeps inv (write_scope sc)"
  using scope_str_ok [of sc] by (auto simp: keeps_def tx_inv_def tx_ok_def write_scope_apply distinct_insert)

lemma store_ok_put_at:
  assumes "store_ok domain_keys P (ks_get K s)" "uk \<in> domain_keys"
  shows "store_ok domain_keys P (ks_get K (put_at_raw K s uk v ts))"
proof (rule store_okI)
  show "store_wf domain_keys (ks_get K (put_at_raw K s uk v ts))"
    unfolding rows_put_at by (intro dom.store_wf_write_row dom.store_wf_remove_row store_ok_wf [OF assms(1)] assms(2))
  show "metas_wf P (ks_get K (put_at_raw K s uk v ts))"
  proof (rule metas_wf_rows)
    show "metas_wf P (ks_get K s)" using assms(1) by (simp add: store_ok_def)
  qed (simp add: rows_put_at assms(2))
qed

lemma store_ok_erase_at:
  assumes "store_ok domain_keys P (ks_get K s)" "uk \<in> domain_keys"
  shows "store_ok domain_keys P (ks_get K (erase_at_raw K s uk ts))"
proof (rule store_okI)
  show "store_wf domain_keys (ks_get K (erase_at_raw K s uk ts))"
    unfolding rows_erase_at by (intro dom.store_wf_write_row store_ok_wf [OF assms(1)] assms(2))
  show "metas_wf P (ks_get K (erase_at_raw K s uk ts))"
  proof (rule metas_wf_rows)
    show "metas_wf P (ks_get K s)" using assms(1) by (simp add: store_ok_def)
  qed (simp add: rows_erase_at assms(2))
qed

lemma keeps_put_at: "(\<And>uk. enc = Inr uk \<Longrightarrow> uk \<in> domain_keys) \<Longrightarrow> keeps inv (put_at K enc v ts)"
  unfolding put_at_def
  by (intro keeps_tlift_bind keeps_twrite) (auto simp: lift_enc_def tx_inv_def tx_ok_def store_ok_put_at split: sum.splits)

lemma keeps_erase_at: "(\<And>uk. enc = Inr uk \<Longrightarrow> uk \<in> domain_keys) \<Longrightarrow> keeps inv (erase_at K enc ts)"
  unfolding erase_at_def
  by (intro keeps_tlift_bind keeps_twrite) (auto simp: lift_enc_def tx_inv_def tx_ok_def store_ok_erase_at split: sum.splits)

lemma keeps_tx_get [keeps_intros]: "keeps inv (tx_get K enc)"
  unfolding tx_get_def get_from_def by (intro keeps_intros)

lemma keeps_key_put [keeps_intros]: "scope_str sc \<Longrightarrow> utf8_valid key \<Longrightarrow> keeps inv (key_put K sc key v)"
  unfolding key_put_def by (intro keeps_intros keeps_put_at) (auto intro: key_mem)

lemma keeps_key_delete: "scope_str sc \<Longrightarrow> utf8_valid key \<Longrightarrow> keeps inv (key_delete K sc key)"
  unfolding key_delete_def by (intro keeps_intros keeps_erase_at) (auto intro: key_mem)

lemma keeps_tb_insert:
  "scope_str sc \<Longrightarrow> utf8_valid name \<Longrightarrow> length ident < 2 ^ 64 \<Longrightarrow> keeps inv (tb_insert K sc name ident v)"
  unfolding tb_insert_def by (intro keeps_intros keeps_put_at) (auto intro: key_mem)

lemma keeps_tb_delete:
  "scope_str sc \<Longrightarrow> utf8_valid name \<Longrightarrow> length ident < 2 ^ 64 \<Longrightarrow> keeps inv (tb_delete K sc name ident)"
  unfolding tb_delete_def by (intro keeps_intros keeps_erase_at) (auto intro: key_mem)

lemma keeps_tb_insert_batched:
  assumes "scope_str sc" "utf8_valid name" "\<forall>e\<in>set entries. length (fst e) < 2 ^ 64"
  shows "keeps inv (tb_insert_batched K sc name entries)"
  unfolding tb_insert_batched_def
proof (intro keeps_intros assms(1))
  fix ts e assume "e \<in> set entries"
  then have "length (fst e) < 2 ^ 64" using assms(3) by blast
  then show "keeps inv (case e of (ident, value) \<Rightarrow> put_at K (entity_key sc name ident) value ts)"
    using key_mem(2) [OF assms(1) _ assms(2)] by (cases e) (auto intro!: keeps_put_at)
qed

lemma keeps_publish_measurement:
  "scope_str sc \<Longrightarrow> utf8_valid m \<Longrightarrow> keeps inv (publish_measurement K B sc m body timestamp)"
  unfolding publish_measurement_def by (intro keeps_intros keeps_put_at) (auto intro: key_mem)

lemma keeps_store_blob:
  "scope_str sc \<Longrightarrow> length (sha256 blob) = 32 \<Longrightarrow> keeps inv (store_blob K sha256 sc blob)"
  unfolding store_blob_def Let_def by (intro keeps_intros keeps_put_at) (auto intro: key_mem)

lemma keeps_link_blob [keeps_intros]:
  "scope_str (fst path) \<Longrightarrow> utf8_valid (snd path) \<Longrightarrow> length (snd ident) = 32 \<Longrightarrow> keeps inv (link_blob K path ident)"
  unfolding link_blob_def by (intro keeps_intros keeps_put_at) (auto intro: key_mem)

lemma keeps_unlink_blob:
  assumes "scope_str (fst path)" "utf8_valid (snd path)"
  shows "keeps inv (unlink_blob K path)"
proof -
  have len: "length h = 32" if "blob_id_decode raw = Inr (sc, h)" for raw sc h
    using that by (rule blob_id_decode_length)
  have erase: "keeps inv (erase_at K (blob_meta_key (fst path) h (snd path)) ts)" if "length h = 32" for h ts
    using that assms by (intro keeps_erase_at) (auto intro: key_mem)
  have unpath: "keeps inv (erase_at K (path_key (fst path) (snd path)) ts)" for ts
    using assms by (intro keeps_erase_at) (auto intro: key_mem)
  show ?thesis
    unfolding unlink_blob_def Let_def
    by (intro assms(1) keeps_write_scope keeps_tbind [OF keeps_write_scope] keeps_tbind [OF keeps_tx_get] keeps_option
        keeps_prod keeps_tret keeps_tlift_bind keeps_tbind [OF keeps_if] keeps_tbind [OF unpath] erase)
      (auto dest: len)
qed

lemma unlink_blob_hash: "unlink_blob K path tx = (Inr r, tx') \<Longrightarrow> case r of None \<Rightarrow> True | Some (ident, _) \<Rightarrow> length (snd ident) = 32"
  unfolding unlink_blob_def Let_def
  by (elim tbind_InrE) (auto split: option.splits sum.splits elim!: tbind_InrE dest: blob_id_decode_length)

lemma keeps_move_blob:
  assumes "scope_str (fst old_path)" "utf8_valid (snd old_path)" "scope_str (fst new_path)" "utf8_valid (snd new_path)"
  shows "keeps inv (move_blob K old_path new_path)"
  unfolding move_blob_def
  by (rule keeps_tbind_post [OF keeps_unlink_blob [OF assms(1,2)] unlink_blob_hash])
    (auto split: option.splits intro!: keeps_intros keeps_link_blob assms)

end

end
