(* ===== verification/Store_Listings.thy ===== *)
theory Store_Listings
  imports Store_Api_Spec
begin

text \<open>
  Reads and listings of the API: a read returns the newest version, and the listings of keys and
  table entities return exactly the current values, in key order, from the cursor on, cut at the
  limit.
\<close>

section \<open>Comparing keys with rows\<close>

lemma row_vs_key:
  assumes "prefix_free U" "a \<in> U" "b \<in> U"
  shows "a \<le> encode_row b t kd \<longleftrightarrow> a \<le> b" and "prefix a (encode_row b t kd) \<longleftrightarrow> a = b"
proof -
  have ne: "\<not> prefix a b" "\<not> prefix b a" if "a \<noteq> b"
    using that prefix_freeD [OF assms] prefix_freeD [OF assms(1,3,2)] by auto
  show "prefix a (encode_row b t kd) \<longleftrightarrow> a = b"
  proof
    assume "prefix a (encode_row b t kd)"
    then have "prefix a b \<or> prefix b a" by (metis encode_row_prefix prefix_same_cases)
    then show "a = b" using ne by blast
  qed simp
  show "a \<le> encode_row b t kd \<longleftrightarrow> a \<le> b"
  proof (cases "a = b")
    case True
    then show ?thesis using lex_prefix_le [OF encode_row_prefix] by simp
  next
    case False
    have "a < encode_row b t kd" if "a < b"
      using lex_less_append_not_prefix [OF that ne(1) [OF False], of "[]"] by (simp add: encode_row_def)
    moreover have "encode_row b t kd < a" if "b < a"
      using lex_less_append_not_prefix [OF that ne(2) [OF False], of _ "[]"] by (simp add: encode_row_def)
    ultimately show ?thesis using False by (cases a b rule: linorder_cases) (simp_all add: less_le_not_le)
  qed
qed

lemma nul_free_prefix: "0 \<notin> set p \<Longrightarrow> prefix p (k @ 0 # r) \<longleftrightarrow> prefix p k"
proof (induction p arbitrary: k)
  case (Cons a p)
  then show ?case by (cases k) auto
qed simp

lemma lex_nul_less:
  assumes "(0 :: byte) \<notin> set a" "0 \<notin> set b"
  shows "a @ 0 # x < b @ 0 # y \<longleftrightarrow> a < b \<or> a = b \<and> x < y"
  using assms
proof (induction a arbitrary: b)
  case Nil
  then show ?case by (cases b) (auto simp: word_gt_0)
next
  case (Cons c a)
  then show ?case by (cases b) (auto simp: word_gt_0 not_less)
qed

section \<open>Keys of one class\<close>

text \<open>The keys of a scope built by one constructor from the arguments in \<open>X\<close>.\<close>

definition key_class :: "scope \<Rightarrow> ('a \<Rightarrow> key_body) \<Rightarrow> 'a set \<Rightarrow> bytes set" where
  "key_class sc C X = (\<lambda>x. user_key sc (C x)) ` X"

lemma class_prefix_free:
  assumes "scope_ok sc" "\<And>x. x \<in> X \<Longrightarrow> body_ok (C x)" "\<And>x y h p. x \<in> X \<Longrightarrow> y \<in> X \<Longrightarrow> C x = Blob_Id h \<Longrightarrow> C y \<noteq> Blob_Meta h p"
  shows "prefix_free (key_class sc C X)"
  unfolding prefix_free_def key_class_def
proof (clarify)
  fix x y assume xy: "x \<in> X" "y \<in> X" "prefix (user_key sc (C x)) (user_key sc (C y))"
  then have "prefix (body_bytes (C x)) (body_bytes (C y))" by (simp add: user_key_def)
  then have "C x = C y" using body_prefix [OF assms(2) [OF xy(1)] assms(2) [OF xy(2)]] assms(3) [OF xy(1,2)] by blast
  then show "user_key sc (C x) = user_key sc (C y)" by simp
qed

definition kv_keys :: "scope \<Rightarrow> bytes set" where
  "kv_keys sc = key_class sc Kv {k. name_ok k}"

definition table_keys :: "scope \<Rightarrow> bytes \<Rightarrow> bytes set" where
  "table_keys sc name = key_class sc (Entity name) {i. length i < 2 ^ 64}"

lemma kv_prefix_free: "scope_ok sc \<Longrightarrow> prefix_free (kv_keys sc)"
  unfolding kv_keys_def by (rule class_prefix_free) auto

lemma table_prefix_free: "scope_ok sc \<Longrightarrow> name_ok name \<Longrightarrow> prefix_free (table_keys sc name)"
  unfolding table_keys_def by (rule class_prefix_free) auto

context user_keys
begin

lemma row_region_64:
  assumes "store_wf U m" "m k \<noteq> None" "hd k = 64"
  obtains uk t kd where "uk \<in> U" "k = encode_row uk t kd"
  using assms(1,2) by (cases rule: store_wfE) (use assms(3) in auto)

end

text \<open>The rows under a scope and a tag belong to the keys of the class the tag names.\<close>

lemma rows_of_class:
  assumes wf: "store_wf domain_keys m" and sc: "scope_ok sc" and k: "m k \<noteq> None" "prefix (scope_bytes sc @ lit tag) k"
    and tag: "length tag = 2"
  obtains b t kd where "body_ok b" "k = encode_row (user_key sc b) t kd" "prefix (lit tag) (body_bytes b)"
proof -
  have "prefix (scope_bytes sc) k" using k(2) by (rule append_prefixD)
  then have "hd k = 64" by (auto simp: prefix_def scope_bytes_def)
  then obtain uk t kd where uk: "uk \<in> domain_keys" "k = encode_row uk t kd" using dom.row_region_64 [OF wf k(1)] by blast
  then obtain sc' b where b: "uk = user_key sc' b" "scope_ok sc'" "body_ok b" by (auto simp: domain_keys_def)
  have "in_scope sc uk" using dom.scope_of_row [OF sc uk(1)] \<open>prefix (scope_bytes sc) k\<close> uk(2) by blast
  then have "sc = sc'" using dom.in_scope_unique [OF sc b(2)] b(1) by simp
  then have "prefix (lit tag) (body_bytes b @ write_word (- 1 - t) @ write_word (kind_num kd))"
    using k(2) uk(2) b(1) by (simp add: encode_row_def user_key_def)
  moreover have "length (lit tag) \<le> length (body_bytes b)" using tag by (cases b) (simp_all add: lit_def)
  ultimately have "prefix (lit tag) (body_bytes b)" by (metis prefix_length_prefix prefixI)
  then show thesis using that [of b t kd] b uk(2) \<open>sc = sc'\<close> by simp
qed

lemma kv_window:
  assumes "store_wf domain_keys m" "scope_ok sc" "0 \<notin> set pre"
  shows "window m (kv_keys sc) (prefix (scope_bytes sc @ lit ''kv'' @ pre))"
  unfolding window_def
proof (intro conjI allI impI ballI)
  show "prefix_free (kv_keys sc)" using assms(2) by (rule kv_prefix_free)
next
  fix k assume k: "m k \<noteq> None" "prefix (scope_bytes sc @ lit ''kv'' @ pre) k"
  then have "prefix (scope_bytes sc @ lit ''kv'') k" by (metis append_assoc append_prefixD)
  then obtain b t kd where b: "body_ok b" "k = encode_row (user_key sc b) t kd" "prefix (lit ''kv'') (body_bytes b)"
    using rows_of_class [OF assms(1,2) k(1), of "''kv''"] by auto
  then show "\<exists>uk t kd. k = encode_row uk t kd \<and> uk \<in> kv_keys sc"
    by (cases b) (auto simp: kv_keys_def key_class_def)
next
  fix uk t kd assume "uk \<in> kv_keys sc"
  then obtain key where "uk = user_key sc (Kv key)" by (auto simp: kv_keys_def key_class_def)
  then show "prefix (scope_bytes sc @ lit ''kv'' @ pre) (encode_row uk t kd) \<longleftrightarrow> prefix (scope_bytes sc @ lit ''kv'' @ pre) uk"
    using nul_free_prefix [OF assms(3), of key] by (simp add: encode_row_def user_key_def del: prefix_snoc)
qed

lemma table_window:
  assumes wf: "store_wf domain_keys m" and sc: "scope_ok sc" "name_ok name"
    and p: "\<And>uk t kd. uk \<in> table_keys sc name \<Longrightarrow> p (encode_row uk t kd) \<longleftrightarrow> p uk"
    and sub: "\<And>k. p k \<Longrightarrow> prefix (scope_bytes sc @ lit ''tb'' @ name @ [0]) k"
  shows "window m (table_keys sc name) p"
  unfolding window_def
proof (intro conjI allI impI ballI)
  show "prefix_free (table_keys sc name)" using sc by (rule table_prefix_free)
next
  fix k assume k: "m k \<noteq> None" "p k"
  then have pk: "prefix (scope_bytes sc @ lit ''tb'' @ name @ [0]) k" using sub by simp
  then have "prefix (scope_bytes sc @ lit ''tb'') k" by (metis append_assoc append_prefixD)
  then obtain b t kd where b: "body_ok b" "k = encode_row (user_key sc b) t kd" "prefix (lit ''tb'') (body_bytes b)"
    using rows_of_class [OF wf sc(1) k(1), of "''tb''"] by auto
  then obtain n i where bn: "b = Entity n i" by (cases b) auto
  have "prefix (name @ 0 # []) (n @ 0 # serialize_bytes i @ write_word (- 1 - t) @ write_word (kind_num kd))"
    using pk b(2) bn by (simp add: encode_row_def user_key_def)
  then have "name = n" using nul_prefix_iff [of name n] sc(2) b(1) bn by (auto simp: name_ok_def)
  then show "\<exists>uk t kd. k = encode_row uk t kd \<and> uk \<in> table_keys sc name"
    using b bn by (auto simp: table_keys_def key_class_def)
qed (rule p)

section \<open>Items of a listing\<close>

lemma collect_items_map:
  assumes "\<And>x. x \<in> set L \<Longrightarrow> f x = Inr (g x)"
  shows "collect_items f (map Inr L) = Inr (map g L)"
  using assms by (induction L) simp_all

lemma tb_list_loop_map:
  assumes "\<And>x. x \<in> set L \<Longrightarrow> entity_decode (fst x) = Inr (g (fst x))"
  shows "tb_list_loop skip limit results (map Inr L)
    = Inr (results @ take (limit - length results) (map (map_prod g id) (drop skip L)))"
  using assms
proof (induction L arbitrary: skip results)
  case (Cons x L)
  obtain k v where x: "x = (k, v)" by force
  have d: "entity_decode k = Inr (g k)" using Cons.prems [of x] x by simp
  show ?case
  proof (cases skip)
    case 0
    show ?thesis
    proof (cases "length results \<ge> limit")
      case False
      then have "limit - length results = Suc (limit - Suc (length results))" by simp
      then show ?thesis using Cons 0 d False by (simp add: x)
    qed (simp add: 0 x)
  next
    case (Suc n)
    then show ?thesis using Cons by (simp add: x)
  qed
qed simp

text \<open>The entries of a listing over one class, by the arguments of the class.\<close>

lemma class_listing:
  assumes sc: "scope_ok sc" and X: "\<And>x. x \<in> X \<Longrightarrow> body_ok (C x)" and C: "inj_on C X"
    and L: "sorted_entries (current m (key_class sc C X)) p L"
  obtains out where "L = map (\<lambda>(x, v). (user_key sc (C x), v)) out"
    "sorted_wrt (\<lambda>a b. body_bytes (C (fst a)) < body_bytes (C (fst b))) out"
    "set out = {(x, v). x \<in> X \<and> p (user_key sc (C x)) \<and> mv_read m (user_key sc (C x)) (- 1) = Some v}"
proof -
  define h where "h x = user_key sc (C x)" for x
  have cls: "key_class sc C X = h ` X" by (simp add: key_class_def h_def)
  have inj: "inj_on h X"
    using user_key_inject [OF sc sc] X C unfolding inj_on_def h_def by blast
  define g where "g e = (inv_into X h (fst e), snd e)" for e :: "bytes \<times> bytes"
  have mem: "(uk, v) \<in> set L \<longleftrightarrow> uk \<in> h ` X \<and> mv_read m uk (- 1) = Some v \<and> p uk" for uk v
    using L by (auto simp: sorted_entries_def current_def cls split: if_splits)
  have inv_g: "(h (fst (g e)), snd (g e)) = e" "fst (g e) \<in> X" if "e \<in> set L" for e
    using that mem [of "fst e" "snd e"] by (auto simp: g_def f_inv_into_f inv_into_into)
  have "L = map (\<lambda>(x, v). (h x, v)) (map g L)"
    using inv_g(1) by (simp add: map_idI case_prod_beta)
  moreover have "sorted_wrt (\<lambda>a b. h (fst a) < h (fst b)) (map g L)"
  proof -
    have "sorted_wrt (\<lambda>a b. fst a < fst b) L" using L by (simp add: sorted_entries_def sorted_wrt_map)
    then show ?thesis unfolding sorted_wrt_map
      by (rule sorted_wrt_mono_rel [rotated]) (use inv_g(1) in \<open>metis fst_conv\<close>)
  qed
  moreover have "(x, v) \<in> set (map g L) \<longleftrightarrow> x \<in> X \<and> p (h x) \<and> mv_read m (h x) (- 1) = Some v" for x v
  proof
    assume "(x, v) \<in> set (map g L)"
    then obtain e where "e \<in> set L" "g e = (x, v)" by auto
    then show "x \<in> X \<and> p (h x) \<and> mv_read m (h x) (- 1) = Some v" using inv_g [of e] mem [of "h x" v] by auto
  next
    assume "x \<in> X \<and> p (h x) \<and> mv_read m (h x) (- 1) = Some v"
    then have "(h x, v) \<in> set L" "g (h x, v) = (x, v)" using mem inj by (auto simp: g_def)
    then show "(x, v) \<in> set (map g L)" by force
  qed
  ultimately show thesis using that [of "map g L"] by (auto simp: h_def user_key_def)
qed

definition kv_entries :: "rows \<Rightarrow> scope \<Rightarrow> bytes \<Rightarrow> (bytes \<times> bytes) list \<Rightarrow> bool" where
  "kv_entries m sc pre out \<longleftrightarrow> sorted_wrt (<) (map fst out)
    \<and> set out = {(k, v). name_ok k \<and> prefix pre k \<and> mv_read m (user_key sc (Kv k)) (- 1) = Some v}"

section \<open>Reads\<close>

context api_store
begin

abbreviation current_value :: "'s transaction \<Rightarrow> bytes \<Rightarrow> bytes option" where
  "current_value tx uk \<equiv> mv_read (ks_get K (tx_ks tx)) uk (- 1)"

lemma inv_store_wf: "inv tx \<Longrightarrow> store_wf domain_keys (ks_get K (tx_ks tx))"
  by (simp add: tx_inv_def store_ok_def)

lemma tx_get_run:
  assumes "inv tx" "uk \<in> domain_keys"
  shows "tx_get K (Inr uk) tx = (Inr (map_option (Pair uk) (current_value tx uk)), tx)"
  using get_from_raw_refines [OF dom.store_wf_data_wf [OF inv_store_wf [OF assms(1)]], of uk "- 1"] assms(2)
  by (simp add: tx_get_def get_from_def)

lemma read_after_put:
  assumes "uk \<in> domain_keys" "uk' \<in> domain_keys" "\<And>t. ts < t \<Longrightarrow> mv (ks_get K s) uk t = None"
  shows "mv_read (ks_get K (put_at_raw K s uk v ts)) uk' (- 1) = (if uk' = uk then Some v else mv_read (ks_get K s) uk' (- 1))"
proof (cases "uk' = uk")
  case True
  then show ?thesis using assms by (auto intro!: mv_read_at simp: mv_put_at)
next
  case False
  then show ?thesis using assms by (auto intro!: mv_read_cong simp: mv_put_at)
qed

lemma read_after_erase:
  assumes "uk \<in> domain_keys" "uk' \<in> domain_keys" "\<And>t. ts < t \<Longrightarrow> mv (ks_get K s) uk t = None"
  shows "mv_read (ks_get K (erase_at_raw K s uk ts)) uk' (- 1) = (if uk' = uk then None else mv_read (ks_get K s) uk' (- 1))"
proof (cases "uk' = uk")
  case True
  then show ?thesis using assms by (auto intro!: mv_read_at simp: mv_erase_at)
next
  case False
  then show ?thesis using assms by (auto intro!: mv_read_cong simp: mv_erase_at)
qed

lemma key_get_run:
  assumes "inv tx" "scope_ok sc" "name_ok key"
  shows "key_get K sc key tx = (Inr (current_value tx (user_key sc (Kv key))), tx)"
  using tx_get_run [OF assms(1), of "user_key sc (Kv key)"] assms user_key_forms(1) [of sc key]
  by (simp add: key_get_def name_ok_def value_of_def option.map_comp comp_def option.map_ident)

lemma key_put_run:
  assumes "scope_ok sc" "name_ok key"
  shows "key_put K sc key v tx = (Inr (), tx\<lparr>active_scopes := List.insert sc (active_scopes tx),
    tx_ks := put_at_raw K (tx_ks tx) (user_key sc (Kv key)) v (tx_time tx)\<rparr>)"
  using assms user_key_forms(1) [of sc key]
  by (simp add: key_put_def name_ok_def write_scope_apply scope_ok_iff put_at_def)

lemma key_delete_run:
  assumes "scope_ok sc" "name_ok key"
  shows "key_delete K sc key tx = (Inr (), tx\<lparr>active_scopes := List.insert sc (active_scopes tx),
    tx_ks := erase_at_raw K (tx_ks tx) (user_key sc (Kv key)) (tx_time tx)\<rparr>)"
  using assms user_key_forms(1) [of sc key]
  by (simp add: key_delete_def name_ok_def write_scope_apply scope_ok_iff erase_at_def)

section \<open>Listing keys\<close>

lemma kv_listing:
  assumes "inv tx" and sc: "scope_ok sc" and pre: "name_ok pre"
  obtains out where
    "latest_loop None (ks_prefix K (tx_ks tx) (scope_bytes sc @ lit ''kv'' @ pre)) = map Inr (map (\<lambda>(k, v). (user_key sc (Kv k), v)) out)"
    "kv_entries (ks_get K (tx_ks tx)) sc pre out"
proof -
  let ?m = "ks_get K (tx_ks tx)" and ?p = "scope_bytes sc @ lit ''kv'' @ pre"
  have w: "window ?m (kv_keys sc) (prefix ?p)" using kv_window inv_store_wf [OF assms(1)] sc pre by (simp add: name_ok_def)
  obtain L where L: "latest_loop None (ks_prefix K (tx_ks tx) ?p) = map Inr L" "sorted_entries (current ?m (kv_keys sc)) (prefix ?p) L"
    using latest_loop_current [OF w prefix_entries] by blast
  obtain out where out: "L = map (\<lambda>(k, v). (user_key sc (Kv k), v)) out"
    "sorted_wrt (\<lambda>a b. body_bytes (Kv (fst a)) < body_bytes (Kv (fst b))) out"
    "set out = {(k, v). k \<in> {k. name_ok k} \<and> prefix ?p (user_key sc (Kv k)) \<and> mv_read ?m (user_key sc (Kv k)) (- 1) = Some v}"
    by (rule class_listing [OF sc _ _ L(2) [unfolded kv_keys_def]]) (auto simp: inj_on_def)
  have "prefix ?p (user_key sc (Kv k)) \<longleftrightarrow> prefix pre k" for k
    using pre nul_free_prefix [of pre k "[]"] by (simp add: user_key_def name_ok_def del: prefix_snoc)
  then have set: "set out = {(k, v). name_ok k \<and> prefix pre k \<and> mv_read ?m (user_key sc (Kv k)) (- 1) = Some v}"
    using out(3) by simp
  have "sorted_wrt (\<lambda>a b. fst a < fst b) out"
    by (rule sorted_wrt_mono_rel [OF _ out(2)]) (use set lex_nul_less [of _ _ "[]" "[]"] in \<open>auto simp: name_ok_def\<close>)
  then have "kv_entries ?m sc pre out" using set by (simp add: kv_entries_def sorted_wrt_map)
  then show thesis using that L(1) out(1) by blast
qed

lemma kv_prefix_bytes: "scope_ok sc \<Longrightarrow> name_ok pre \<Longrightarrow> kv_key sc pre = Inr ((scope_bytes sc @ lit ''kv'' @ pre) @ [0])"
  by (simp add: kv_key_form name_ok_def)

lemma key_list_run:
  assumes "inv tx" "scope_ok sc" "name_ok pre"
  obtains out where "key_list K sc pre tx = (Inr out, tx)" "kv_entries (ks_get K (tx_ks tx)) sc pre out"
proof -
  let ?p = "scope_bytes sc @ lit ''kv'' @ pre"
  obtain out where out: "latest_loop None (ks_prefix K (tx_ks tx) ?p) = map Inr (map (\<lambda>(k, v). (user_key sc (Kv k), v)) out)"
    "kv_entries (ks_get K (tx_ks tx)) sc pre out" by (rule kv_listing [OF assms])
  obtain lower upper where r: "prefix_to_range ?p = (lower, upper)" by force
  have "user_key_decode (user_key sc (Kv (fst e))) = Inr (fst e)" if "e \<in> set out" for e
    using that out(2) assms(2) by (auto simp: kv_entries_def user_key_decode_key)
  then have "collect_items (\<lambda>(uk, value). and_then (user_key_decode uk) (\<lambda>k. Inr (k, value)))
      (map Inr (map (\<lambda>(k, v). (user_key sc (Kv k), v)) out)) = Inr out"
    by (induction out) (auto simp: case_prod_beta)
  then have "key_list K sc pre tx = (Inr out, tx)"
    using out(1) prefix_eq_range [OF r, of "tx_ks tx"] r
    by (simp only: key_list_def kv_prefix_bytes [OF assms(2,3)] lift_enc_simps tbind_tlift sum.case butlast_snoc prod.case
        op_simps range_latest_kv_untracked_def)
  then show thesis using that out(2) by blast
qed

lemma key_prefix_run:
  assumes "inv tx" "scope_ok sc" "name_ok pre"
  obtains out where "key_prefix K sc pre tx = (Inr (map fst out), tx)" "kv_entries (ks_get K (tx_ks tx)) sc pre out"
proof -
  let ?p = "scope_bytes sc @ lit ''kv'' @ pre"
  obtain out where out: "latest_loop None (ks_prefix K (tx_ks tx) ?p) = map Inr (map (\<lambda>(k, v). (user_key sc (Kv k), v)) out)"
    "kv_entries (ks_get K (tx_ks tx)) sc pre out" by (rule kv_listing [OF assms])
  have "user_key_decode (user_key sc (Kv (fst e))) = Inr (fst e)" if "e \<in> set out" for e
    using that out(2) assms(2) by (auto simp: kv_entries_def user_key_decode_key)
  then have "collect_items user_key_decode (map item_key (map Inr (map (\<lambda>(k, v). (user_key sc (Kv k), v)) out))) = Inr (map fst out)"
    by (induction out) (auto simp: case_prod_beta item_key_def)
  then have "key_prefix K sc pre tx = (Inr (map fst out), tx)"
    using out(1)
    by (simp only: key_prefix_def kv_prefix_bytes [OF assms(2,3)] lift_enc_simps tbind_tlift sum.case butlast_snoc
        op_simps prefix_latest_untracked_def)
  then show thesis using that out(2) by blast
qed

end

end
