(* ===== verification/Table_Listing.thy ===== *)
theory Table_Listing
  imports Store_Listings
begin

text \<open>
  Listings over a part of a class of keys: the pages of a table (\<open>tb_list\<close>, by cursor, order and
  limit) and the window of a measurement (\<open>find_measurement\<close>). The specification of both is a list
  of the current values, filtered, reversed, skipped and cut.
\<close>

section \<open>Parts of a class\<close>

text \<open>A predicate on keys that holds for a row iff it holds for the row's user key.\<close>

definition row_stable :: "bytes set \<Rightarrow> (bytes \<Rightarrow> bool) \<Rightarrow> bool" where
  "row_stable U q \<longleftrightarrow> (\<forall>uk\<in>U. \<forall>t kd. q (encode_row uk t kd) \<longleftrightarrow> q uk)"

lemma row_stable_le: "prefix_free U \<Longrightarrow> k \<in> U \<Longrightarrow> row_stable U (\<lambda>r. k \<le> r)"
  using row_vs_key(1) by (auto simp: row_stable_def)

lemma row_stable_prefix: "prefix_free U \<Longrightarrow> k \<in> U \<Longrightarrow> row_stable U (prefix k)"
  using row_vs_key(2) prefix_freeD by (auto simp: row_stable_def)

lemma window_row_stable: "window m U p \<Longrightarrow> row_stable U p"
  by (simp add: window_def row_stable_def)

lemma row_stable_comb:
  "row_stable U p \<Longrightarrow> row_stable U q \<Longrightarrow> row_stable U (\<lambda>r. p r \<and> q r)"
  "row_stable U p \<Longrightarrow> row_stable U q \<Longrightarrow> row_stable U (\<lambda>r. p r \<or> q r)"
  "row_stable U p \<Longrightarrow> row_stable U (\<lambda>r. \<not> p r)"
  by (auto simp: row_stable_def)

lemma row_stable_cong: "row_stable U p \<Longrightarrow> (\<And>r. q r \<longleftrightarrow> p r) \<Longrightarrow> row_stable U q"
  by (auto simp: row_stable_def)

lemma sorted_entries_filter:
  assumes "sorted_entries m q L" "\<And>k. p k \<Longrightarrow> q k"
  shows "sorted_entries m p (filter (\<lambda>e. p (fst e)) L)"
proof -
  have "sorted_wrt (<) (map fst (filter (\<lambda>e. p (fst e)) L))"
    using assms(1) by (simp add: sorted_entries_def sorted_wrt_map sorted_wrt_filter)
  then show ?thesis using assms by (auto simp: sorted_entries_def)
qed

text \<open>A scan of a part of a window lists the part of the window's listing.\<close>

lemma part_listing:
  assumes w: "window m U q" and L: "sorted_entries (current m U) q L"
    and p: "\<And>r. p r \<Longrightarrow> q r" "row_stable U p" and es: "sorted_entries m p es"
  shows "latest_loop None es = map Inr (filter (\<lambda>e. p (fst e)) L)"
    and "rev_loop None (rev es) = map Inr (rev (filter (\<lambda>e. p (fst e)) L))"
proof -
  have "window m U p" using w p unfolding window_def row_stable_def by blast
  from latest_loop_current [OF this es] obtain L' where L': "latest_loop None es = map Inr L'"
    "rev_loop None (rev es) = map Inr (rev L')" "sorted_entries (current m U) p L'" by blast
  have "L' = filter (\<lambda>e. p (fst e)) L"
    using sorted_entries_unique [OF L'(3)] sorted_entries_filter [OF L p(1)] by blast
  then show "latest_loop None es = map Inr (filter (\<lambda>e. p (fst e)) L)"
    "rev_loop None (rev es) = map Inr (rev (filter (\<lambda>e. p (fst e)) L))" using L' by simp_all
qed

text \<open>The bounds below and above a key of a prefix's range.\<close>

lemma prefix_range_iff: "prefix_to_range p = (lo, hi) \<Longrightarrow> in_range lo hi r \<longleftrightarrow> prefix p r"
  using prefix_to_range_Some [of p lo] prefix_to_range_None [of p lo] by (cases hi) (auto simp: in_range_def)

lemma in_range_from:
  assumes "prefix_to_range p = (lo, hi)" "prefix p k"
  shows "in_range k hi r \<longleftrightarrow> prefix p r \<and> k \<le> r" and "in_range lo (Some k) r \<longleftrightarrow> prefix p r \<and> \<not> k \<le> r"
  using prefix_range_iff [OF assms(1), of k] prefix_range_iff [OF assms(1), of r] assms(2)
  by (auto simp: in_range_def split: option.splits)

lemma in_range_after:
  assumes "prefix_to_range p = (lo, hi)" "prefix p k" "snd (prefix_to_range k) = Some after"
  shows "in_range after hi r \<longleftrightarrow> prefix p r \<and> k \<le> r \<and> \<not> prefix k r"
    and "in_range lo (Some after) r \<longleftrightarrow> prefix p r \<and> (\<not> k \<le> r \<or> prefix k r)"
proof -
  have k: "prefix_to_range k = (k, Some after)" using assms(3) by (simp add: prefix_to_range_def)
  have "prefix p r" if "prefix k r" using assms(2) that by (rule prefix_order.trans)
  then show "in_range after hi r \<longleftrightarrow> prefix p r \<and> k \<le> r \<and> \<not> prefix k r"
    "in_range lo (Some after) r \<longleftrightarrow> prefix p r \<and> (\<not> k \<le> r \<or> prefix k r)"
    using prefix_range_iff [OF k, of r] prefix_range_iff [OF k, of k] in_range_from [OF assms(1,2), of r]
      prefix_range_iff [OF assms(1), of r]
    by (auto simp: in_range_def split: option.splits)
qed

lemma no_after: "snd (prefix_to_range k) = None \<Longrightarrow> k \<le> r \<longleftrightarrow> prefix k r"
  using prefix_to_range_None [of k k r] by (simp add: prefix_to_range_def)

section \<open>The order of entity ids\<close>

text \<open>An id is encoded behind its length: shorter ids come first.\<close>

definition id_le :: "bytes \<Rightarrow> bytes \<Rightarrow> bool" where
  "id_le a b \<longleftrightarrow> length a < length b \<or> length a = length b \<and> a \<le> b"

lemma serialize_bytes_le:
  assumes "length a < 2 ^ 64" "length b < 2 ^ 64"
  shows "serialize_bytes a \<le> serialize_bytes b \<longleftrightarrow> id_le a b"
proof -
  have less: "serialize_bytes x < serialize_bytes y" if "length x < length y \<or> length x = length y \<and> x < y" "length y < 2 ^ 64" for x y
    using enc_less_bytes [OF that] by (rule enc_less_less)
  show ?thesis
  proof (cases "id_le a b")
    case True
    then show ?thesis using less [of a b] assms by (auto simp: id_le_def le_less)
  next
    case False
    then have "length b < length a \<or> length b = length a \<and> b < a" by (auto simp: id_le_def)
    from less [OF this assms(1)] False show ?thesis by (meson leD)
  qed
qed

lemma id_le_antisym: "id_le a b \<Longrightarrow> id_le b a \<Longrightarrow> a = b"
  by (auto simp: id_le_def)

lemma id_le_refl [simp]: "id_le a a"
  by (simp add: id_le_def)

lemma id_le_total: "id_le a b \<or> id_le b a"
  by (auto simp: id_le_def)

lemma entity_key_le:
  assumes "length a < 2 ^ 64" "length b < 2 ^ 64"
  shows "user_key sc (Entity name a) \<le> user_key sc (Entity name b) \<longleftrightarrow> id_le a b"
  using serialize_bytes_le [OF assms] by (simp add: user_key_def)

section \<open>Pages of a table\<close>

fun after_cursor :: "tb_order_by \<Rightarrow> cursor option \<Rightarrow> bytes \<Rightarrow> bool" where
  "after_cursor Key_Asc (Some (At i)) x = id_le i x"
| "after_cursor Key_Asc (Some (After i)) x = (id_le i x \<and> x \<noteq> i)"
| "after_cursor Key_Desc (Some (At i)) x = id_le x i"
| "after_cursor Key_Desc (Some (After i)) x = (id_le x i \<and> x \<noteq> i)"
| "after_cursor _ _ x = True"

fun cursor_skip :: "cursor option \<Rightarrow> nat" where
  "cursor_skip (Some (Skip n)) = n"
| "cursor_skip _ = 0"

fun cursor_ok :: "cursor option \<Rightarrow> bool" where
  "cursor_ok (Some (At i)) = (length i < 2 ^ 64)"
| "cursor_ok (Some (After i)) = (length i < 2 ^ 64)"
| "cursor_ok _ = True"

definition table_page :: "tb_order_by option \<Rightarrow> cursor option \<Rightarrow> nat option \<Rightarrow> (bytes \<times> bytes) list \<Rightarrow> (bytes \<times> bytes) list" where
  "table_page ord cur limit es =
    (let order = (case ord of None \<Rightarrow> Key_Asc | Some r \<Rightarrow> r)
     in take (case limit of None \<Rightarrow> usize_max | Some l \<Rightarrow> l) (drop (cursor_skip cur)
          (filter (\<lambda>e. after_cursor order cur (fst e)) (case order of Key_Asc \<Rightarrow> es | Key_Desc \<Rightarrow> rev es))))"

text \<open>The current entities of a table, in id order.\<close>

definition table_entries :: "rows \<Rightarrow> scope \<Rightarrow> bytes \<Rightarrow> (bytes \<times> bytes) list \<Rightarrow> bool" where
  "table_entries m sc name es \<longleftrightarrow> sorted_wrt (\<lambda>a b. id_le a b \<and> a \<noteq> b) (map fst es)
    \<and> set es = {(i, v). length i < 2 ^ 64 \<and> mv_read m (user_key sc (Entity name i)) (- 1) = Some v}"

abbreviation table_bytes :: "scope \<Rightarrow> bytes \<Rightarrow> bytes" where
  "table_bytes sc name \<equiv> scope_bytes sc @ lit ''tb'' @ name @ [0]"

lemma table_bytes_prefix: "prefix (table_bytes sc name) (user_key sc (Entity name i))"
  by (simp add: user_key_def)

lemma table_prefix_window:
  "store_wf domain_keys m \<Longrightarrow> scope_ok sc \<Longrightarrow> name_ok name \<Longrightarrow> window m (table_keys sc name) (prefix (table_bytes sc name))"
  by (rule table_window) (auto simp: table_keys_def key_class_def user_key_def encode_row_def)

lemma table_key_mem: "length i < 2 ^ 64 \<Longrightarrow> user_key sc (Entity name i) \<in> table_keys sc name"
  by (auto simp: table_keys_def key_class_def)

lemma entity_prefix_iff:
  assumes "scope_ok sc" "name_ok name" "length i < 2 ^ 64" "length x < 2 ^ 64"
  shows "prefix (user_key sc (Entity name i)) (user_key sc (Entity name x)) \<longleftrightarrow> i = x"
  using serialize_bytes_prefix [OF assms(3,4)] by (auto simp: user_key_def)

text \<open>What the bounds of a page select.\<close>

definition bounds_ok :: "scope \<Rightarrow> bytes \<Rightarrow> tb_order_by \<Rightarrow> cursor option \<Rightarrow> bytes \<Rightarrow> bytes option \<Rightarrow> nat \<Rightarrow> bool" where
  "bounds_ok sc name order cur lower upper skip \<longleftrightarrow> skip = cursor_skip cur
    \<and> (\<forall>r. in_range lower upper r \<longrightarrow> prefix (table_bytes sc name) r)
    \<and> row_stable (table_keys sc name) (in_range lower upper)
    \<and> (\<forall>x. length x < 2 ^ 64 \<longrightarrow> (in_range lower upper (user_key sc (Entity name x)) \<longleftrightarrow> after_cursor order cur x))"

lemma bounds_okI:
  assumes "\<And>r. in_range lower upper r \<longleftrightarrow> prefix (table_bytes sc name) r \<and> q r"
    and "row_stable (table_keys sc name) (prefix (table_bytes sc name))" "row_stable (table_keys sc name) q"
    and "\<And>x. length x < 2 ^ 64 \<Longrightarrow> q (user_key sc (Entity name x)) \<longleftrightarrow> after_cursor order cur x" "skip = cursor_skip cur"
  shows "bounds_ok sc name order cur lower upper skip"
proof -
  have "row_stable (table_keys sc name) (in_range lower upper)"
    by (rule row_stable_cong [OF row_stable_comb(1) [OF assms(2,3)] assms(1)])
  then show ?thesis unfolding bounds_ok_def using assms(1,4,5) table_bytes_prefix by blast
qed

lemma tb_bounds_spec:
  assumes sc: "scope_ok sc" and name: "name_ok name" and cur: "cursor_ok cur"
    and r: "prefix_to_range (table_bytes sc name) = (lo, hi)"
  shows "\<exists>b. tb_bounds sc name lo hi order cur = Inr b \<and> (case b of
      None \<Rightarrow> \<forall>x. length x < 2 ^ 64 \<longrightarrow> \<not> after_cursor order cur x
    | Some (lower, upper, skip) \<Rightarrow> bounds_ok sc name order cur lower upper skip)"
proof -
  have pf: "prefix_free (table_keys sc name)" using sc name by (rule table_prefix_free)
  have tp: "row_stable (table_keys sc name) (prefix (table_bytes sc name))"
    by (auto simp: row_stable_def table_keys_def key_class_def user_key_def encode_row_def)
  have all: "bounds_ok sc name order cur lo hi (cursor_skip cur)" if "\<And>x. length x < 2 ^ 64 \<Longrightarrow> after_cursor order cur x"
    by (rule bounds_okI [where q = "\<lambda>_. True"]) (use that tp prefix_range_iff [OF r] in \<open>auto simp: row_stable_def\<close>)
  let ?k = "\<lambda>i. user_key sc (Entity name i)"
  note enc = user_key_forms(2) [OF sc, of name]
  have nul: "0 \<notin> set name" using name by (simp add: name_ok_def)
  have le: "row_stable (table_keys sc name) (\<lambda>r. ?k i \<le> r)" "row_stable (table_keys sc name) (prefix (?k i))"
    if "length i < 2 ^ 64" for i
    using row_stable_le [OF pf table_key_mem [OF that]] row_stable_prefix [OF pf table_key_mem [OF that]] by auto
  have max: "id_le x i" if "snd (prefix_to_range (?k i)) = None" "length i < 2 ^ 64" "length x < 2 ^ 64" for i x
    using no_after [OF that(1), of "?k x"] entity_key_le [OF that(2,3)] entity_prefix_iff [OF sc name that(2,3)] id_le_total by auto
  note pre = table_bytes_prefix [of sc name]
  show ?thesis
  proof (cases cur)
    case None
    then show ?thesis using all by (cases order) (auto simp: tb_bounds_def)
  next
    case (Some c)
    show ?thesis
    proof (cases c)
      case (At i)
      then have i: "length i < 2 ^ 64" using cur Some by simp
      show ?thesis
      proof (cases order)
        case Key_Asc
        have "bounds_ok sc name order cur (?k i) hi 0"
          by (rule bounds_okI [OF in_range_from(1) [OF r pre] tp le(1) [OF i]]) (use i At Some Key_Asc in \<open>auto simp: entity_key_le\<close>)
        then show ?thesis using At Some Key_Asc enc nul by (simp add: tb_bounds_def)
      next
        case Key_Desc
        show ?thesis
        proof (cases "snd (prefix_to_range (?k i))")
          case None
          then show ?thesis using all max [OF None i] At Some Key_Desc enc nul by (simp add: tb_bounds_def)
        next
          case (Some a)
          have "bounds_ok sc name order cur lo (Some a) 0"
            by (rule bounds_okI [OF in_range_after(2) [OF r pre Some] tp row_stable_comb(2) [OF row_stable_comb(3) [OF le(1) [OF i]] le(2) [OF i]]])
              (use i At \<open>cur = Some c\<close> Key_Desc id_le_total id_le_antisym in \<open>auto simp: entity_key_le entity_prefix_iff [OF sc name]\<close>)
          then show ?thesis using At \<open>cur = Some c\<close> Some Key_Desc enc nul by (simp add: tb_bounds_def)
        qed
      qed
    next
      case (After i)
      then have i: "length i < 2 ^ 64" using cur Some by simp
      show ?thesis
      proof (cases order)
        case Key_Desc
        have "bounds_ok sc name order cur lo (Some (?k i)) 0"
          by (rule bounds_okI [OF in_range_from(2) [OF r pre] tp row_stable_comb(3) [OF le(1) [OF i]]])
            (use i After Some Key_Desc id_le_total id_le_antisym in \<open>auto simp: entity_key_le\<close>)
        then show ?thesis using After Some Key_Desc enc nul by (simp add: tb_bounds_def)
      next
        case Key_Asc
        show ?thesis
        proof (cases "snd (prefix_to_range (?k i))")
          case None
          then show ?thesis using max [OF None i] id_le_antisym After Some Key_Asc enc nul by (auto simp: tb_bounds_def)
        next
          case (Some a)
          have "bounds_ok sc name order cur a hi 0"
            by (rule bounds_okI [OF in_range_after(1) [OF r pre Some] tp row_stable_comb(1) [OF le(1) [OF i] row_stable_comb(3) [OF le(2) [OF i]]]])
              (use i After \<open>cur = Some c\<close> Key_Asc in \<open>auto simp: entity_key_le entity_prefix_iff [OF sc name]\<close>)
          then show ?thesis using After \<open>cur = Some c\<close> Some Key_Asc enc nul by (simp add: tb_bounds_def)
        qed
      qed
    next
      case (Skip n)
      then show ?thesis using all Some by (cases order) (auto simp: tb_bounds_def)
    qed
  qed
qed

lemma tb_list_loop_entities:
  assumes sc: "scope_ok sc" "name_ok name" and len: "\<And>e. e \<in> set xs \<Longrightarrow> length (fst e) < 2 ^ 64"
  shows "tb_list_loop skip l [] (map Inr (map (\<lambda>(i, v). (user_key sc (Entity name i), v)) xs)) = Inr (take l (drop skip xs))"
proof -
  let ?h = "\<lambda>(i, v :: bytes). (user_key sc (Entity name i), v)" and ?g = "\<lambda>k. case entity_decode k of Inr i \<Rightarrow> i"
  have dec: "entity_decode (fst (?h e)) = Inr (fst e)" if "e \<in> set xs" for e
    using len [OF that] sc by (cases e) (simp add: entity_decode_key)
  have "tb_list_loop skip l [] (map Inr (map ?h xs)) = Inr (take l (map (map_prod ?g id) (drop skip (map ?h xs))))"
    using tb_list_loop_map [of "map ?h xs" ?g skip l "[]"] dec by fastforce
  moreover have "map (map_prod ?g id) (drop skip (map ?h xs)) = drop skip xs"
    unfolding drop_map map_map by (rule map_idI) (use dec in_set_dropD in \<open>fastforce simp: prod_eq_iff case_prod_beta\<close>)
  ultimately show ?thesis by simp
qed

context api_store
begin

lemma table_listing:
  assumes "inv tx" and sc: "scope_ok sc" "name_ok name"
  obtains es where "table_entries (ks_get K (tx_ks tx)) sc name es"
    "sorted_entries (current (ks_get K (tx_ks tx)) (table_keys sc name)) (prefix (table_bytes sc name))
      (map (\<lambda>(i, v). (user_key sc (Entity name i), v)) es)"
proof -
  let ?m = "ks_get K (tx_ks tx)" and ?p = "prefix (table_bytes sc name)"
  have w: "window ?m (table_keys sc name) ?p" using inv_store_wf [OF assms(1)] sc by (rule table_prefix_window)
  obtain L where L: "sorted_entries (current ?m (table_keys sc name)) ?p L"
    using latest_loop_current [OF w prefix_entries] by blast
  obtain es where es: "L = map (\<lambda>(i, v). (user_key sc (Entity name i), v)) es"
    "sorted_wrt (\<lambda>a b. body_bytes (Entity name (fst a)) < body_bytes (Entity name (fst b))) es"
    "set es = {(i, v). i \<in> {i. length i < 2 ^ 64} \<and> ?p (user_key sc (Entity name i))
      \<and> mv_read ?m (user_key sc (Entity name i)) (- 1) = Some v}"
    by (rule class_listing [OF sc(1) _ _ L [unfolded table_keys_def]]) (use sc in \<open>auto simp: inj_on_def\<close>)
  then have set: "set es = {(i, v). length i < 2 ^ 64 \<and> mv_read ?m (user_key sc (Entity name i)) (- 1) = Some v}"
    using table_bytes_prefix [of sc name] by auto
  have "sorted_wrt (\<lambda>a b. id_le (fst a) (fst b) \<and> fst a \<noteq> fst b) es"
    by (rule sorted_wrt_mono_rel [OF _ es(2)]) (use set serialize_bytes_le in \<open>auto simp: less_le\<close>)
  then have "table_entries ?m sc name es" using set by (simp add: table_entries_def sorted_wrt_map)
  then show thesis using that L es(1) by simp
qed

lemma tb_list_run:
  assumes "inv tx" and sc: "scope_ok sc" "name_ok name"
  obtains es where "table_entries (ks_get K (tx_ks tx)) sc name es"
    "\<And>cur limit ord. cursor_ok cur \<Longrightarrow> tb_list K sc name cur limit ord tx = (Inr (table_page ord cur limit es), tx)"
proof -
  let ?m = "ks_get K (tx_ks tx)" and ?h = "\<lambda>(i, v). (user_key sc (Entity name i), v)"
  obtain es where es: "table_entries ?m sc name es"
    "sorted_entries (current ?m (table_keys sc name)) (prefix (table_bytes sc name)) (map ?h es)"
    by (rule table_listing [OF assms(1) sc])
  have len: "length (fst e) < 2 ^ 64" if "e \<in> set es" for e using that es(1) by (auto simp: table_entries_def)
  have w: "window ?m (table_keys sc name) (prefix (table_bytes sc name))"
    using inv_store_wf [OF assms(1)] sc by (rule table_prefix_window)
  obtain lo hi where r: "prefix_to_range (table_bytes sc name) = (lo, hi)" by force
  have enc: "table_prefix sc name = Inr (table_bytes sc name)" using sc table_prefix_form by (simp add: name_ok_def)
  show thesis
  proof (rule that [OF es(1)])
    fix cur limit ord assume "cursor_ok cur"
    define order where "order = (case ord of None \<Rightarrow> Key_Asc | Some r \<Rightarrow> r)"
    obtain b where b: "tb_bounds sc name lo hi order cur = Inr b" "case b of
        None \<Rightarrow> \<forall>x. length x < 2 ^ 64 \<longrightarrow> \<not> after_cursor order cur x
      | Some (lower, upper, skip) \<Rightarrow> bounds_ok sc name order cur lower upper skip"
      using tb_bounds_spec [OF sc \<open>cursor_ok cur\<close> r] by blast
    show "tb_list K sc name cur limit ord tx = (Inr (table_page ord cur limit es), tx)"
    proof (cases b)
      case None
      then have "filter (\<lambda>e. after_cursor order cur (fst e)) xs = []" if "set xs \<subseteq> set es" for xs
        using b(2) len that by (auto simp: filter_empty_conv)
      then show ?thesis
        using None b(1) by (cases order) (simp_all add: tb_list_def enc r [simplified] table_page_def order_def [symmetric] Let_def)
    next
      case (Some t)
      obtain lower upper skip where t: "t = (lower, upper, skip)" by (cases t)
      with b(2) Some have ok: "bounds_ok sc name order cur lower upper skip" by simp
      let ?q = "\<lambda>e. after_cursor order cur (fst e)"
      have flt: "filter (\<lambda>e. in_range lower upper (fst e)) (map ?h es) = map ?h (filter ?q es)"
        using ok len by (auto simp: bounds_ok_def filter_map comp_def case_prod_beta intro!: filter_cong arg_cong [of _ _ "map _"])
      have run: "latest_loop None (ks_range K (tx_ks tx) lower upper) = map Inr (map ?h (filter ?q es))"
        "rev_loop None (rev (ks_range K (tx_ks tx) lower upper)) = map Inr (map ?h (filter ?q (rev es)))"
        using part_listing [OF w es(2) _ _ range_entries, of lower upper] ok flt
        by (auto simp: bounds_ok_def rev_map rev_filter)
      have loop: "tb_list_loop skip l [] (map Inr (map ?h xs)) = Inr (take l (drop (cursor_skip cur) xs))"
        if "set xs \<subseteq> set es" for l xs
        using tb_list_loop_entities [OF sc, of xs skip l] that len ok by (auto simp: bounds_ok_def)
      show ?thesis
        using b(1) Some t loop [of "filter ?q es"] loop [of "filter ?q (rev es)"] run
        by (cases order) (auto simp: tb_list_def enc r [simplified] table_page_def order_def [symmetric] Let_def
            range_latest_kv_untracked_def range_latest_kv_untracked_rev_def)
    qed
  qed
qed

lemma tb_count_run:
  assumes "inv tx" and sc: "scope_ok sc" "name_ok name"
  obtains es where "table_entries (ks_get K (tx_ks tx)) sc name es" "tb_count K sc name tx = (Inr (length es), tx)"
proof -
  let ?m = "ks_get K (tx_ks tx)" and ?h = "\<lambda>(i, v). (user_key sc (Entity name i), v)"
  obtain es where es: "table_entries ?m sc name es"
    "sorted_entries (current ?m (table_keys sc name)) (prefix (table_bytes sc name)) (map ?h es)"
    by (rule table_listing [OF assms(1) sc])
  have w: "window ?m (table_keys sc name) (prefix (table_bytes sc name))"
    using inv_store_wf [OF assms(1)] sc by (rule table_prefix_window)
  have "filter (\<lambda>e. prefix (table_bytes sc name) (fst e)) (map ?h es) = map ?h es"
    by (rule filter_True) (auto simp: user_key_def)
  then have run: "latest_loop None (ks_prefix K (tx_ks tx) (table_bytes sc name)) = map Inr (map ?h es)"
    using part_listing(1) [OF w es(2) _ window_row_stable [OF w] prefix_entries] by simp
  have "entity_decode (user_key sc (Entity name (fst e))) = Inr (fst e)" if "e \<in> set es" for e
    using that es(1) sc by (auto simp: table_entries_def entity_decode_key)
  then have "collect_items entity_decode (map item_key (map Inr (map ?h es))) = Inr (map fst es)"
    by (induction es) (auto simp: case_prod_beta item_key_def)
  then have "tb_count K sc name tx = (Inr (length es), tx)"
    using run table_prefix_form [OF sc(1), of name] sc(2)
    by (simp only: tb_count_def name_ok_def lift_enc_simps tbind_tlift sum.case op_simps prefix_latest_untracked_def and_then_simps length_map simp_thms)
  then show thesis using that es(1) by blast
qed

end

section \<open>Measurements\<close>

definition measurement_keys :: "scope \<Rightarrow> bytes \<Rightarrow> bytes set" where
  "measurement_keys sc m = key_class sc (Measurement m) UNIV"

abbreviation measurement_bytes :: "scope \<Rightarrow> bytes \<Rightarrow> bytes" where
  "measurement_bytes sc m \<equiv> scope_bytes sc @ lit ''ts'' @ m @ 0 # lit ''/''"

lemma measurement_prefix_form:
  "scope_ok sc \<Longrightarrow> 0 \<notin> set m \<Longrightarrow> measurement_prefix sc m = Inr (measurement_bytes sc m)"
  by (simp add: measurement_prefix_def key_form_simps)

lemma measurement_prefix_free: "scope_ok sc \<Longrightarrow> name_ok m \<Longrightarrow> prefix_free (measurement_keys sc m)"
  unfolding measurement_keys_def by (rule class_prefix_free) auto

lemma measurement_bytes_prefix: "prefix (measurement_bytes sc m) (user_key sc (Measurement m t))"
  by (simp add: user_key_def)

lemma measurement_window:
  assumes wf: "store_wf domain_keys rows" and sc: "scope_ok sc" "name_ok m"
  shows "window rows (measurement_keys sc m) (prefix (measurement_bytes sc m))"
  unfolding window_def
proof (intro conjI allI impI ballI)
  show "prefix_free (measurement_keys sc m)" using sc by (rule measurement_prefix_free)
next
  fix k assume k: "rows k \<noteq> None" "prefix (measurement_bytes sc m) k"
  then have "prefix (scope_bytes sc @ lit ''ts'') k" by (metis append_assoc append_prefixD)
  then obtain b t kd where b: "body_ok b" "k = encode_row (user_key sc b) t kd" "prefix (lit ''ts'') (body_bytes b)"
    using rows_of_class [OF wf sc(1) k(1), of "''ts''"] by auto
  then obtain n i where bn: "b = Measurement n i" by (cases b) auto
  have "prefix (m @ 0 # lit ''/'') (n @ 0 # lit ''/'' @ write_word i @ write_word (- 1 - t) @ write_word (kind_num kd))"
    using k(2) b(2) bn by (simp add: encode_row_def user_key_def)
  then have "m = n" using nul_prefix_iff [of m n] sc(2) b(1) bn by (auto simp: name_ok_def)
  then show "\<exists>uk t kd. k = encode_row uk t kd \<and> uk \<in> measurement_keys sc m"
    using b bn by (auto simp: measurement_keys_def key_class_def)
qed (auto simp: measurement_keys_def key_class_def user_key_def encode_row_def)

text \<open>The current measurements, in the order of their timestamps, and the part a query asks for.\<close>

definition measurement_entries :: "rows \<Rightarrow> scope \<Rightarrow> bytes \<Rightarrow> (u64 \<times> bytes) list \<Rightarrow> bool" where
  "measurement_entries rows sc m es \<longleftrightarrow> sorted_wrt (<) (map fst es)
    \<and> set es = {(t, v). mv_read rows (user_key sc (Measurement m t)) (- 1) = Some v}"

definition in_window :: "u64 option \<Rightarrow> u64 option \<Rightarrow> u64 \<Rightarrow> bool" where
  "in_window start stop t \<longleftrightarrow> (case start of None \<Rightarrow> True | Some a \<Rightarrow> a \<le> t) \<and> (case stop of None \<Rightarrow> True | Some b \<Rightarrow> t < b)"

definition measurement_page :: "nat option \<Rightarrow> u64 option \<Rightarrow> u64 option \<Rightarrow> ts_order_by option \<Rightarrow> (u64 \<times> bytes) list \<Rightarrow> (u64 \<times> bytes) list" where
  "measurement_page limit start stop ord es =
    take (case limit of None \<Rightarrow> usize_max | Some l \<Rightarrow> l) (filter (\<lambda>e. in_window start stop (fst e))
      (case (case ord of None \<Rightarrow> Timestamp_Desc | Some r \<Rightarrow> r) of Timestamp_Asc \<Rightarrow> es | Timestamp_Desc \<Rightarrow> rev es))"

text \<open>The bodies of the entries, or the error of the first that cannot be read.\<close>

fun decode_bodies :: "'b postcard \<Rightarrow> (u64 \<times> bytes) list \<Rightarrow> tx_error + ('b \<times> u64) list" where
  "decode_bodies B [] = Inr []"
| "decode_bodies B ((t, v) # es) =
    (case from_bytes B v of
       None \<Rightarrow> Inl (Tx_Context ''unable to deserialise measurement body'')
     | Some body \<Rightarrow> and_then (decode_bodies B es) (\<lambda>r. Inr ((body, t) # r)))"

lemma collect_measurements:
  assumes "scope_ok sc" "name_ok m"
  shows "collect_items (decode_measurement B) (map Inr (map (\<lambda>(t, v). (user_key sc (Measurement m t), v)) es)) = decode_bodies B es"
proof (induction es)
  case (Cons e es)
  then show ?case using assms
    by (cases e) (simp add: decode_measurement_def measurement_decode_key split: option.split)
qed simp

lemma measurement_key_le: "user_key sc (Measurement m a) \<le> user_key sc (Measurement m b) \<longleftrightarrow> a \<le> b"
  using write_word_less_iff [of a b] by (auto simp: user_key_def le_less)

text \<open>The bounds of a window of timestamps.\<close>

lemma measurement_bounds:
  assumes sc: "scope_ok sc" "name_ok m" and r: "prefix_to_range (measurement_bytes sc m) = (lo, Some hi)"
    and lower: "lower = (case start of None \<Rightarrow> lo | Some t \<Rightarrow> user_key sc (Measurement m t))"
    and upper: "upper = (case stop of None \<Rightarrow> hi | Some t \<Rightarrow> user_key sc (Measurement m t))"
  shows "in_range lower (Some upper) k \<Longrightarrow> prefix (measurement_bytes sc m) k"
    and "row_stable (measurement_keys sc m) (in_range lower (Some upper))"
    and "in_range lower (Some upper) (user_key sc (Measurement m t)) \<longleftrightarrow> in_window start stop t"
proof -
  let ?p = "prefix (measurement_bytes sc m)" and ?k = "\<lambda>t. user_key sc (Measurement m t)" and ?U = "measurement_keys sc m"
  note pf = measurement_prefix_free [OF sc]
  have mem: "?k t \<in> ?U" for t by (auto simp: measurement_keys_def key_class_def)
  have tp: "row_stable ?U ?p" by (auto simp: row_stable_def measurement_keys_def key_class_def user_key_def encode_row_def)
  have eq: "in_range lower (Some upper) x \<longleftrightarrow> ?p x \<and> (case start of None \<Rightarrow> True | Some a \<Rightarrow> ?k a \<le> x)
      \<and> (case stop of None \<Rightarrow> True | Some b \<Rightarrow> \<not> ?k b \<le> x)" for x
    using in_range_from [OF r measurement_bytes_prefix, where r = x] prefix_range_iff [OF r, of x]
      prefix_range_iff [OF r, of "?k (the start)"] prefix_range_iff [OF r, of "?k (the stop)"] measurement_bytes_prefix [of sc m]
    by (cases start; cases stop) (auto simp: lower upper in_range_def)
  show "in_range lower (Some upper) k \<Longrightarrow> ?p k" by (simp add: eq)
  have "row_stable ?U (\<lambda>x. case start of None \<Rightarrow> True | Some a \<Rightarrow> ?k a \<le> x)"
    using row_stable_le [OF pf mem] by (cases start) (auto simp: row_stable_def)
  moreover have "row_stable ?U (\<lambda>x. case stop of None \<Rightarrow> True | Some b \<Rightarrow> \<not> ?k b \<le> x)"
    using row_stable_le [OF pf mem] by (cases stop) (auto simp: row_stable_def)
  ultimately show "row_stable ?U (in_range lower (Some upper))"
    by (intro row_stable_cong [OF row_stable_comb(1) [OF tp row_stable_comb(1)] eq])
  show "in_range lower (Some upper) (?k t) \<longleftrightarrow> in_window start stop t"
    using measurement_bytes_prefix [of sc m t] by (auto simp: eq in_window_def measurement_key_le not_le split: option.splits)
qed

lemma measurement_range:
  obtains lo hi where "prefix_to_range (measurement_bytes sc m) = (lo, Some hi)"
proof -
  have "upper_loop (rev (measurement_bytes sc m)) \<noteq> None"
    using upper_loop_None_iff [of "measurement_bytes sc m"] by (auto simp: scope_bytes_def)
  then show thesis using that by (auto simp: prefix_to_range_def)
qed

context api_store
begin

lemma measurement_listing:
  assumes "inv tx" and sc: "scope_ok sc" "name_ok m"
  obtains es where "measurement_entries (ks_get K (tx_ks tx)) sc m es"
    "sorted_entries (current (ks_get K (tx_ks tx)) (measurement_keys sc m)) (prefix (measurement_bytes sc m))
      (map (\<lambda>(t, v). (user_key sc (Measurement m t), v)) es)"
proof -
  let ?m = "ks_get K (tx_ks tx)" and ?p = "prefix (measurement_bytes sc m)"
  have w: "window ?m (measurement_keys sc m) ?p" using inv_store_wf [OF assms(1)] sc by (rule measurement_window)
  obtain L where L: "sorted_entries (current ?m (measurement_keys sc m)) ?p L"
    using latest_loop_current [OF w prefix_entries] by blast
  obtain es where es: "L = map (\<lambda>(t, v). (user_key sc (Measurement m t), v)) es"
    "sorted_wrt (\<lambda>a b. body_bytes (Measurement m (fst a)) < body_bytes (Measurement m (fst b))) es"
    "set es = {(t, v). t \<in> UNIV \<and> ?p (user_key sc (Measurement m t)) \<and> mv_read ?m (user_key sc (Measurement m t)) (- 1) = Some v}"
    by (rule class_listing [OF sc(1) _ _ L [unfolded measurement_keys_def]]) (use sc in \<open>auto simp: inj_on_def\<close>)
  then have set: "set es = {(t, v). mv_read ?m (user_key sc (Measurement m t)) (- 1) = Some v}"
    using measurement_bytes_prefix [of sc m] by auto
  have "sorted_wrt (\<lambda>a b. fst a < fst b) es"
    by (rule sorted_wrt_mono_rel [OF _ es(2)]) (simp add: write_word_less_iff)
  then have "measurement_entries ?m sc m es" using set by (simp add: measurement_entries_def sorted_wrt_map)
  then show thesis using that L es(1) by simp
qed

lemma find_measurement_run:
  assumes "inv tx" and sc: "scope_ok sc" "name_ok m"
  obtains es where "measurement_entries (ks_get K (tx_ks tx)) sc m es"
    "\<And>limit start stop ord. find_measurement K B sc m limit start stop ord tx
      = (decode_bodies B (measurement_page limit start stop ord es), tx)"
proof -
  let ?m = "ks_get K (tx_ks tx)" and ?h = "\<lambda>(t, v). (user_key sc (Measurement m t), v)"
  obtain es where es: "measurement_entries ?m sc m es"
    "sorted_entries (current ?m (measurement_keys sc m)) (prefix (measurement_bytes sc m)) (map ?h es)"
    by (rule measurement_listing [OF assms(1) sc])
  have w: "window ?m (measurement_keys sc m) (prefix (measurement_bytes sc m))"
    using inv_store_wf [OF assms(1)] sc by (rule measurement_window)
  obtain lo hi where r: "prefix_to_range (measurement_bytes sc m) = (lo, Some hi)" by (rule measurement_range)
  have nul: "0 \<notin> set m" using sc(2) by (simp add: name_ok_def)
  have enc: "key_range (measurement_prefix sc m) = Inr (lo, hi)"
    using measurement_prefix_form [OF sc(1) nul] r by (simp add: key_range_def)
  note key = user_key_forms(3) [OF sc(1) nul]
  show thesis
  proof (rule that [OF es(1)])
    fix limit start stop ord
    define lower where "lower = (case start of None \<Rightarrow> lo | Some t \<Rightarrow> user_key sc (Measurement m t))"
    define upper where "upper = (case stop of None \<Rightarrow> hi | Some t \<Rightarrow> user_key sc (Measurement m t))"
    note b = measurement_bounds [OF sc r lower_def upper_def]
    let ?q = "\<lambda>e. in_window start stop (fst e)"
    have "filter (\<lambda>e. in_range lower (Some upper) (fst e)) (map ?h es) = map ?h (filter ?q es)"
      using b(3) by (simp add: filter_map comp_def case_prod_beta)
    then have run: "latest_loop None (ks_range K (tx_ks tx) lower (Some upper)) = map Inr (map ?h (filter ?q es))"
      "rev_loop None (rev (ks_range K (tx_ks tx) lower (Some upper))) = map Inr (map ?h (filter ?q (rev es)))"
      using part_listing [OF w es(2) b(1,2) range_entries] by (simp_all add: rev_map rev_filter)
    have bounds: "(case start of None \<Rightarrow> Inr lo | Some t \<Rightarrow> lift_enc (measurement_key sc m t)) = Inr lower"
      "(case stop of None \<Rightarrow> Inr hi | Some t \<Rightarrow> lift_enc (measurement_key sc m t)) = Inr upper"
      using key by (auto simp: lower_def upper_def split: option.split)
    have cut: "collect_items (decode_measurement B) (take l (map Inr (map ?h xs))) = decode_bodies B (take l xs)" for l xs
      using collect_measurements [OF sc, of B "take l xs"] by (simp add: take_map)
    show "find_measurement K B sc m limit start stop ord tx = (decode_bodies B (measurement_page limit start stop ord es), tx)"
      using run cut [of _ "filter ?q es"] cut [of _ "filter ?q (rev es)"]
      by (simp add: find_measurement_def enc bounds lift_key_def measurement_page_def range_latest_kv_def range_latest_kv_rev_def
          split: ts_order_by.split)
  qed
qed

end

end
