(* ===== verification/Snapshots.thy ===== *)
theory Snapshots
  imports Table_Listing
begin

text \<open>
  Snapshots of a scope (\<open>take_snapshot\<close> and \<open>restore_snapshot\<close> in
  \<open>swarm/db/src/store/fjall/tx.rs\<close>): the sync points of a scope with their changesets, and the
  authoritative restore, which sweeps the scope's sync points, inserts the chunks again under the
  current epoch and leaves deletion markers for the versions the snapshot does not hold.
\<close>

record chunk =
  ch_id :: sync_point_id
  ch_meta :: sync_meta
  ch_entries :: changes

type_synonym snapshot = "chunk list"

definition scope_points_range :: "scope \<Rightarrow> tx_error + bytes \<times> bytes" where
  "scope_points_range sc = lift_key (key_range (sync_point_prefix sc None))"

definition snapshot_chunk :: "'s engine \<Rightarrow> 's \<Rightarrow> sync_point \<Rightarrow> sync_meta \<Rightarrow> tx_error + chunk" where
  "snapshot_chunk K s sp sm =
    and_then (case sm_marker sm of Sm_Deletion \<Rightarrow> Inr [] | Sm_Mutation \<Rightarrow> changeset_for K s sp) (\<lambda>entries.
      Inr \<lparr>ch_id = as_id sp, ch_meta = sm, ch_entries = entries\<rparr>)"

definition take_snapshot :: "'s engine \<Rightarrow> sync_meta postcard \<Rightarrow> scope \<Rightarrow> ('s transaction, snapshot) op" where
  "take_snapshot K P sc = tbind (tlift (scope_points_range sc)) (\<lambda>(lower, upper).
     tread (\<lambda>s. find_sync_points K P s lower upper
       (\<lambda>chunks sp sm. and_then (snapshot_chunk K s sp sm) (\<lambda>c. Inr (chunks @ [c]))) []))"

text \<open>The loop that removes a sync point and the rows of its version, collecting the ids.\<close>

definition sweep_point :: "'s engine \<Rightarrow> scope \<Rightarrow> bytes \<Rightarrow> ('s transaction, sync_point_id) op" where
  "sweep_point K sc key = tbind (tlift (decode_point key)) (\<lambda>sp.
     tbind (delete_scope_at_version K sc (sp_ts sp)) (\<lambda>_.
       tbind (tlift (lift_enc (sync_point_key sp))) (\<lambda>raw.
         tbind (twrite (\<lambda>s. ks_remove K s raw)) (\<lambda>_. tret (as_id sp)))))"

fun sweep_points :: "'s engine \<Rightarrow> scope \<Rightarrow> sync_point_id list \<Rightarrow> (bytes \<times> bytes) list \<Rightarrow> ('s transaction, sync_point_id list) op" where
  "sweep_points K sc deleted [] = tret deleted"
| "sweep_points K sc deleted ((key, _) # iter) =
    tbind (sweep_point K sc key) (\<lambda>ident. sweep_points K sc (deleted @ [ident]) iter)"

definition point_at :: "scope \<Rightarrow> u64 \<Rightarrow> u64 \<Rightarrow> bytes \<Rightarrow> sync_point" where
  "point_at sc version epoch node = \<lparr>sp_scope = sc, sp_ts = version, sp_epoch = epoch, sp_node = node\<rparr>"

text \<open>Inserting a chunk at its version under the current epoch; the ids still to be marked are returned.\<close>

definition restore_chunk :: "'s engine \<Rightarrow> sync_meta postcard \<Rightarrow> scope \<Rightarrow> sync_point_id list \<Rightarrow> chunk
    \<Rightarrow> ('s transaction, sync_point_id list) op" where
  "restore_chunk K P sc deleted chunk =
    (case ch_id chunk of (_, version, _) \<Rightarrow>
      let parent_epoch = (if ch_id chunk \<in> set deleted then Some (fst (ch_id chunk)) else None);
          deleted' = remove1 (ch_id chunk) deleted
      in tbind (find_last_syncpoint_untracked K sc (Some version)) (\<lambda>last tx.
           let (now, me) = split_ts tx;
               meta = \<lparr>sm_parent = map_option as_id last, sm_parent_epoch = parent_epoch,
                       sm_marker = sm_marker (ch_meta chunk), sm_retention_period = sm_retention_period (ch_meta chunk)\<rparr>
           in tbind (insert_changeset K P (point_at sc version now me) meta (ch_entries chunk)) (\<lambda>_. tret deleted') tx))"

fun restore_chunks :: "'s engine \<Rightarrow> sync_meta postcard \<Rightarrow> scope \<Rightarrow> sync_point_id list \<Rightarrow> chunk list
    \<Rightarrow> ('s transaction, sync_point_id list) op" where
  "restore_chunks K P sc deleted [] = tret deleted"
| "restore_chunks K P sc deleted (c # cs) =
    tbind (restore_chunk K P sc deleted c) (\<lambda>deleted'. restore_chunks K P sc deleted' cs)"

definition mark_deleted :: "'s engine \<Rightarrow> sync_meta postcard \<Rightarrow> scope \<Rightarrow> sync_point_id \<Rightarrow> ('s transaction, unit) op" where
  "mark_deleted K P sc ident =
    (case ident of (epoch, version, _) \<Rightarrow>
      tbind (find_last_syncpoint_untracked K sc (Some version)) (\<lambda>last tx.
        let (now, me) = split_ts tx;
            meta = \<lparr>sm_parent = map_option as_id last, sm_parent_epoch = Some epoch,
                    sm_marker = Sm_Deletion, sm_retention_period = None\<rparr>
        in insert_meta K P (point_at sc version now me) meta tx))"

text \<open>Where the sweep starts: behind the parent of the first chunk, when it has one.\<close>

definition sweep_iter :: "'s engine \<Rightarrow> scope \<Rightarrow> snapshot \<Rightarrow> bytes \<Rightarrow> bytes \<Rightarrow> ('s transaction, (bytes \<times> bytes) list) op" where
  "sweep_iter K sc snapshot lower upper =
    (case (case snapshot of [] \<Rightarrow> None | c # _ \<Rightarrow> sm_parent (ch_meta c)) of
       Some parent \<Rightarrow> tbind (tlift (lift_enc (sync_point_key (with_sp_id sc parent)))) (\<lambda>start.
         tread (\<lambda>s. Inr (drop 1 (ks_range K s start (Some upper)))))
     | None \<Rightarrow> tread (\<lambda>s. Inr (ks_range K s lower (Some upper))))"

definition restore_snapshot :: "'s engine \<Rightarrow> sync_meta postcard \<Rightarrow> scope \<Rightarrow> snapshot \<Rightarrow> ('s transaction, unit) op" where
  "restore_snapshot K P sc snapshot =
    tbind (tlift (scope_points_range sc)) (\<lambda>(lower, upper).
      tbind (sweep_iter K sc snapshot lower upper) (\<lambda>iter.
        tbind (sweep_points K sc [] iter) (\<lambda>deleted.
          tbind (restore_chunks K P sc deleted snapshot) (\<lambda>rest.
            tfold (mark_deleted K P sc) rest))))"

section \<open>The sync points of a scope\<close>

lemma scope_points_range_ok:
  assumes "scope_ok sc"
  obtains lower upper where "scope_points_range sc = Inr (lower, upper)" "point_range lower upper (\<lambda>s. s = sc)"
proof -
  let ?p = "lit ''#'' @ scope_bytes sc @ lit ''sp''"
  have "upper_loop (rev ?p) \<noteq> None" using upper_loop_None_iff [of ?p] by auto
  then obtain upper where r: "prefix_to_range ?p = (?p, Some upper)" by (auto simp: prefix_to_range_def)
  then have "scope_points_range sc = Inr (?p, upper)"
    using sync_point_prefix_forms(1) [OF assms] by (simp add: scope_points_range_def key_range_def lift_key_def)
  moreover have "point_range ?p upper (\<lambda>s. s = sc)"
    using prefix_range_iff [OF r] scope_stem_iff [OF assms]
    by (auto simp: point_range_def prefix_def simp del: append_assoc)
  ultimately show thesis by (rule that)
qed

text \<open>The changes of a version of a scope, and the chunk that carries them.\<close>

definition changes_at :: "rows \<Rightarrow> scope \<Rightarrow> u64 \<Rightarrow> changes \<Rightarrow> bool" where
  "changes_at m sc t es \<longleftrightarrow> distinct (map fst es)
    \<and> set es = {(uk, v). uk \<in> domain_keys \<and> in_scope sc uk \<and> mv m uk t = Some v}"

lemma changes_at_map_of:
  assumes "changes_at m sc t es" "uk \<in> domain_keys"
  shows "map_of es uk = (if in_scope sc uk then mv m uk t else None)"
proof (cases "in_scope sc uk \<and> mv m uk t \<noteq> None")
  case True
  then obtain v where v: "mv m uk t = Some v" by blast
  then have "(uk, v) \<in> set es" using assms True by (simp add: changes_at_def)
  then show ?thesis using assms(1) True v by (simp add: changes_at_def map_of_is_SomeI)
next
  case False
  then have "uk \<notin> fst ` set es" using assms(1) by (auto simp: changes_at_def)
  then show ?thesis using False by (auto simp: map_of_eq_None_iff)
qed

definition chunk_of_point :: "sync_meta postcard \<Rightarrow> rows \<Rightarrow> sync_point \<Rightarrow> chunk \<Rightarrow> bool" where
  "chunk_of_point P m sp c \<longleftrightarrow> ch_id c = as_id sp \<and> point_meta P m sp = Some (ch_meta c)
    \<and> (case sm_marker (ch_meta c) of Sm_Deletion \<Rightarrow> ch_entries c = []
       | Sm_Mutation \<Rightarrow> changes_at m (sp_scope sp) (sp_ts sp) (ch_entries c))"

definition snapshot_of :: "sync_meta postcard \<Rightarrow> rows \<Rightarrow> scope \<Rightarrow> snapshot \<Rightarrow> bool" where
  "snapshot_of P m sc cs \<longleftrightarrow> (\<exists>pts. list_all2 (chunk_of_point P m) pts cs
    \<and> sorted_wrt (\<lambda>a b. sp_rank a < sp_rank b) pts \<and> set pts = {sp. point_in m sp \<and> sp_scope sp = sc})"

lemma same_scope_less:
  assumes "sync_point_ok a" "sync_point_ok b" "sp_scope a = sp_scope b"
  shows "sync_point_bytes a < sync_point_bytes b \<longleftrightarrow> sp_rank a < sp_rank b"
  using assms by (auto simp: sync_point_bytes_def sp_rank_def sync_point_ok_def lex_append_iff write_word_less_iff less_prod_simp)

context api_store
begin

lemma snapshot_chunk_run:
  assumes "store_ok domain_keys P (ks_get K s)" "point_in (ks_get K s) sp"
  obtains c where "snapshot_chunk K s sp (the (point_meta P (ks_get K s) sp)) = Inr c" "chunk_of_point P (ks_get K s) sp c"
proof -
  let ?m = "ks_get K s" and ?sm = "the (point_meta P (ks_get K s) sp)"
  have sm: "point_meta P ?m sp = Some ?sm" using assms by (simp add: store_ok_def metas_wf_def)
  obtain out where out: "changeset_for K s sp = Inr out" "changes_at ?m (sp_scope sp) (sp_ts sp) out"
    using changeset_for_run [of s sp] assms by (auto simp: store_ok_def point_in_def sync_point_ok_def changes_at_def)
  show thesis
    using that [of "\<lparr>ch_id = as_id sp, ch_meta = ?sm, ch_entries = (case sm_marker ?sm of Sm_Deletion \<Rightarrow> [] | Sm_Mutation \<Rightarrow> out)\<rparr>"]
      out sm by (cases "sm_marker ?sm") (simp_all add: snapshot_chunk_def chunk_of_point_def)
qed

lemma snapshot_fold:
  assumes ok: "store_ok domain_keys P (ks_get K s)" and "\<forall>sp\<in>set pts. point_in (ks_get K s) sp"
  shows "\<exists>cs'. fold_res (\<lambda>chunks x. and_then (snapshot_chunk K s (fst x) (snd x)) (\<lambda>c. Inr (chunks @ [c]))) cs
      (map (with_meta P (ks_get K s)) pts) = Inr (cs @ cs') \<and> list_all2 (chunk_of_point P (ks_get K s)) pts cs'"
  using assms(2)
proof (induction pts arbitrary: cs)
  case (Cons sp pts)
  obtain c where c: "snapshot_chunk K s sp (the (point_meta P (ks_get K s) sp)) = Inr c" "chunk_of_point P (ks_get K s) sp c"
    using snapshot_chunk_run [OF ok] Cons.prems by (metis list.set_intros(1))
  obtain cs' where "fold_res (\<lambda>chunks x. and_then (snapshot_chunk K s (fst x) (snd x)) (\<lambda>c. Inr (chunks @ [c]))) (cs @ [c])
      (map (with_meta P (ks_get K s)) pts) = Inr ((cs @ [c]) @ cs')" "list_all2 (chunk_of_point P (ks_get K s)) pts cs'"
    using Cons.IH [of "cs @ [c]"] Cons.prems by auto
  then show ?case using c by (intro exI [of _ "c # cs'"]) (simp add: with_meta_def [of _ _ sp])
qed simp

lemma scope_points:
  assumes "store_ok domain_keys P (ks_get K s)" "point_range lower upper (\<lambda>x. x = sc)"
  obtains pts where "ks_range K s lower (Some upper) = map (point_entry (ks_get K s)) pts"
    "sorted_wrt (\<lambda>a b. sp_rank a < sp_rank b) pts" "set pts = {sp. point_in (ks_get K s) sp \<and> sp_scope sp = sc}"
proof -
  obtain pts where pts: "ks_range K s lower (Some upper) = map (point_entry (ks_get K s)) pts"
    "sorted_wrt (\<lambda>a b. sync_point_bytes a < sync_point_bytes b) pts" "set pts = {sp. point_in (ks_get K s) sp \<and> sp_scope sp = sc}"
    by (rule range_points [OF store_ok_wf [OF assms(1)] assms(2)])
  have "sorted_wrt (\<lambda>a b. sp_rank a < sp_rank b) pts"
    by (rule sorted_wrt_mono_rel [OF _ pts(2)]) (use pts(3) same_scope_less in \<open>auto simp: point_in_def\<close>)
  then show thesis using that pts by blast
qed

lemma take_snapshot_run:
  assumes "inv tx" and sc: "scope_ok sc"
  obtains cs where "take_snapshot K P sc tx = (Inr cs, tx)" "snapshot_of P (ks_get K (tx_ks tx)) sc cs"
proof -
  let ?m = "ks_get K (tx_ks tx)"
  have ok: "store_ok domain_keys P ?m" using assms(1) by (simp add: tx_inv_def)
  obtain lower upper where r: "scope_points_range sc = Inr (lower, upper)" "point_range lower upper (\<lambda>s. s = sc)"
    by (rule scope_points_range_ok [OF sc])
  obtain pts where pts: "ks_range K (tx_ks tx) lower (Some upper) = map (point_entry ?m) pts"
    "sorted_wrt (\<lambda>a b. sp_rank a < sp_rank b) pts" "set pts = {sp. point_in ?m sp \<and> sp_scope sp = sc}"
    by (rule scope_points [OF ok r(2)])
  have "\<forall>sp\<in>set pts. point_in ?m sp" using pts(3) by simp
  note loop = sync_points_loop_run [OF _ this, of P] and fold = snapshot_fold [OF ok this, of "[]"]
  obtain cs where
    "find_sync_points K P (tx_ks tx) lower upper (\<lambda>chunks sp sm. and_then (snapshot_chunk K (tx_ks tx) sp sm) (\<lambda>c. Inr (chunks @ [c]))) [] = Inr cs"
    "list_all2 (chunk_of_point P ?m) pts cs"
    using fold ok by (auto simp: find_sync_points_def pts(1) loop store_ok_def)
  then show thesis using that [of cs] r(1) pts(2,3) by (auto simp: take_snapshot_def snapshot_of_def)
qed

section \<open>Restoring\<close>

lemma sweep_point_run:
  assumes ok: "store_ok domain_keys P (ks_get K (tx_ks tx))" and sp: "sync_point_ok sp" "sp_scope sp = sc"
  obtains s' where "sweep_point K sc (sync_point_bytes sp) tx = (Inr (as_id sp), tx\<lparr>tx_ks := s'\<rparr>)"
    "ks_get K s' = (drop_version domain_keys sc (sp_ts sp) (ks_get K (tx_ks tx)))(sync_point_bytes sp := None)"
proof -
  have sc: "scope_ok sc" using sp by (auto simp: sync_point_ok_def)
  obtain s where s: "delete_scope_at_version K sc (sp_ts sp) tx = (Inr (), tx\<lparr>tx_ks := s\<rparr>)"
    "ks_get K s = drop_version domain_keys sc (sp_ts sp) (ks_get K (tx_ks tx))" by (rule delete_scope_at_version_run [OF ok sc])
  have "sync_point_key sp = Inr (sync_point_bytes sp)" using sp(1) sync_point_key_form by (simp add: sync_point_ok_def)
  then show thesis
    using that [of "ks_remove K s (sync_point_bytes sp)"] s sp(1) by (simp add: sweep_point_def get_remove)
qed

lemma sweep_points_run:
  assumes "store_ok domain_keys P (ks_get K (tx_ks tx))" "\<forall>sp\<in>set pts. sync_point_ok sp \<and> sp_scope sp = sc"
  shows "\<exists>s'. sweep_points K sc deleted (map (point_entry m) pts) tx = (Inr (deleted @ map as_id pts), tx\<lparr>tx_ks := s'\<rparr>)
    \<and> store_ok domain_keys P (ks_get K s')
    \<and> (\<forall>sq. sync_point_ok sq \<longrightarrow> ks_get K s' (sync_point_bytes sq)
        = (if sq \<in> set pts then None else ks_get K (tx_ks tx) (sync_point_bytes sq)))
    \<and> (\<forall>uk\<in>domain_keys. \<forall>t. mv (ks_get K s') uk t
        = (if in_scope sc uk \<and> t \<in> sp_ts ` set pts then None else mv (ks_get K (tx_ks tx)) uk t))"
  using assms
proof (induction pts arbitrary: tx deleted)
  case Nil
  then show ?case by (intro exI [of _ "tx_ks tx"]) simp
next
  case (Cons sp pts)
  let ?m = "ks_get K (tx_ks tx)"
  have sp: "sync_point_ok sp" "sp_scope sp = sc" using Cons.prems(2) by auto
  obtain s where s: "sweep_point K sc (sync_point_bytes sp) tx = (Inr (as_id sp), tx\<lparr>tx_ks := s\<rparr>)"
    "ks_get K s = (drop_version domain_keys sc (sp_ts sp) ?m)(sync_point_bytes sp := None)"
    by (rule sweep_point_run [OF Cons.prems(1) sp])
  have ok: "store_ok domain_keys P (ks_get K s)"
    unfolding s(2) by (intro store_ok_no_point store_ok_drop_version Cons.prems(1) sp(1))
  have pt: "ks_get K s (sync_point_bytes sq) = (if sq = sp then None else ?m (sync_point_bytes sq))" if "sync_point_ok sq" for sq
    using that sp(1) sync_point_bytes_inject [OF that sp(1)] by (auto simp: s(2) dom.drop_version_other)
  have mvs: "mv (ks_get K s) uk t = (if t = sp_ts sp \<and> in_scope sc uk then None else mv ?m uk t)" if "uk \<in> domain_keys" for uk t
    using that by (simp add: s(2) mv_point dom.mv_drop_version)
  have prems: "store_ok domain_keys P (ks_get K (tx_ks (tx\<lparr>tx_ks := s\<rparr>)))" "\<forall>sp\<in>set pts. sync_point_ok sp \<and> sp_scope sp = sc"
    using ok Cons.prems(2) by simp_all
  let ?tx = "tx\<lparr>tx_ks := s\<rparr>"
  obtain s' where s': "sweep_points K sc (deleted @ [as_id sp]) (map (point_entry m) pts) ?tx
      = (Inr ((deleted @ [as_id sp]) @ map as_id pts), ?tx\<lparr>tx_ks := s'\<rparr>)" "store_ok domain_keys P (ks_get K s')"
    "\<forall>sq. sync_point_ok sq \<longrightarrow> ks_get K s' (sync_point_bytes sq) = (if sq \<in> set pts then None else ks_get K (tx_ks ?tx) (sync_point_bytes sq))"
    "\<forall>uk\<in>domain_keys. \<forall>t. mv (ks_get K s') uk t = (if in_scope sc uk \<and> t \<in> sp_ts ` set pts then None else mv (ks_get K (tx_ks ?tx)) uk t)"
    using Cons.IH [OF prems, of "deleted @ [as_id sp]"] by blast
  show ?case
  proof (intro exI [of _ s'] conjI)
    show "sweep_points K sc deleted (map (point_entry m) (sp # pts)) tx = (Inr (deleted @ map as_id (sp # pts)), tx\<lparr>tx_ks := s'\<rparr>)"
      using s(1) s'(1) by (simp add: point_entry_def)
    show "store_ok domain_keys P (ks_get K s')" by (rule s'(2))
  qed (use s'(3,4) pt mvs in auto)
qed

text \<open>A chunk of a snapshot of the scope, as far as its types and keys go.\<close>

end

definition chunk_ok :: "scope \<Rightarrow> chunk \<Rightarrow> bool" where
  "chunk_ok sc c \<longleftrightarrow> (\<forall>e\<in>set (ch_entries c). fst e \<in> domain_keys \<and> in_scope sc (fst e)) \<and> distinct (map fst (ch_entries c))
    \<and> (case sm_retention_period (ch_meta c) of None \<Rightarrow> True | Some d \<Rightarrow> d div 10 ^ 9 < 2 ^ 64)"

definition ch_version :: "chunk \<Rightarrow> u64" where
  "ch_version c = fst (snd (ch_id c))"

definition chunk_value :: "chunk \<Rightarrow> bytes \<Rightarrow> bytes option option" where
  "chunk_value c uk = (case sm_marker (ch_meta c) of Sm_Deletion \<Rightarrow> None | Sm_Mutation \<Rightarrow> map_of (ch_entries c) uk)"

definition snapshot_value :: "snapshot \<Rightarrow> u64 \<Rightarrow> bytes \<Rightarrow> bytes option option" where
  "snapshot_value cs t uk = (case find (\<lambda>c. ch_version c = t) cs of None \<Rightarrow> None | Some c \<Rightarrow> chunk_value c uk)"

context api_store
begin

lemma restore_chunk_run:
  assumes ok: "store_ok domain_keys P (ks_get K (tx_ks tx))" and sc: "scope_ok sc" and node: "length (tx_node tx) = 16"
    and c: "chunk_ok sc c" and new: "\<not> point_in (ks_get K (tx_ks tx)) (point_at sc (ch_version c) (tx_time tx) (tx_node tx))"
    and clean: "\<And>uk. uk \<in> domain_keys \<Longrightarrow> in_scope sc uk \<Longrightarrow> mv (ks_get K (tx_ks tx)) uk (ch_version c) = None"
  obtains s' where "restore_chunk K P sc deleted c tx = (Inr (remove1 (ch_id c) deleted), tx\<lparr>tx_ks := s'\<rparr>)"
    "store_ok domain_keys P (ks_get K s')"
    "\<And>sq. sync_point_ok sq \<Longrightarrow> sq \<noteq> point_at sc (ch_version c) (tx_time tx) (tx_node tx)
      \<Longrightarrow> ks_get K s' (sync_point_bytes sq) = ks_get K (tx_ks tx) (sync_point_bytes sq)"
    "\<And>uk t. uk \<in> domain_keys \<Longrightarrow> mv (ks_get K s') uk t
      = (if in_scope sc uk \<and> t = ch_version c then chunk_value c uk else mv (ks_get K (tx_ks tx)) uk t)"
proof -
  let ?m = "ks_get K (tx_ks tx)" and ?sp = "point_at sc (ch_version c) (tx_time tx) (tx_node tx)"
  obtain ep nd where id: "ch_id c = (ep, ch_version c, nd)" by (cases "ch_id c") (auto simp: ch_version_def)
  obtain r where r: "is_last ?m (of_version sc (Some (ch_version c))) r"
    "find_last_syncpoint_untracked K sc (Some (ch_version c)) tx = (Inr r, tx)"
    using find_last_syncpoint_run [OF _ sc, of tx] ok by (auto simp: store_ok_def)
  define sm where "sm = \<lparr>sm_parent = map_option as_id r,
    sm_parent_epoch = (if ch_id c \<in> set deleted then Some (fst (ch_id c)) else None),
    sm_marker = sm_marker (ch_meta c), sm_retention_period = sm_retention_period (ch_meta c)\<rparr>"
  have sm: "meta_ok sm" "sm_marker sm = sm_marker (ch_meta c)"
    using r(1) c by (auto simp: sm_def meta_ok_def chunk_ok_def is_last_def as_id_def point_in_def sync_point_ok_def split: option.splits)
  have sp: "sync_point_ok ?sp" "sp_ts ?sp = ch_version c" "sp_scope ?sp = sc"
    using sc node by (simp_all add: point_at_def sync_point_ok_def)
  have es: "fst ` set (ch_entries c) \<subseteq> domain_keys" "distinct (map fst (ch_entries c))" using c by (auto simp: chunk_ok_def)
  have out: "map_of (ch_entries c) uk = None" if "\<not> in_scope sc uk" for uk
    using that c by (auto simp: chunk_ok_def map_of_eq_None_iff)
  have run: "restore_chunk K P sc deleted c tx = (Inr (remove1 (ch_id c) deleted), tx\<lparr>tx_ks := s'\<rparr>)"
    if "insert_changeset K P ?sp sm (ch_entries c) tx = (Inr True, tx\<lparr>tx_ks := s'\<rparr>)" for s'
    using that r(2) by (simp add: restore_chunk_def id Let_def split_ts_def tbind_apply sm_def)
  show thesis
  proof (cases "sm_marker (ch_meta c)")
    case Sm_Mutation
    obtain s' where s': "insert_changeset K P ?sp sm (ch_entries c) tx = (Inr True, tx\<lparr>tx_ks := s'\<rparr>)"
      "store_ok domain_keys P (ks_get K s')" "point_added ?sp sm ?m (ks_get K s')"
      "\<And>uk t. uk \<in> domain_keys \<Longrightarrow> mv (ks_get K s') uk t = (if t = sp_ts ?sp
          then merged (mv ?m uk t) (map_of (ch_entries c) uk) else mv ?m uk t)"
      using insert_changeset_mutation [OF ok sp(1) sm(1) _ new es] sm(2) Sm_Mutation by auto
    show thesis
    proof (rule that [OF run [OF s'(1)] s'(2)])
      fix uk t assume "uk \<in> domain_keys"
      then show "mv (ks_get K s') uk t = (if in_scope sc uk \<and> t = ch_version c then chunk_value c uk else mv ?m uk t)"
        using s'(4) [of uk t] clean [of uk] out [of uk] sp(2) Sm_Mutation
        by (auto simp: chunk_value_def merged_def split: option.splits)
    qed (use s'(3) in \<open>simp add: point_added_def\<close>)
  next
    case Sm_Deletion
    obtain s' where s': "insert_changeset K P ?sp sm (ch_entries c) tx = (Inr True, tx\<lparr>tx_ks := s'\<rparr>)"
      "store_ok domain_keys P (ks_get K s')" "point_added ?sp sm ?m (ks_get K s')"
      "\<And>uk t. uk \<in> domain_keys \<Longrightarrow> mv (ks_get K s') uk t = (if t = sp_ts ?sp \<and> in_scope (sp_scope ?sp) uk then None else mv ?m uk t)"
      using insert_changeset_deletion [OF ok sp(1) sm(1) _ new, of "ch_entries c"] sm(2) Sm_Deletion by auto
    show thesis
      by (rule that [OF run [OF s'(1)] s'(2)]) (use s'(3,4) sp Sm_Deletion in \<open>auto simp: point_added_def chunk_value_def\<close>)
  qed
qed

lemma restore_chunks_run:
  assumes "store_ok domain_keys P (ks_get K (tx_ks tx))" "scope_ok sc" "length (tx_node tx) = 16"
    "\<forall>c\<in>set cs. chunk_ok sc c" "distinct (map ch_version cs)"
    "\<forall>c\<in>set cs. \<not> point_in (ks_get K (tx_ks tx)) (point_at sc (ch_version c) (tx_time tx) (tx_node tx))"
    "\<forall>uk\<in>domain_keys. in_scope sc uk \<longrightarrow> (\<forall>t. mv (ks_get K (tx_ks tx)) uk t = None)"
  shows "\<exists>s' rest. restore_chunks K P sc deleted cs tx = (Inr rest, tx\<lparr>tx_ks := s'\<rparr>)
    \<and> store_ok domain_keys P (ks_get K s')
    \<and> (\<forall>uk\<in>domain_keys. \<forall>t. mv (ks_get K s') uk t = (if in_scope sc uk then snapshot_value cs t uk else mv (ks_get K (tx_ks tx)) uk t))"
proof -
  have "\<exists>s' rest. restore_chunks K P sc deleted cs tx = (Inr rest, tx\<lparr>tx_ks := s'\<rparr>)
    \<and> store_ok domain_keys P (ks_get K s')
    \<and> (\<forall>uk\<in>domain_keys. \<forall>t. mv (ks_get K s') uk t
        = (if in_scope sc uk \<and> t \<in> ch_version ` set cs then snapshot_value cs t uk else mv (ks_get K (tx_ks tx)) uk t))"
    if "store_ok domain_keys P (ks_get K (tx_ks tx))" "length (tx_node tx) = 16" "\<forall>c\<in>set cs. chunk_ok sc c" "distinct (map ch_version cs)"
      "\<forall>c\<in>set cs. \<not> point_in (ks_get K (tx_ks tx)) (point_at sc (ch_version c) (tx_time tx) (tx_node tx))"
      "\<forall>c\<in>set cs. \<forall>uk\<in>domain_keys. in_scope sc uk \<longrightarrow> mv (ks_get K (tx_ks tx)) uk (ch_version c) = None" for tx deleted
    using that
  proof (induction cs arbitrary: tx deleted)
    case Nil
    then show ?case by (intro exI [of _ "tx_ks tx"]) simp
  next
    case (Cons c cs)
    let ?m = "ks_get K (tx_ks tx)" and ?sp = "\<lambda>c. point_at sc (ch_version c) (tx_time tx) (tx_node tx)"
    obtain s where s: "restore_chunk K P sc deleted c tx = (Inr (remove1 (ch_id c) deleted), tx\<lparr>tx_ks := s\<rparr>)"
      "store_ok domain_keys P (ks_get K s)"
      "\<And>sq. sync_point_ok sq \<Longrightarrow> sq \<noteq> ?sp c \<Longrightarrow> ks_get K s (sync_point_bytes sq) = ?m (sync_point_bytes sq)"
      "\<And>uk t. uk \<in> domain_keys \<Longrightarrow> mv (ks_get K s) uk t = (if in_scope sc uk \<and> t = ch_version c then chunk_value c uk else mv ?m uk t)"
      by (rule restore_chunk_run [OF Cons.prems(1) assms(2) Cons.prems(2), of c]) (use Cons.prems in auto)
    let ?tx = "tx\<lparr>tx_ks := s\<rparr>"
    have ne: "ch_version d \<noteq> ch_version c" if "d \<in> set cs" for d using that Cons.prems(4) by (force simp: image_iff)
    have prems: "store_ok domain_keys P (ks_get K (tx_ks ?tx))" "length (tx_node ?tx) = 16" "\<forall>c\<in>set cs. chunk_ok sc c"
      "distinct (map ch_version cs)"
      "\<forall>d\<in>set cs. \<not> point_in (ks_get K (tx_ks ?tx)) (point_at sc (ch_version d) (tx_time ?tx) (tx_node ?tx))"
      "\<forall>d\<in>set cs. \<forall>uk\<in>domain_keys. in_scope sc uk \<longrightarrow> mv (ks_get K (tx_ks ?tx)) uk (ch_version d) = None"
    proof -
      show "\<forall>d\<in>set cs. \<not> point_in (ks_get K (tx_ks ?tx)) (point_at sc (ch_version d) (tx_time ?tx) (tx_node ?tx))"
      proof
        fix d assume d: "d \<in> set cs"
        then have "?sp d \<noteq> ?sp c" using ne by (simp add: point_at_def)
        then show "\<not> point_in (ks_get K (tx_ks ?tx)) (point_at sc (ch_version d) (tx_time ?tx) (tx_node ?tx))"
          using Cons.prems(5) d s(3) [of "?sp d"] by (auto simp: point_in_def)
      qed
    qed (use Cons.prems s(2,4) ne in auto)
    obtain s' rest where s': "restore_chunks K P sc (remove1 (ch_id c) deleted) cs ?tx = (Inr rest, ?tx\<lparr>tx_ks := s'\<rparr>)"
      "store_ok domain_keys P (ks_get K s')"
      "\<forall>uk\<in>domain_keys. \<forall>t. mv (ks_get K s') uk t
        = (if in_scope sc uk \<and> t \<in> ch_version ` set cs then snapshot_value cs t uk else mv (ks_get K (tx_ks ?tx)) uk t)"
      using Cons.IH [OF prems, of "remove1 (ch_id c) deleted"] by blast
    have "mv (ks_get K s') uk t = (if in_scope sc uk \<and> t \<in> ch_version ` set (c # cs) then snapshot_value (c # cs) t uk else mv ?m uk t)"
      if "uk \<in> domain_keys" for uk t
    proof -
      have "ch_version c \<notin> ch_version ` set cs" using Cons.prems(4) by simp
      then show ?thesis using s'(3) s(4) that by (cases "t = ch_version c") (simp_all add: snapshot_value_def)
    qed
    then show ?case using s(1) s'(1,2) by (intro exI [of _ s'] exI [of _ rest]) simp
  qed
  from this [of tx deleted] obtain s' rest where s': "restore_chunks K P sc deleted cs tx = (Inr rest, tx\<lparr>tx_ks := s'\<rparr>)"
    "store_ok domain_keys P (ks_get K s')"
    "\<forall>uk\<in>domain_keys. \<forall>t. mv (ks_get K s') uk t
        = (if in_scope sc uk \<and> t \<in> ch_version ` set cs then snapshot_value cs t uk else mv (ks_get K (tx_ks tx)) uk t)"
    using assms by blast
  have "snapshot_value cs t uk = None" if "t \<notin> ch_version ` set cs" for t uk
    using that by (auto simp: snapshot_value_def find_None_iff split: option.split dest: find_SomeD)
  then show ?thesis using s' assms(7) by (intro exI [of _ s'] exI [of _ rest]) simp
qed

lemma mark_deleted_run:
  assumes ok: "store_ok domain_keys P (ks_get K (tx_ks tx))" and sc: "scope_ok sc" and node: "length (tx_node tx) = 16"
  shows "\<exists>s'. mark_deleted K P sc ident tx = (Inr (), tx\<lparr>tx_ks := s'\<rparr>) \<and> store_ok domain_keys P (ks_get K s')
    \<and> (\<forall>uk\<in>domain_keys. \<forall>t. mv (ks_get K s') uk t = mv (ks_get K (tx_ks tx)) uk t)"
proof -
  obtain ep v nd where id: "ident = (ep, v, nd)" by (cases ident)
  obtain r where r: "is_last (ks_get K (tx_ks tx)) (of_version sc (Some v)) r"
    "find_last_syncpoint_untracked K sc (Some v) tx = (Inr r, tx)"
    using find_last_syncpoint_run [OF _ sc, of tx] ok by (auto simp: store_ok_def)
  let ?sp = "point_at sc v (tx_time tx) (tx_node tx)"
  let ?sm = "\<lparr>sm_parent = map_option as_id r, sm_parent_epoch = Some ep, sm_marker = Sm_Deletion, sm_retention_period = None\<rparr>"
  have sp: "sync_point_ok ?sp" using sc node by (simp add: point_at_def sync_point_ok_def)
  have sm: "meta_ok ?sm"
    using r(1) by (auto simp: meta_ok_def is_last_def as_id_def point_in_def sync_point_ok_def split: option.splits)
  obtain x where x: "from_bytes P x = Some ?sm"
    "insert_meta K P ?sp ?sm tx = (Inr (), tx\<lparr>tx_ks := ks_insert K (tx_ks tx) (sync_point_bytes ?sp) x\<rparr>)"
    by (rule insert_meta_run [OF sp sm])
  then have "mark_deleted K P sc ident tx = (Inr (), tx\<lparr>tx_ks := ks_insert K (tx_ks tx) (sync_point_bytes ?sp) x\<rparr>)"
    using r(2) by (simp add: mark_deleted_def id Let_def split_ts_def tbind_apply)
  then show ?thesis
    using store_ok_point [OF ok sp x(1)] by (auto simp: get_insert mv_point)
qed

lemma mark_all_run:
  assumes "store_ok domain_keys P (ks_get K (tx_ks tx))" "scope_ok sc" "length (tx_node tx) = 16"
  shows "\<exists>s'. tfold (mark_deleted K P sc) ids tx = (Inr (), tx\<lparr>tx_ks := s'\<rparr>) \<and> store_ok domain_keys P (ks_get K s')
    \<and> (\<forall>uk\<in>domain_keys. \<forall>t. mv (ks_get K s') uk t = mv (ks_get K (tx_ks tx)) uk t)"
  using assms
proof (induction ids arbitrary: tx)
  case Nil
  then show ?case by (intro exI [of _ "tx_ks tx"]) simp
next
  case (Cons ident ids)
  obtain s where s: "mark_deleted K P sc ident tx = (Inr (), tx\<lparr>tx_ks := s\<rparr>)" "store_ok domain_keys P (ks_get K s)"
    "\<forall>uk\<in>domain_keys. \<forall>t. mv (ks_get K s) uk t = mv (ks_get K (tx_ks tx)) uk t"
    using mark_deleted_run [OF Cons.prems, of ident] by blast
  show ?case using Cons.IH [of "tx\<lparr>tx_ks := s\<rparr>"] s Cons.prems(2,3) by auto
qed

end

text \<open>
  The rows of a scope that have a sync point with a changeset, which is all of them outside a
  transaction; a snapshot from the scope's first sync point on.
\<close>

definition rows_covered :: "sync_meta postcard \<Rightarrow> rows \<Rightarrow> scope \<Rightarrow> bool" where
  "rows_covered P m sc \<longleftrightarrow> (\<forall>uk\<in>domain_keys. in_scope sc uk \<longrightarrow> (\<forall>t. mv m uk t \<noteq> None \<longrightarrow>
    (\<exists>sp sm. point_in m sp \<and> sp_scope sp = sc \<and> sp_ts sp = t \<and> point_meta P m sp = Some sm \<and> sm_marker sm = Sm_Mutation)))"

definition full_snapshot :: "scope \<Rightarrow> snapshot \<Rightarrow> bool" where
  "full_snapshot sc cs \<longleftrightarrow> (\<forall>c\<in>set cs. chunk_ok sc c) \<and> distinct (map ch_version cs)
    \<and> (case cs of [] \<Rightarrow> True | c # _ \<Rightarrow> sm_parent (ch_meta c) = None)"

context api_store
begin

lemma restore_snapshot_run:
  assumes "inv tx" and sc: "scope_ok sc" and cs: "full_snapshot sc cs" and cov: "rows_covered P (ks_get K (tx_ks tx)) sc"
  obtains s' where "restore_snapshot K P sc cs tx = (Inr (), tx\<lparr>tx_ks := s'\<rparr>)" "inv (tx\<lparr>tx_ks := s'\<rparr>)"
    "\<And>uk t. uk \<in> domain_keys \<Longrightarrow> mv (ks_get K s') uk t
      = (if in_scope sc uk then snapshot_value cs t uk else mv (ks_get K (tx_ks tx)) uk t)"
proof -
  let ?m = "ks_get K (tx_ks tx)"
  have ok: "store_ok domain_keys P ?m" and node: "length (tx_node tx) = 16" using assms(1) by (simp_all add: tx_inv_def tx_ok_def)
  obtain lower upper where r: "scope_points_range sc = Inr (lower, upper)" "point_range lower upper (\<lambda>s. s = sc)"
    by (rule scope_points_range_ok [OF sc])
  obtain pts where pts: "ks_range K (tx_ks tx) lower (Some upper) = map (point_entry ?m) pts"
    "set pts = {sp. point_in ?m sp \<and> sp_scope sp = sc}"
    by (rule scope_points [OF ok r(2)])
  have iter: "sweep_iter K sc cs lower upper tx = (Inr (map (point_entry ?m) pts), tx)"
    using cs pts(1) by (auto simp: sweep_iter_def full_snapshot_def split: list.splits)
  have "\<forall>sp\<in>set pts. sync_point_ok sp \<and> sp_scope sp = sc" using pts(2) by (simp add: point_in_def)
  from sweep_points_run [OF ok this, of "[]" ?m] obtain s1 where
    s1: "sweep_points K sc [] (map (point_entry ?m) pts) tx = (Inr (map as_id pts), tx\<lparr>tx_ks := s1\<rparr>)"
    "store_ok domain_keys P (ks_get K s1)"
    "\<And>sq. sync_point_ok sq \<Longrightarrow> ks_get K s1 (sync_point_bytes sq) = (if sq \<in> set pts then None else ?m (sync_point_bytes sq))"
    "\<And>uk t. uk \<in> domain_keys \<Longrightarrow> mv (ks_get K s1) uk t = (if in_scope sc uk \<and> t \<in> sp_ts ` set pts then None else mv ?m uk t)"
    by auto
  have gone: "\<not> point_in (ks_get K s1) (point_at sc v e n)" for v e n
    using s1(3) [of "point_at sc v e n"] pts(2) by (auto simp: point_in_def point_at_def)
  have clean: "mv (ks_get K s1) uk t = None" if "uk \<in> domain_keys" "in_scope sc uk" for uk t
    using s1(4) [OF that(1), of t] cov that pts(2) unfolding rows_covered_def by (metis (mono_tags, lifting) imageI mem_Collect_eq)
  let ?tx1 = "tx\<lparr>tx_ks := s1\<rparr>"
  obtain s2 rest where s2: "restore_chunks K P sc (map as_id pts) cs ?tx1 = (Inr rest, ?tx1\<lparr>tx_ks := s2\<rparr>)"
    "store_ok domain_keys P (ks_get K s2)"
    "\<forall>uk\<in>domain_keys. \<forall>t. mv (ks_get K s2) uk t = (if in_scope sc uk then snapshot_value cs t uk else mv (ks_get K (tx_ks ?tx1)) uk t)"
    using restore_chunks_run [of ?tx1 sc cs "map as_id pts"] s1(2) sc node cs gone clean by (auto simp: full_snapshot_def)
  let ?tx2 = "tx\<lparr>tx_ks := s2\<rparr>"
  obtain s' where s': "tfold (mark_deleted K P sc) rest ?tx2 = (Inr (), ?tx2\<lparr>tx_ks := s'\<rparr>)" "store_ok domain_keys P (ks_get K s')"
    "\<forall>uk\<in>domain_keys. \<forall>t. mv (ks_get K s') uk t = mv (ks_get K (tx_ks ?tx2)) uk t"
    using mark_all_run [of ?tx2 sc rest] s2(2) sc node by auto
  show thesis
  proof (rule that)
    show "restore_snapshot K P sc cs tx = (Inr (), tx\<lparr>tx_ks := s'\<rparr>)"
      using r(1) iter s1(1) s2(1) s'(1) by (simp add: restore_snapshot_def tbind_apply)
    show "inv (tx\<lparr>tx_ks := s'\<rparr>)" using assms(1) s'(2) by (simp add: tx_inv_def tx_ok_def)
  next
    fix uk t assume "uk \<in> domain_keys"
    then show "mv (ks_get K s') uk t = (if in_scope sc uk then snapshot_value cs t uk else mv ?m uk t)"
      using s'(3) s2(3) s1(4) by simp
  qed
qed

end

lemma list_all2_mem:
  assumes "list_all2 R xs ys"
  shows "x \<in> set xs \<Longrightarrow> \<exists>y\<in>set ys. R x y" and "y \<in> set ys \<Longrightarrow> \<exists>x\<in>set xs. R x y"
  using assms by (induction rule: list_all2_induct) auto

text \<open>A snapshot of a scope carries the scope's rows.\<close>

lemma snapshot_of_value:
  assumes snap: "snapshot_of P m sc cs" and cov: "rows_covered P m sc" and d: "distinct (map ch_version cs)"
    and uk: "uk \<in> domain_keys" "in_scope sc uk"
  shows "snapshot_value cs t uk = mv m uk t"
proof -
  obtain pts where pts: "list_all2 (chunk_of_point P m) pts cs" "set pts = {sp. point_in m sp \<and> sp_scope sp = sc}"
    using snap by (auto simp: snapshot_of_def)
  have chunk: "\<exists>sp. point_in m sp \<and> sp_scope sp = sc \<and> chunk_of_point P m sp c" if "c \<in> set cs" for c
    using list_all2_mem(2) [OF pts(1) that] pts(2) by blast
  have point: "\<exists>c\<in>set cs. chunk_of_point P m sp c" if "point_in m sp" "sp_scope sp = sc" for sp
    using list_all2_mem(1) [OF pts(1)] pts(2) that by blast
  have covD: "\<exists>sq sm. point_in m sq \<and> sp_scope sq = sc \<and> sp_ts sq = t \<and> point_meta P m sq = Some sm \<and> sm_marker sm = Sm_Mutation"
    if "mv m uk t \<noteq> None" using cov uk that unfolding rows_covered_def by blast
  have ver: "ch_version c = sp_ts sp" if "chunk_of_point P m sp c" for sp c
    using that by (simp add: chunk_of_point_def ch_version_def as_id_def)
  have val: "chunk_value c uk = (if sm_marker (ch_meta c) = Sm_Mutation then mv m uk (sp_ts sp) else None)"
    if "chunk_of_point P m sp c" "sp_scope sp = sc" for sp c
  proof -
    have "map_of es uk = mv m uk (sp_ts sp)" if "changes_at m sc (sp_ts sp) es" for es
      using changes_at_map_of [OF that uk(1)] uk(2) by simp
    then show ?thesis using that by (auto simp: chunk_of_point_def chunk_value_def split: sync_marker.splits)
  qed
  show ?thesis
  proof (cases "find (\<lambda>c. ch_version c = t) cs")
    case None
    then have "ch_version c \<noteq> t" if "c \<in> set cs" for c using that by (simp add: find_None_iff)
    then have "mv m uk t = None" using covD point ver by blast
    then show ?thesis using None by (simp add: snapshot_value_def)
  next
    case (Some c)
    then have c: "c \<in> set cs" "ch_version c = t" using find_SomeD by fastforce+
    then obtain sp where sp: "point_in m sp" "sp_scope sp = sc" "chunk_of_point P m sp c" using chunk by blast
    have "sm_marker (ch_meta c) = Sm_Mutation" if nz: "mv m uk t \<noteq> None"
    proof -
      obtain sq sm where sq: "point_in m sq" "sp_scope sq = sc" "sp_ts sq = t" "point_meta P m sq = Some sm" "sm_marker sm = Sm_Mutation"
        using covD [OF nz] by blast
      then obtain c' where c': "c' \<in> set cs" "chunk_of_point P m sq c'" using point by blast
      then have "c' = c" using ver [OF c'(2)] sq(3) c d by (metis distinct_map inj_onD)
      then show ?thesis using c'(2) sq(4,5) by (simp add: chunk_of_point_def)
    qed
    then show ?thesis using val [OF sp(3,2)] ver [OF sp(3)] c(2) Some by (cases "mv m uk t") (auto simp: snapshot_value_def)
  qed
qed

section \<open>The invariant\<close>

lemma snd_tbind_tret: "snd (tbind m (\<lambda>_. tret x) st) = snd (m st)"
  by (auto simp: tbind_def tret_def split: prod.splits sum.splits)

lemma sync_point_prefix_eq:
  "sync_point_prefix sc None = (if scope_nul_free sc then Inr (lit ''#'' @ scope_bytes sc @ lit ''sp'') else Inl nul_error)"
  by (simp add: sync_point_prefix_def key_segments_eqs builder_encode_def encode_steps_def scope_fields_def ser_pre_def
      scope_bytes_def serialize_str_def numeral_eq_Suc scope_nul_free_def)

lemma chunk_meta_ok:
  assumes "is_last m Q r" "case ret of None \<Rightarrow> True | Some d \<Rightarrow> d div 10 ^ 9 < 2 ^ 64"
  shows "meta_ok \<lparr>sm_parent = map_option as_id r, sm_parent_epoch = pe, sm_marker = mk, sm_retention_period = ret\<rparr>"
  using assms by (auto simp: meta_ok_def is_last_def as_id_def point_in_def sync_point_ok_def split: option.splits)

context api_store
begin

lemma insert_changeset_inv:
  assumes tx: "inv tx" and sp: "sync_point_ok sp" and sm: "meta_ok sm"
    and es: "fst ` set entries \<subseteq> domain_keys" "distinct (map fst entries)"
  shows "inv (snd (insert_changeset K P sp sm entries tx))"
proof (cases "point_in (ks_get K (tx_ks tx)) sp")
  case True
  then show ?thesis
    using insert_changeset_start [of tx sp sm entries] tx sp by (simp add: tx_inv_def point_in_def)
next
  case False
  have ok: "store_ok domain_keys P (ks_get K (tx_ks tx))" using tx by (simp add: tx_inv_def)
  have inv: "inv (tx\<lparr>tx_ks := s\<rparr>)" if "store_ok domain_keys P (ks_get K s)" for s
    using tx that by (simp add: tx_inv_def tx_ok_def)
  show ?thesis
  proof (cases "sm_marker sm")
    case Sm_Mutation
    show ?thesis by (rule insert_changeset_mutation [OF ok sp sm Sm_Mutation False es]) (simp add: inv)
  next
    case Sm_Deletion
    show ?thesis by (rule insert_changeset_deletion [OF ok sp sm Sm_Deletion False, of entries]) (simp add: inv)
  qed
qed

lemma keeps_restore_chunk:
  assumes sc: "scope_ok sc" and c: "chunk_ok sc c"
  shows "keeps inv (restore_chunk K P sc deleted c)"
  unfolding keeps_def
proof (intro allI impI)
  fix tx assume tx: "inv tx"
  obtain ep v nd where id: "ch_id c = (ep, v, nd)" by (cases "ch_id c")
  obtain r where r: "is_last (ks_get K (tx_ks tx)) (of_version sc (Some v)) r"
    "find_last_syncpoint_untracked K sc (Some v) tx = (Inr r, tx)"
    using find_last_syncpoint_run [OF _ sc, of tx] tx by (auto simp: tx_inv_def store_ok_def)
  have sp: "sync_point_ok (point_at sc v (tx_time tx) (tx_node tx))"
    using sc tx by (simp add: point_at_def sync_point_ok_def tx_inv_def tx_ok_def)
  have "inv (snd (insert_changeset K P (point_at sc v (tx_time tx) (tx_node tx))
      \<lparr>sm_parent = map_option as_id r, sm_parent_epoch = pe, sm_marker = sm_marker (ch_meta c),
       sm_retention_period = sm_retention_period (ch_meta c)\<rparr> (ch_entries c) tx))" for pe
    by (rule insert_changeset_inv [OF tx sp chunk_meta_ok [OF r(1)]]) (use c in \<open>auto simp: chunk_ok_def\<close>)
  then show "inv (snd (restore_chunk K P sc deleted c tx))"
    using r(2) by (simp add: restore_chunk_def id Let_def split_ts_def snd_tbind_tret)
qed

lemma keeps_restore_chunks:
  assumes "scope_ok sc" "\<forall>c\<in>set cs. chunk_ok sc c"
  shows "keeps inv (restore_chunks K P sc deleted cs)"
  using assms(2) by (induction cs arbitrary: deleted) (auto intro!: keeps_intros keeps_restore_chunk assms(1))

lemma keeps_mark_deleted:
  assumes "scope_ok sc"
  shows "keeps inv (mark_deleted K P sc ident)"
  unfolding keeps_def
proof (intro allI impI)
  fix tx assume tx: "inv tx"
  then show "inv (snd (mark_deleted K P sc ident tx))"
    using mark_deleted_run [of tx sc ident] assms by (auto simp: tx_inv_def tx_ok_def)
qed

lemma sweep_iter_run:
  assumes tx: "inv tx" and sc: "scope_ok sc" and r: "scope_points_range sc = Inr (lower, upper)" "point_range lower upper (\<lambda>s. s = sc)"
  obtains pts where "sweep_iter K sc cs lower upper tx = (Inr (map (point_entry (ks_get K (tx_ks tx))) pts), tx)"
    "\<forall>sp\<in>set pts. sync_point_ok sp \<and> sp_scope sp = sc"
proof -
  let ?m = "ks_get K (tx_ks tx)"
  have ok: "store_ok domain_keys P ?m" using tx by (simp add: tx_inv_def)
  show thesis
  proof (cases "case cs of [] \<Rightarrow> None | c # _ \<Rightarrow> sm_parent (ch_meta c)")
    case None
    obtain pts where "ks_range K (tx_ks tx) lower (Some upper) = map (point_entry ?m) pts"
      "set pts = {sp. point_in ?m sp \<and> sp_scope sp = sc}" by (rule scope_points [OF ok r(2)])
    then show thesis using that [of pts] None by (simp add: sweep_iter_def point_in_def)
  next
    case (Some parent)
    let ?start = "sync_point_bytes (with_sp_id sc parent)"
    have key: "sync_point_key (with_sp_id sc parent) = Inr ?start"
      using sc by (simp add: sync_point_key_form with_sp_id_def split: prod.split)
    have low: "in_range ?start (Some upper) k \<Longrightarrow> in_range lower (Some upper) k" for k
    proof -
      have "lower = lit ''#'' @ scope_bytes sc @ lit ''sp''"
        using r(1) sync_point_prefix_forms(1) [OF sc]
        by (auto simp: scope_points_range_def key_range_def lift_key_def prefix_to_range_def split: option.splits)
      then have "prefix lower ?start" by (simp add: sync_point_bytes_def with_sp_id_def split: prod.split)
      then show "in_range ?start (Some upper) k \<Longrightarrow> in_range lower (Some upper) k"
        using lex_prefix_le [of lower ?start] by (auto simp: in_range_def)
    qed
    have "\<exists>sp. e = point_entry ?m sp \<and> sync_point_ok sp \<and> sp_scope sp = sc" if "e \<in> set (drop 1 (ks_range K (tx_ks tx) ?start (Some upper)))" for e
    proof -
      obtain k v where e: "e = (k, v)" by force
      then have k: "?m k = Some v" "in_range lower (Some upper) k" using in_set_dropD [OF that] low by (auto simp: mem_range)
      then have "hd k = 35" using r(2) by (simp add: point_range_def)
      then obtain sp where "point_in ?m sp" "k = sync_point_bytes sp" using point_region [OF store_ok_wf [OF ok], of k] k by auto
      then show ?thesis using k r(2) e by (auto simp: point_entry_def point_range_def point_in_def)
    qed
    then obtain f where f: "\<forall>e\<in>set (drop 1 (ks_range K (tx_ks tx) ?start (Some upper))). e = point_entry ?m (f e) \<and> sync_point_ok (f e) \<and> sp_scope (f e) = sc"
      using bchoice [of _ "\<lambda>e sp. e = point_entry ?m sp \<and> sync_point_ok sp \<and> sp_scope sp = sc"] by blast
    then have "drop 1 (ks_range K (tx_ks tx) ?start (Some upper)) = map (point_entry ?m) (map f (drop 1 (ks_range K (tx_ks tx) ?start (Some upper))))"
      by (simp add: comp_def map_idI)
    then show thesis
      using that [of "map f (drop 1 (ks_range K (tx_ks tx) ?start (Some upper)))"] f Some key by (simp add: sweep_iter_def)
  qed
qed

lemma keeps_restore_snapshot:
  assumes sc: "scope_str sc" and cs: "\<forall>c\<in>set cs. chunk_ok sc c"
  shows "keeps inv (restore_snapshot K P sc cs)"
proof (cases "scope_ok sc")
  case False
  then have "sync_point_prefix sc None = Inl nul_error"
    using scope_str_ok [OF sc] by (auto simp: sync_point_prefix_eq)
  then show ?thesis by (auto simp: restore_snapshot_def scope_points_range_def key_range_def lift_key_def keeps_def)
next
  case True
  obtain lower upper where r: "scope_points_range sc = Inr (lower, upper)" "point_range lower upper (\<lambda>s. s = sc)"
    by (rule scope_points_range_ok [OF True])
  show ?thesis
    unfolding keeps_def
  proof (intro allI impI)
    fix tx assume tx: "inv tx"
    obtain pts where pts: "sweep_iter K sc cs lower upper tx = (Inr (map (point_entry (ks_get K (tx_ks tx))) pts), tx)"
      "\<forall>sp\<in>set pts. sync_point_ok sp \<and> sp_scope sp = sc" by (rule sweep_iter_run [OF tx True r])
    obtain s where s: "sweep_points K sc [] (map (point_entry (ks_get K (tx_ks tx))) pts) tx = (Inr (map as_id pts), tx\<lparr>tx_ks := s\<rparr>)"
      "store_ok domain_keys P (ks_get K s)"
      using sweep_points_run [OF _ pts(2), of tx "[]" "ks_get K (tx_ks tx)"] tx by (auto simp: tx_inv_def)
    have rest: "keeps inv (tbind (restore_chunks K P sc (map as_id pts) cs) (\<lambda>rest. tfold (mark_deleted K P sc) rest))"
      by (intro keeps_intros keeps_restore_chunks keeps_mark_deleted True cs)
    have "inv (tx\<lparr>tx_ks := s\<rparr>)" using tx s(2) by (simp add: tx_inv_def tx_ok_def)
    from keepsD [OF rest this] show "inv (snd (restore_snapshot K P sc cs tx))"
      using r(1) pts(1) s(1) by (simp add: restore_snapshot_def tbind_apply [of "sweep_iter K sc cs lower upper"] tbind_apply [of "sweep_points K sc [] _"])
  qed
qed

end

end
