(* ===== verification/Apply.thy ===== *)
theory Apply
  imports Snapshots
begin

text \<open>
  Applying operations to a transaction (\<open>swarm/swarm/src/plugins/db/apply.rs\<close> and \<open>apply_all\<close> of
  \<open>handler.rs\<close>): one function per operation, each from a transaction and an operation to a
  response, and the application of a list of operations that stops at the first failure. The
  operations on the semantic graph are not modelled. Generated entity ids come from
  \<open>uuid::Uuid::new_v7\<close> and its shared counter, a parameter.
\<close>

section \<open>Operations and responses\<close>

type_synonym chunk_range = "u64 \<times> u64"
type_synonym tx_events = "(scope \<times> bytes) set"

datatype 'b tx_op =
    Op_Scope_Backup scope
  | Op_Scope_Restore scope snapshot
  | Op_Key_Put scope bytes bytes
  | Op_Key_Get scope bytes
  | Op_Key_Delete scope bytes
  | Op_Key_Prefix scope bytes
  | Op_Key_List scope bytes
  | Op_Tb_Insert scope bytes "bytes option" bytes
  | Op_Tb_Append scope bytes "bytes option" bytes
  | Op_Tb_Insert_Batched scope bytes "(bytes option \<times> bytes) list"
  | Op_Tb_Count scope bytes
  | Op_Tb_Get scope bytes bytes
  | Op_Tb_List scope bytes "cursor option" "nat option" "tb_order_by option"
  | Op_Tb_Delete scope bytes bytes
  | Op_Ts_Publish scope bytes 'b u64
  | Op_Ts_Find scope bytes "nat option" "u64 option" "u64 option" "ts_order_by option"
  | Op_Blob_Store scope bytes
  | Op_Blob_Link blob_id bytes
  | Op_Blob_Unlink scope bytes
  | Op_Blob_Move scope bytes bytes
  | Op_Blob_Resolve blob_id "chunk_range option"
  | Op_Path_Resolve scope bytes "chunk_range option"
  | Op_Paths_List scope "nat option"

record blob_response =
  br_blob :: bytes
  br_blob_id :: blob_id
  br_range :: "chunk_range option"
  br_total_len :: u64

datatype 'b tx_op_response =
    Re_Scope_Backup snapshot
  | Re_Scope_Restore
  | Re_Key_Put
  | Re_Key_Get "bytes option"
  | Re_Key_Delete
  | Re_Key_Prefix "bytes list"
  | Re_Key_List "(bytes \<times> bytes) list"
  | Re_Tb_Insert bytes
  | Re_Tb_Append
  | Re_Tb_Insert_Batched "bytes list"
  | Re_Tb_Count nat
  | Re_Tb_Get "bytes option"
  | Re_Tb_List "(bytes \<times> bytes) list"
  | Re_Tb_Delete
  | Re_Ts_Publish
  | Re_Ts_Find "('b \<times> u64) list"
  | Re_Blob_Store blob_id
  | Re_Blob_Link
  | Re_Blob_Unlink
  | Re_Blob_Move
  | Re_Blob_Resolve "blob_response option"
  | Re_Path_Resolve "blob_response option"
  | Re_Paths_List "bytes list"

datatype apply_error = Ae_Store tx_error | Ae_Out_Of_Bounds u64 u64 u64

text \<open>What the operations use of other packages, and the state they share.\<close>

record ('s, 'b, 'c) env =
  env_engine :: "'s engine"
  env_meta :: "sync_meta postcard"
  env_body :: "'b postcard"
  env_sha256 :: "bytes \<Rightarrow> bytes"
  env_new_v7 :: "'c \<Rightarrow> u64 \<Rightarrow> bytes \<times> 'c"

record ('s, 'c) app =
  app_tx :: "'s transaction"
  app_events :: tx_events
  app_context :: 'c

type_synonym ('s, 'c, 'a) app_op = "('s, 'c) app \<Rightarrow> (apply_error + 'a) \<times> ('s, 'c) app"

definition aret :: "'a \<Rightarrow> ('s, 'c, 'a) app_op" where
  "aret a = (\<lambda>st. (Inr a, st))"

definition abind :: "('s, 'c, 'a) app_op \<Rightarrow> ('a \<Rightarrow> ('s, 'c, 'b) app_op) \<Rightarrow> ('s, 'c, 'b) app_op" where
  "abind m f = (\<lambda>st. case m st of (Inl e, st') \<Rightarrow> (Inl e, st') | (Inr a, st') \<Rightarrow> f a st')"

definition store :: "('s transaction, 'a) op \<Rightarrow> ('s, 'c, 'a) app_op" where
  "store m = (\<lambda>st. case m (app_tx st) of
     (Inl e, tx) \<Rightarrow> (Inl (Ae_Store e), st\<lparr>app_tx := tx\<rparr>)
   | (Inr a, tx) \<Rightarrow> (Inr a, st\<lparr>app_tx := tx\<rparr>))"

definition record_event :: "scope \<Rightarrow> bytes \<Rightarrow> ('s, 'c, unit) app_op" where
  "record_event sc table = (\<lambda>st. (Inr (), st\<lparr>app_events := insert (sc, table) (app_events st)\<rparr>))"

definition alift :: "apply_error + 'a \<Rightarrow> ('s, 'c, 'a) app_op" where
  "alift r = (\<lambda>st. (r, st))"

section \<open>The operations\<close>

definition eid_from_ts :: "('s, 'b, 'c) env \<Rightarrow> u64 \<Rightarrow> ('s, 'c, bytes) app_op" where
  "eid_from_ts E ts = (\<lambda>st. case env_new_v7 E (app_context st) ts of (eid, c) \<Rightarrow> (Inr eid, st\<lparr>app_context := c\<rparr>))"

definition key_events :: bytes where
  "key_events = lit ''@keys''"

definition insert_row :: "('s, 'b, 'c) env \<Rightarrow> scope \<Rightarrow> bytes \<Rightarrow> bytes option \<Rightarrow> bytes \<Rightarrow> ('s, 'c, bytes) app_op" where
  "insert_row E sc table eid value =
    abind (case eid of Some e \<Rightarrow> aret e | None \<Rightarrow> (\<lambda>st. eid_from_ts E (tx_time (app_tx st)) st)) (\<lambda>e.
      abind (store (tb_insert (env_engine E) sc table e value)) (\<lambda>_.
        abind (record_event sc table) (\<lambda>_. aret e)))"

fun resolve_ids :: "('s, 'b, 'c) env \<Rightarrow> u64 \<Rightarrow> (bytes option \<times> bytes) list \<Rightarrow> ('s, 'c, bytes list) app_op" where
  "resolve_ids E ts [] = aret []"
| "resolve_ids E ts ((eid, _) # entries) =
    abind (case eid of Some e \<Rightarrow> aret e | None \<Rightarrow> eid_from_ts E ts) (\<lambda>e.
      abind (resolve_ids E ts entries) (\<lambda>es. aret (e # es)))"

definition apply_tb_insert_batched :: "('s, 'b, 'c) env \<Rightarrow> scope \<Rightarrow> bytes \<Rightarrow> (bytes option \<times> bytes) list
    \<Rightarrow> ('s, 'c, bytes list) app_op" where
  "apply_tb_insert_batched E sc table entries =
    abind (\<lambda>st. resolve_ids E (tx_time (app_tx st)) entries st) (\<lambda>eids.
      abind (store (tb_insert_batched (env_engine E) sc table (zip eids (map snd entries)))) (\<lambda>_.
        abind (if eids \<noteq> [] then record_event sc table else aret ()) (\<lambda>_. aret eids)))"

definition chunk_of :: "bytes \<Rightarrow> blob_id \<Rightarrow> chunk_range option \<Rightarrow> apply_error + blob_response" where
  "chunk_of blob blob_id rng =
    (let total_len = word_of_nat (length blob)
     in case rng of
          None \<Rightarrow> Inr \<lparr>br_blob = blob, br_blob_id = blob_id, br_range = None, br_total_len = total_len\<rparr>
        | Some (offset, len) \<Rightarrow>
            if len = 0 then Inr \<lparr>br_blob = [], br_blob_id = blob_id, br_range = Some (offset, 0), br_total_len = total_len\<rparr>
            else let start = unat offset; stop = min (min (start + unat len) usize_max) (length blob)
                 in if start \<le> stop
                    then let chunk = take (stop - start) (drop start blob)
                         in Inr \<lparr>br_blob = chunk, br_blob_id = blob_id,
                                 br_range = Some (offset, word_of_nat (length chunk)), br_total_len = total_len\<rparr>
                    else Inl (Ae_Out_Of_Bounds offset (word_of_nat (min (unat offset + unat len) usize_max)) total_len))"

definition blob_resolve :: "('s, 'b, 'c) env \<Rightarrow> blob_id \<Rightarrow> chunk_range option \<Rightarrow> ('s, 'c, blob_response option) app_op" where
  "blob_resolve E blob_id rng =
    abind (store (resolve_blob (env_engine E) blob_id)) (\<lambda>blob.
      case blob of
        None \<Rightarrow> aret None
      | Some b \<Rightarrow> abind (alift (chunk_of b blob_id rng)) (\<lambda>r. aret (Some r)))"

definition path_resolve :: "('s, 'b, 'c) env \<Rightarrow> scope \<Rightarrow> bytes \<Rightarrow> chunk_range option \<Rightarrow> ('s, 'c, blob_response option) app_op" where
  "path_resolve E sc path rng =
    abind (store (resolve_path (env_engine E) (sc, path))) (\<lambda>resolved.
      case resolved of
        None \<Rightarrow> aret None
      | Some (blob, blob_id) \<Rightarrow> abind (alift (chunk_of blob blob_id rng)) (\<lambda>r. aret (Some r)))"

definition then_ret :: "('s, 'c, 'a) app_op \<Rightarrow> 'b \<Rightarrow> ('s, 'c, 'b) app_op" where
  "then_ret m r = abind m (\<lambda>_. aret r)"

definition amap :: "('a \<Rightarrow> 'b) \<Rightarrow> ('s, 'c, 'a) app_op \<Rightarrow> ('s, 'c, 'b) app_op" where
  "amap f m = abind m (\<lambda>a. aret (f a))"

fun apply_op :: "('s, 'b, 'c) env \<Rightarrow> 'b tx_op \<Rightarrow> ('s, 'c, 'b tx_op_response) app_op" where
  "apply_op E (Op_Scope_Backup sc) = amap Re_Scope_Backup (store (take_snapshot (env_engine E) (env_meta E) sc))"
| "apply_op E (Op_Scope_Restore sc snap) =
    then_ret (store (restore_snapshot (env_engine E) (env_meta E) sc snap)) Re_Scope_Restore"
| "apply_op E (Op_Key_Put sc key value) =
    abind (store (key_put (env_engine E) sc key value)) (\<lambda>_. then_ret (record_event sc key_events) Re_Key_Put)"
| "apply_op E (Op_Key_Get sc key) = amap Re_Key_Get (store (key_get (env_engine E) sc key))"
| "apply_op E (Op_Key_Delete sc key) = then_ret (store (key_delete (env_engine E) sc key)) Re_Key_Delete"
| "apply_op E (Op_Key_Prefix sc pre) = amap Re_Key_Prefix (store (key_prefix (env_engine E) sc pre))"
| "apply_op E (Op_Key_List sc pre) = amap Re_Key_List (store (key_list (env_engine E) sc pre))"
| "apply_op E (Op_Tb_Insert sc table eid value) = amap Re_Tb_Insert (insert_row E sc table eid value)"
| "apply_op E (Op_Tb_Append sc table eid value) = then_ret (insert_row E sc table eid value) Re_Tb_Append"
| "apply_op E (Op_Tb_Insert_Batched sc table entries) =
    amap Re_Tb_Insert_Batched (apply_tb_insert_batched E sc table entries)"
| "apply_op E (Op_Tb_Count sc table) = amap Re_Tb_Count (store (tb_count (env_engine E) sc table))"
| "apply_op E (Op_Tb_Get sc table eid) = amap Re_Tb_Get (store (tb_get (env_engine E) sc table eid))"
| "apply_op E (Op_Tb_List sc table cur limit ord) =
    amap Re_Tb_List (store (tb_list (env_engine E) sc table cur limit ord))"
| "apply_op E (Op_Tb_Delete sc table eid) = then_ret (store (tb_delete (env_engine E) sc table eid)) Re_Tb_Delete"
| "apply_op E (Op_Ts_Publish sc m body ts) =
    then_ret (store (publish_measurement (env_engine E) (env_body E) sc m body ts)) Re_Ts_Publish"
| "apply_op E (Op_Ts_Find sc m limit start stop ord) =
    amap Re_Ts_Find (store (find_measurement (env_engine E) (env_body E) sc m limit start stop ord))"
| "apply_op E (Op_Blob_Store sc blob) = amap Re_Blob_Store (store (store_blob (env_engine E) (env_sha256 E) sc blob))"
| "apply_op E (Op_Blob_Link ident path) =
    then_ret (store (link_blob (env_engine E) (fst ident, path) ident)) Re_Blob_Link"
| "apply_op E (Op_Blob_Unlink sc path) = then_ret (store (unlink_blob (env_engine E) (sc, path))) Re_Blob_Unlink"
| "apply_op E (Op_Blob_Move sc old_path new_path) =
    then_ret (store (move_blob (env_engine E) (sc, old_path) (sc, new_path))) Re_Blob_Move"
| "apply_op E (Op_Blob_Resolve ident rng) = amap Re_Blob_Resolve (blob_resolve E ident rng)"
| "apply_op E (Op_Path_Resolve sc path rng) = amap Re_Path_Resolve (path_resolve E sc path rng)"
| "apply_op E (Op_Paths_List sc limit) = amap Re_Paths_List (store (list_paths (env_engine E) sc limit))"

text \<open>All operations in order; the error carries the index of the one that failed.\<close>

definition op_index :: "nat \<Rightarrow> u32" where
  "op_index i = (if i < 2 ^ 32 then word_of_nat i else - 1)"

fun apply_loop :: "('s, 'b, 'c) env \<Rightarrow> nat \<Rightarrow> 'b tx_op_response option \<Rightarrow> 'b tx_op list
    \<Rightarrow> ('s, 'c) app \<Rightarrow> ((apply_error \<times> u32) + 'b tx_op_response option) \<times> ('s, 'c) app" where
  "apply_loop E i prev [] st = (Inr prev, st)"
| "apply_loop E i prev (operation # ops) st =
    (case apply_op E operation st of
       (Inl e, st') \<Rightarrow> (Inl (e, op_index i), st')
     | (Inr r, st') \<Rightarrow> apply_loop E (Suc i) (Some r) ops st')"

definition apply_all :: "('s, 'b, 'c) env \<Rightarrow> 'b tx_op list \<Rightarrow> ('s, 'c) app
    \<Rightarrow> ((apply_error \<times> u32) + 'b tx_op_response option) \<times> ('s, 'c) app" where
  "apply_all E ops st = apply_loop E 0 None ops st"

end
