(* ===== verification/Apply_Spec.thy ===== *)
theory Apply_Spec
  imports Apply
begin

text \<open>
  What applying operations does: every operation keeps the invariant of the transaction, and the
  operations on keys, tables and blobs behave as a plain map from scopes and keys to values, the
  reference store, on which a table listing is a sorted list and a write an update. The reference
  has no versions, tombstones, indices or byte keys.
\<close>

section \<open>The environment\<close>

locale app_env = keyspace "env_engine E" + meta: postcard_codec "env_meta E" meta_ok
  for E :: "('s, 'b, 'c) env" +
  assumes sha256_length: "length (env_sha256 E b) = 32"
    and new_v7_length: "length (fst (env_new_v7 E c ts)) = 16"

sublocale app_env \<subseteq> api_store "env_engine E" "env_meta E"
  by unfold_locales

section \<open>The invariant\<close>

text \<open>Operations whose arguments are values of their Rust types.\<close>

abbreviation eid_typed :: "bytes option \<Rightarrow> bool" where
  "eid_typed eid \<equiv> (case eid of None \<Rightarrow> True | Some e \<Rightarrow> length e < 2 ^ 64)"

fun op_typed :: "'b tx_op \<Rightarrow> bool" where
  "op_typed (Op_Scope_Backup sc) = scope_str sc"
| "op_typed (Op_Scope_Restore sc snap) = (scope_str sc \<and> (\<forall>c\<in>set snap. chunk_ok sc c))"
| "op_typed (Op_Key_Put sc key value) = (scope_str sc \<and> utf8_valid key)"
| "op_typed (Op_Key_Get sc key) = (scope_str sc \<and> utf8_valid key)"
| "op_typed (Op_Key_Delete sc key) = (scope_str sc \<and> utf8_valid key)"
| "op_typed (Op_Key_Prefix sc pre) = (scope_str sc \<and> utf8_valid pre)"
| "op_typed (Op_Key_List sc pre) = (scope_str sc \<and> utf8_valid pre)"
| "op_typed (Op_Tb_Insert sc table eid value) = (scope_str sc \<and> utf8_valid table \<and> eid_typed eid)"
| "op_typed (Op_Tb_Append sc table eid value) = (scope_str sc \<and> utf8_valid table \<and> eid_typed eid)"
| "op_typed (Op_Tb_Insert_Batched sc table entries) = (scope_str sc \<and> utf8_valid table \<and> (\<forall>e\<in>set entries. eid_typed (fst e)))"
| "op_typed (Op_Tb_Count sc table) = (scope_str sc \<and> utf8_valid table)"
| "op_typed (Op_Tb_Get sc table eid) = (scope_str sc \<and> utf8_valid table \<and> length eid < 2 ^ 64)"
| "op_typed (Op_Tb_List sc table cur limit ord) = (scope_str sc \<and> utf8_valid table \<and> cursor_ok cur)"
| "op_typed (Op_Tb_Delete sc table eid) = (scope_str sc \<and> utf8_valid table \<and> length eid < 2 ^ 64)"
| "op_typed (Op_Ts_Publish sc m body ts) = (scope_str sc \<and> utf8_valid m)"
| "op_typed (Op_Ts_Find sc m limit start stop ord) = (scope_str sc \<and> utf8_valid m)"
| "op_typed (Op_Blob_Store sc blob) = scope_str sc"
| "op_typed (Op_Blob_Link ident path) = (scope_str (fst ident) \<and> length (snd ident) = 32 \<and> utf8_valid path)"
| "op_typed (Op_Blob_Unlink sc path) = (scope_str sc \<and> utf8_valid path)"
| "op_typed (Op_Blob_Move sc old_path new_path) = (scope_str sc \<and> utf8_valid old_path \<and> utf8_valid new_path)"
| "op_typed (Op_Blob_Resolve ident rng) = (scope_str (fst ident) \<and> length (snd ident) = 32)"
| "op_typed (Op_Path_Resolve sc path rng) = (scope_str sc \<and> utf8_valid path)"
| "op_typed (Op_Paths_List sc limit) = scope_str sc"

definition app_keeps :: "('s transaction \<Rightarrow> bool) \<Rightarrow> ('s, 'c, 'a) app_op \<Rightarrow> bool" where
  "app_keeps I m \<longleftrightarrow> (\<forall>st. I (app_tx st) \<longrightarrow> I (app_tx (snd (m st))))"

named_theorems app_keeps_intros

lemma app_keeps_aret [app_keeps_intros]: "app_keeps I (aret a)"
  by (simp add: app_keeps_def aret_def)

lemma app_keeps_alift [app_keeps_intros]: "app_keeps I (alift r)"
  by (simp add: app_keeps_def alift_def)

lemma app_keeps_abind [app_keeps_intros]: "app_keeps I m \<Longrightarrow> (\<And>a. app_keeps I (f a)) \<Longrightarrow> app_keeps I (abind m f)"
  unfolding app_keeps_def abind_def by (auto split: prod.splits sum.splits)

lemma app_keeps_store [app_keeps_intros]: "keeps I m \<Longrightarrow> app_keeps I (store m)"
  unfolding app_keeps_def store_def keeps_def by (auto split: prod.splits sum.splits)

lemma app_keeps_event [app_keeps_intros]: "app_keeps I (record_event sc table)"
  by (simp add: app_keeps_def record_event_def)

lemma app_keeps_eid [app_keeps_intros]: "app_keeps I (eid_from_ts E ts)"
  by (simp add: app_keeps_def eid_from_ts_def split: prod.split)

lemma app_keeps_eid_now [app_keeps_intros]: "app_keeps I (\<lambda>st. eid_from_ts E (tx_time (app_tx st)) st)"
  by (simp add: app_keeps_def eid_from_ts_def split: prod.split)

lemma app_keeps_option [app_keeps_intros]:
  "app_keeps I m \<Longrightarrow> (\<And>a. x = Some a \<Longrightarrow> app_keeps I (f a)) \<Longrightarrow> app_keeps I (case_option m f x)"
  by (cases x) simp_all

lemma app_keeps_prod [app_keeps_intros]: "(\<And>a b. app_keeps I (f a b)) \<Longrightarrow> app_keeps I (case_prod f x)"
  by (cases x) simp

lemma app_keeps_if [app_keeps_intros]: "app_keeps I a \<Longrightarrow> app_keeps I b \<Longrightarrow> app_keeps I (if c then a else b)"
  by simp

lemma app_keeps_post:
  assumes "app_keeps I m" "\<And>st a st'. m st = (Inr a, st') \<Longrightarrow> Q a" "\<And>a. Q a \<Longrightarrow> app_keeps I (f a)"
  shows "app_keeps I (abind m f)"
  using assms unfolding app_keeps_def abind_def by (auto split: prod.splits sum.splits)

lemma keeps_reads [keeps_intros]:
  "keeps I (key_get K sc key)" "keeps I (key_prefix K sc key)" "keeps I (key_list K sc key)" "keeps I (tb_count K sc name)"
  "keeps I (tb_get K sc name ident)" "keeps I (resolve_blob K b)" "keeps I (take_snapshot K P sc)"
  "keeps I (list_paths K sc limit)"
  unfolding key_get_def key_prefix_def key_list_def tb_count_def tb_get_def resolve_blob_def take_snapshot_def list_paths_def
    tx_get_def get_from_def
  by (auto intro!: keeps_intros split: prod.split)

lemma keeps_tb_list [keeps_intros]: "keeps I (tb_list K sc name cur limit ord)"
  unfolding tb_list_def Let_def by (auto intro!: keeps_intros split: prod.split)

lemma keeps_find_measurement [keeps_intros]: "keeps I (find_measurement K B sc m limit start stop ord)"
  unfolding find_measurement_def by (auto intro!: keeps_intros split: prod.split)

lemma keeps_resolve_path [keeps_intros]: "keeps I (resolve_path K path)"
  unfolding resolve_path_def tx_get_def get_from_def by (auto intro!: keeps_intros split: prod.split)

context app_env
begin

lemma eid_length:
  "(case eid of Some e \<Rightarrow> aret e | None \<Rightarrow> eid_from_ts E ts) st = (Inr e, st') \<Longrightarrow> eid_typed eid \<Longrightarrow> length e < 2 ^ 64"
  using new_v7_length [of "app_context st" ts]
  by (cases eid) (auto simp: aret_def eid_from_ts_def split: prod.splits)

lemma resolve_ids_length:
  "resolve_ids E ts entries st = (Inr es, st') \<Longrightarrow> \<forall>e\<in>set entries. eid_typed (fst e)
    \<Longrightarrow> length es = length entries \<and> (\<forall>e\<in>set es. length e < 2 ^ 64)"
proof (induction entries arbitrary: st es)
  case Nil
  then show ?case by (simp add: aret_def)
next
  case (Cons x entries)
  obtain eid v where x: "x = (eid, v)" by force
  from Cons.prems(1) obtain e s1 es' where e: "(case eid of Some e \<Rightarrow> aret e | None \<Rightarrow> eid_from_ts E ts) st = (Inr e, s1)"
    "resolve_ids E ts entries s1 = (Inr es', st')" "es = e # es'"
    by (auto simp: x abind_def aret_def split: prod.splits sum.splits)
  then show ?case using eid_length [OF e(1)] Cons.IH [OF e(2)] Cons.prems(2) by (simp add: x)
qed

lemma app_keeps_insert_row:
  assumes "scope_str sc" "utf8_valid table" "eid_typed eid"
  shows "app_keeps inv (insert_row E sc table eid value)"
  unfolding insert_row_def
proof (rule app_keeps_post)
  show "app_keeps inv (case eid of None \<Rightarrow> \<lambda>st. eid_from_ts E (tx_time (app_tx st)) st | Some e \<Rightarrow> aret e)"
    by (intro app_keeps_intros)
  show "length e < 2 ^ 64" if "(case eid of None \<Rightarrow> \<lambda>st. eid_from_ts E (tx_time (app_tx st)) st | Some e \<Rightarrow> aret e) st = (Inr e, st')" for st e st'
    using eid_length [where eid = eid and ts = "tx_time (app_tx st)" and st = st] that assms(3) by (cases eid) simp_all
qed (intro app_keeps_intros keeps_tb_insert assms)

lemma resolve_ids_keeps: "app_keeps I (resolve_ids E ts entries)"
  by (induction entries) (auto intro!: app_keeps_intros)

lemma app_keeps_batched:
  assumes "scope_str sc" "utf8_valid table" "\<forall>e\<in>set entries. eid_typed (fst e)"
  shows "app_keeps inv (apply_tb_insert_batched E sc table entries)"
  unfolding apply_tb_insert_batched_def
proof (rule app_keeps_post)
  show "app_keeps inv (\<lambda>st. resolve_ids E (tx_time (app_tx st)) entries st)"
    using resolve_ids_keeps [of inv _ entries] by (simp add: app_keeps_def)
  show "\<forall>e\<in>set eids. length e < 2 ^ 64" if "resolve_ids E (tx_time (app_tx st)) entries st = (Inr eids, st')" for st eids st'
    using resolve_ids_length [OF that assms(3)] by simp
next
  fix eids :: "bytes list" assume "\<forall>e\<in>set eids. length e < 2 ^ 64"
  then have "\<forall>e\<in>set (zip eids (map snd entries)). length (fst e) < 2 ^ 64" by (auto dest: set_zip_leftD)
  then show "app_keeps inv (abind (store (tb_insert_batched (env_engine E) sc table (zip eids (map snd entries))))
      (\<lambda>_. abind (if eids \<noteq> [] then record_event sc table else aret ()) (\<lambda>_. aret eids)))"
    by (intro app_keeps_intros keeps_tb_insert_batched assms)
qed

lemma apply_op_keeps:
  assumes "op_typed operation"
  shows "app_keeps inv (apply_op E operation)"
  using assms
  by (cases operation; simp add: amap_def then_ret_def blob_resolve_def path_resolve_def;
      intro app_keeps_intros keeps_reads keeps_tb_list keeps_find_measurement keeps_resolve_path keeps_restore_snapshot keeps_key_put
        keeps_key_delete keeps_tb_insert keeps_tb_delete app_keeps_insert_row app_keeps_batched keeps_publish_measurement
        keeps_store_blob keeps_link_blob keeps_unlink_blob keeps_move_blob sha256_length; simp)

lemma apply_loop_keeps:
  assumes "\<forall>operation\<in>set ops. op_typed operation" "inv (app_tx st)"
  shows "inv (app_tx (snd (apply_loop E i prev ops st)))"
  using assms
proof (induction ops arbitrary: i prev st)
  case (Cons x ops)
  have "inv (app_tx (snd (apply_op E x st)))" using apply_op_keeps [of x] Cons.prems by (simp add: app_keeps_def)
  then show ?case using Cons by (auto split: prod.split sum.split)
qed simp

end

section \<open>The reference store\<close>

type_synonym ref_store = "scope \<Rightarrow> key_body \<Rightarrow> bytes option"

definition store_view :: "rows \<Rightarrow> ref_store" where
  "store_view m sc b = (if scope_ok sc \<and> body_ok b then mv_read m (user_key sc b) (- 1) else None)"

definition ref_put :: "scope \<Rightarrow> key_body \<Rightarrow> bytes \<Rightarrow> ref_store \<Rightarrow> ref_store" where
  "ref_put sc b v r = r(sc := (r sc)(b \<mapsto> v))"

definition ref_delete :: "scope \<Rightarrow> key_body \<Rightarrow> ref_store \<Rightarrow> ref_store" where
  "ref_delete sc b r = r(sc := (r sc)(b := None))"

definition ref_keys :: "ref_store \<Rightarrow> scope \<Rightarrow> bytes \<Rightarrow> (bytes \<times> bytes) list \<Rightarrow> bool" where
  "ref_keys r sc pre out \<longleftrightarrow> sorted_wrt (<) (map fst out) \<and> set out = {(k, v). prefix pre k \<and> r sc (Kv k) = Some v}"

definition ref_table :: "ref_store \<Rightarrow> scope \<Rightarrow> bytes \<Rightarrow> (bytes \<times> bytes) list \<Rightarrow> bool" where
  "ref_table r sc name out \<longleftrightarrow> sorted_wrt (\<lambda>a b. id_le a b \<and> a \<noteq> b) (map fst out)
    \<and> set out = {(i, v). r sc (Entity name i) = Some v}"

fun ref_puts :: "scope \<Rightarrow> bytes \<Rightarrow> (bytes \<times> bytes) list \<Rightarrow> ref_store \<Rightarrow> ref_store" where
  "ref_puts sc name [] r = r"
| "ref_puts sc name ((i, v) # es) r = ref_puts sc name es (ref_put sc (Entity name i) v r)"

text \<open>One operation on the reference store: its response and the store afterwards.\<close>

fun ref_step :: "(bytes \<Rightarrow> bytes) \<Rightarrow> 'b tx_op \<Rightarrow> ref_store \<Rightarrow> 'b tx_op_response \<Rightarrow> ref_store \<Rightarrow> bool" where
  "ref_step sha (Op_Key_Put sc key value) r resp r' \<longleftrightarrow> resp = Re_Key_Put \<and> r' = ref_put sc (Kv key) value r"
| "ref_step sha (Op_Key_Get sc key) r resp r' \<longleftrightarrow> resp = Re_Key_Get (r sc (Kv key)) \<and> r' = r"
| "ref_step sha (Op_Key_Delete sc key) r resp r' \<longleftrightarrow> resp = Re_Key_Delete \<and> r' = ref_delete sc (Kv key) r"
| "ref_step sha (Op_Key_Prefix sc pre) r resp r' \<longleftrightarrow> (\<exists>out. ref_keys r sc pre out \<and> resp = Re_Key_Prefix (map fst out)) \<and> r' = r"
| "ref_step sha (Op_Key_List sc pre) r resp r' \<longleftrightarrow> (\<exists>out. ref_keys r sc pre out \<and> resp = Re_Key_List out) \<and> r' = r"
| "ref_step sha (Op_Tb_Insert sc table eid value) r resp r' \<longleftrightarrow>
    (\<exists>e. (case eid of None \<Rightarrow> length e = 16 | Some x \<Rightarrow> e = x) \<and> resp = Re_Tb_Insert e \<and> r' = ref_put sc (Entity table e) value r)"
| "ref_step sha (Op_Tb_Append sc table eid value) r resp r' \<longleftrightarrow>
    (\<exists>e. (case eid of None \<Rightarrow> length e = 16 | Some x \<Rightarrow> e = x) \<and> resp = Re_Tb_Append \<and> r' = ref_put sc (Entity table e) value r)"
| "ref_step sha (Op_Tb_Insert_Batched sc table entries) r resp r' \<longleftrightarrow>
    (\<exists>es. list_all2 (\<lambda>e x. case fst x of None \<Rightarrow> length e = 16 | Some y \<Rightarrow> e = y) es entries
      \<and> resp = Re_Tb_Insert_Batched es \<and> r' = ref_puts sc table (zip es (map snd entries)) r)"
| "ref_step sha (Op_Tb_Count sc table) r resp r' \<longleftrightarrow> (\<exists>out. ref_table r sc table out \<and> resp = Re_Tb_Count (length out)) \<and> r' = r"
| "ref_step sha (Op_Tb_Get sc table eid) r resp r' \<longleftrightarrow> resp = Re_Tb_Get (r sc (Entity table eid)) \<and> r' = r"
| "ref_step sha (Op_Tb_List sc table cur limit ord) r resp r' \<longleftrightarrow>
    (\<exists>out. ref_table r sc table out \<and> resp = Re_Tb_List (table_page ord cur limit out)) \<and> r' = r"
| "ref_step sha (Op_Tb_Delete sc table eid) r resp r' \<longleftrightarrow> resp = Re_Tb_Delete \<and> r' = ref_delete sc (Entity table eid) r"
| "ref_step sha (Op_Blob_Store sc blob) r resp r' \<longleftrightarrow>
    resp = Re_Blob_Store (sc, sha blob) \<and> r' = ref_put sc (Blob_Id (sha blob)) blob r"
| "ref_step sha _ r resp r' \<longleftrightarrow> False"

fun ref_run :: "(bytes \<Rightarrow> bytes) \<Rightarrow> 'b tx_op list \<Rightarrow> ref_store \<Rightarrow> 'b tx_op_response option \<Rightarrow> 'b tx_op_response option \<Rightarrow> ref_store \<Rightarrow> bool" where
  "ref_run sha [] r prev out r' \<longleftrightarrow> out = prev \<and> r' = r"
| "ref_run sha (x # xs) r prev out r' \<longleftrightarrow> (\<exists>resp r1. ref_step sha x r resp r1 \<and> ref_run sha xs r1 (Some resp) out r')"

text \<open>The operations the reference covers, with names free of NUL.\<close>

fun plain_op :: "'b tx_op \<Rightarrow> bool" where
  "plain_op (Op_Key_Put sc key value) = (scope_ok sc \<and> name_ok key)"
| "plain_op (Op_Key_Get sc key) = (scope_ok sc \<and> name_ok key)"
| "plain_op (Op_Key_Delete sc key) = (scope_ok sc \<and> name_ok key)"
| "plain_op (Op_Key_Prefix sc pre) = (scope_ok sc \<and> name_ok pre)"
| "plain_op (Op_Key_List sc pre) = (scope_ok sc \<and> name_ok pre)"
| "plain_op (Op_Tb_Insert sc table eid value) = (scope_ok sc \<and> name_ok table \<and> eid_typed eid)"
| "plain_op (Op_Tb_Append sc table eid value) = (scope_ok sc \<and> name_ok table \<and> eid_typed eid)"
| "plain_op (Op_Tb_Insert_Batched sc table entries) = (scope_ok sc \<and> name_ok table \<and> (\<forall>e\<in>set entries. eid_typed (fst e)))"
| "plain_op (Op_Tb_Count sc table) = (scope_ok sc \<and> name_ok table)"
| "plain_op (Op_Tb_Get sc table eid) = (scope_ok sc \<and> name_ok table \<and> length eid < 2 ^ 64)"
| "plain_op (Op_Tb_List sc table cur limit ord) = (scope_ok sc \<and> name_ok table \<and> cursor_ok cur)"
| "plain_op (Op_Tb_Delete sc table eid) = (scope_ok sc \<and> name_ok table \<and> length eid < 2 ^ 64)"
| "plain_op (Op_Blob_Store sc blob) = scope_ok sc"
| "plain_op _ = False"

text \<open>No row is newer than the transaction, which the clock ensures when it begins.\<close>

definition up_to_date :: "'s engine \<Rightarrow> 's transaction \<Rightarrow> bool" where
  "up_to_date K tx \<longleftrightarrow> (\<forall>uk\<in>domain_keys. \<forall>t. tx_time tx < t \<longrightarrow> mv (ks_get K (tx_ks tx)) uk t = None)"

lemma kv_entries_ref: "scope_ok sc \<Longrightarrow> kv_entries m sc pre out \<Longrightarrow> ref_keys (store_view m) sc pre out"
  by (auto simp: kv_entries_def ref_keys_def store_view_def split: if_splits)

lemma table_entries_ref: "scope_ok sc \<Longrightarrow> name_ok name \<Longrightarrow> table_entries m sc name out \<Longrightarrow> ref_table (store_view m) sc name out"
  by (auto simp: table_entries_def ref_table_def store_view_def split: if_splits)

context api_store
begin

definition ready :: "'s transaction \<Rightarrow> bool" where
  "ready tx \<longleftrightarrow> inv tx \<and> up_to_date K tx"

abbreviation view :: "'s transaction \<Rightarrow> ref_store" where
  "view tx \<equiv> store_view (ks_get K (tx_ks tx))"

lemma put_ready:
  fixes v :: bytes
  assumes r: "ready tx" and sc: "scope_ok sc" and b: "body_ok b"
  defines "tx' \<equiv> tx\<lparr>tx_ks := put_at_raw K (tx_ks tx) (user_key sc b) v (tx_time tx)\<rparr>"
  shows "ready tx'" and "view tx' = ref_put sc b v (view tx)"
proof -
  have uk: "user_key sc b \<in> domain_keys" using sc b by simp
  have new: "\<And>t. tx_time tx < t \<Longrightarrow> mv (ks_get K (tx_ks tx)) (user_key sc b) t = None"
    using r uk by (simp add: ready_def up_to_date_def)
  have "inv tx'" using r store_ok_put_at [of "tx_ks tx" "user_key sc b"] uk by (simp add: tx'_def ready_def tx_inv_def tx_ok_def)
  moreover have "up_to_date K tx'" using r uk by (auto simp: up_to_date_def ready_def tx'_def mv_put_at)
  ultimately show "ready tx'" by (simp add: ready_def)
  show "view tx' = ref_put sc b v (view tx)"
  proof (intro ext)
    fix s c
    show "view tx' s c = ref_put sc b v (view tx) s c"
    proof (cases "scope_ok s \<and> body_ok c")
      case True
      then show ?thesis
        using read_after_put [OF uk _ new, where uk' = "user_key s c" and v = v] user_key_inject [of s sc c b] sc b
        by (auto simp: store_view_def ref_put_def tx'_def)
    qed (use sc b in \<open>auto simp: store_view_def ref_put_def\<close>)
  qed
qed

lemma erase_ready:
  assumes r: "ready tx" and sc: "scope_ok sc" and b: "body_ok b"
  defines "tx' \<equiv> tx\<lparr>tx_ks := erase_at_raw K (tx_ks tx) (user_key sc b) (tx_time tx)\<rparr>"
  shows "ready tx'" and "view tx' = ref_delete sc b (view tx)"
proof -
  have uk: "user_key sc b \<in> domain_keys" using sc b by simp
  have new: "\<And>t. tx_time tx < t \<Longrightarrow> mv (ks_get K (tx_ks tx)) (user_key sc b) t = None"
    using r uk by (simp add: ready_def up_to_date_def)
  have "inv tx'" using r store_ok_erase_at [of "tx_ks tx" "user_key sc b"] uk by (simp add: tx'_def ready_def tx_inv_def tx_ok_def)
  moreover have "up_to_date K tx'" using r uk by (auto simp: up_to_date_def ready_def tx'_def mv_erase_at)
  ultimately show "ready tx'" by (simp add: ready_def)
  show "view tx' = ref_delete sc b (view tx)"
  proof (intro ext)
    fix s c
    show "view tx' s c = ref_delete sc b (view tx) s c"
    proof (cases "scope_ok s \<and> body_ok c")
      case True
      then show ?thesis
        using read_after_erase [OF uk _ new, where uk' = "user_key s c"] user_key_inject [of s sc c b] sc b
        by (auto simp: store_view_def ref_delete_def tx'_def)
    qed (use sc b in \<open>auto simp: store_view_def ref_delete_def\<close>)
  qed
qed

lemma write_scope_ready:
  assumes "ready tx" "scope_ok sc"
  shows "write_scope sc tx = (Inr (tx_time tx), tx\<lparr>active_scopes := List.insert sc (active_scopes tx)\<rparr>)"
    and "ready (tx\<lparr>active_scopes := List.insert sc (active_scopes tx)\<rparr>)"
  using assms by (auto simp: ready_def tx_inv_def tx_ok_def up_to_date_def write_scope_apply scope_ok_iff)

text \<open>A write is an update of the reference, a read looks it up.\<close>

lemma put_step:
  assumes "ready tx" "scope_ok sc" "body_ok b" "enc = Inr (user_key sc b)"
  obtains tx' where "tbind (write_scope sc) (\<lambda>ts. put_at K enc v ts) tx = (Inr (), tx')" "ready tx'"
    "view tx' = ref_put sc b v (view tx)"
  using write_scope_ready [OF assms(1,2)] put_ready [OF write_scope_ready(2) [OF assms(1,2)] assms(2,3), of v] assms(4) that
  by (simp add: put_at_def)

lemma erase_step:
  assumes "ready tx" "scope_ok sc" "body_ok b" "enc = Inr (user_key sc b)"
  obtains tx' where "tbind (write_scope sc) (\<lambda>ts. erase_at K enc ts) tx = (Inr (), tx')" "ready tx'"
    "view tx' = ref_delete sc b (view tx)"
  using write_scope_ready [OF assms(1,2)] erase_ready [OF write_scope_ready(2) [OF assms(1,2)] assms(2,3)] assms(4) that
  by (simp add: erase_at_def)

lemma read_step:
  assumes "ready tx" "scope_ok sc" "body_ok b" "enc = Inr (user_key sc b)"
  shows "tbind (tx_get K enc) (\<lambda>e. tret (value_of e)) tx = (Inr (view tx sc b), tx)"
  using tx_get_run [of tx "user_key sc b"] assms
  by (simp add: ready_def store_view_def value_of_def option.map_comp comp_def option.map_ident)

lemma puts_step:
  assumes "ready tx" "scope_ok sc" "name_ok name" "\<forall>e\<in>set es. length (fst e) < 2 ^ 64"
  shows "\<exists>tx'. tfold (\<lambda>(ident, value). put_at K (entity_key sc name ident) value (tx_time tx)) es tx = (Inr (), tx')
    \<and> ready tx' \<and> view tx' = ref_puts sc name es (view tx)"
  using assms
proof (induction es arbitrary: tx)
  case (Cons e es)
  obtain i v where e: "e = (i, v)" by force
  have b: "body_ok (Entity name i)" using Cons.prems(3,4) e by simp
  have key: "entity_key sc name i = Inr (user_key sc (Entity name i))"
    using user_key_forms(2) Cons.prems(2,3) by (simp add: name_ok_def)
  let ?tx = "tx\<lparr>tx_ks := put_at_raw K (tx_ks tx) (user_key sc (Entity name i)) v (tx_time tx)\<rparr>"
  note put = put_ready [OF Cons.prems(1,2) b, of v]
  obtain tx' where "tfold (\<lambda>(ident, value). put_at K (entity_key sc name ident) value (tx_time ?tx)) es ?tx = (Inr (), tx')"
    "ready tx'" "view tx' = ref_puts sc name es (view ?tx)"
    using Cons.IH [OF put(1) Cons.prems(2,3)] Cons.prems(4) by auto
  moreover have "put_at K (entity_key sc name i) v (tx_time tx) tx = (Inr (), ?tx)" by (simp add: put_at_def key)
  ultimately show ?case using put(2) by (simp add: e)
qed simp

end

lemma store_run: "m (app_tx st) = (Inr a, tx') \<Longrightarrow> store m st = (Inr a, st\<lparr>app_tx := tx'\<rparr>)"
  by (simp add: store_def)

lemma abind_run: "m st = (Inr a, st') \<Longrightarrow> abind m f st = f a st'"
  by (simp add: abind_def)

lemmas app_run = abind_run aret_def amap_def then_ret_def record_event_def

context app_env
begin

lemma eid_run:
  obtains e c where "(case eid of None \<Rightarrow> eid_from_ts E ts | Some e \<Rightarrow> aret e) st = (Inr e, st\<lparr>app_context := c\<rparr>)"
    "case eid of None \<Rightarrow> length e = 16 | Some x \<Rightarrow> e = x"
proof (cases eid)
  case None
  then show thesis using that new_v7_length [of "app_context st" ts]
    by (cases "env_new_v7 E (app_context st) ts") (auto simp: eid_from_ts_def)
next
  case (Some x)
  then show thesis using that [of x "app_context st"] by (simp add: aret_def)
qed

lemma insert_row_run:
  assumes "ready (app_tx st)" "scope_ok sc" "name_ok table" "eid_typed eid"
  obtains e st' where "insert_row E sc table eid value st = (Inr e, st')" "case eid of None \<Rightarrow> length e = 16 | Some x \<Rightarrow> e = x"
    "ready (app_tx st')" "view (app_tx st') = ref_put sc (Entity table e) value (view (app_tx st))"
proof -
  obtain e c where e: "(case eid of None \<Rightarrow> eid_from_ts E (tx_time (app_tx st)) | Some e \<Rightarrow> aret e) st = (Inr e, st\<lparr>app_context := c\<rparr>)"
    "case eid of None \<Rightarrow> length e = 16 | Some x \<Rightarrow> e = x"
    by (rule eid_run)
  have e': "(case eid of None \<Rightarrow> \<lambda>st. eid_from_ts E (tx_time (app_tx st)) st | Some e \<Rightarrow> aret e) st = (Inr e, st\<lparr>app_context := c\<rparr>)"
    using e(1) by (cases eid) simp_all
  have len: "length e < 2 ^ 64" using e(2) assms(4) by (cases eid) auto
  obtain tx' where tx': "tb_insert (env_engine E) sc table e value (app_tx st) = (Inr (), tx')" "ready tx'"
    "view tx' = ref_put sc (Entity table e) value (view (app_tx st))"
    unfolding tb_insert_def
    by (rule put_step [OF assms(1,2), of "Entity table e"]) (use assms(2,3) len user_key_forms(2) in \<open>auto simp: name_ok_def\<close>)
  show thesis
    using that [of e "st\<lparr>app_context := c, app_tx := tx', app_events := insert (sc, table) (app_events st)\<rparr>"] tx' e(2) e'
    by (simp add: insert_row_def abind_run store_run record_event_def aret_def)
qed

lemma resolve_ids_run:
  assumes "\<forall>e\<in>set entries. eid_typed (fst e)"
  shows "\<exists>es c. resolve_ids E ts entries st = (Inr es, st\<lparr>app_context := c\<rparr>)
    \<and> list_all2 (\<lambda>e x. case fst x of None \<Rightarrow> length e = 16 | Some y \<Rightarrow> e = y) es entries"
  using assms
proof (induction entries arbitrary: st)
  case Nil
  then show ?case by (intro exI [of _ "[]"] exI [of _ "app_context st"]) (simp add: aret_def)
next
  case (Cons x entries)
  obtain eid v where x: "x = (eid, v)" by force
  obtain e c where e: "(case eid of None \<Rightarrow> eid_from_ts E ts | Some e \<Rightarrow> aret e) st = (Inr e, st\<lparr>app_context := c\<rparr>)"
    "case eid of None \<Rightarrow> length e = 16 | Some x \<Rightarrow> e = x" by (rule eid_run)
  obtain es c' where es: "resolve_ids E ts entries (st\<lparr>app_context := c\<rparr>) = (Inr es, st\<lparr>app_context := c'\<rparr>)"
    "list_all2 (\<lambda>e x. case fst x of None \<Rightarrow> length e = 16 | Some y \<Rightarrow> e = y) es entries"
    using Cons.IH [of "st\<lparr>app_context := c\<rparr>"] Cons.prems by auto
  have "resolve_ids E ts (x # entries) st = (Inr (e # es), st\<lparr>app_context := c'\<rparr>)"
    using e(1) es(1) by (simp add: x abind_run aret_def)
  then show ?case using e(2) es(2) x by (intro exI [of _ "e # es"] exI [of _ c']) simp
qed

lemma batched_run:
  assumes r: "ready (app_tx st)" and sc: "scope_ok sc" "name_ok table" and es: "\<forall>e\<in>set entries. eid_typed (fst e)"
  obtains eids st' where "apply_tb_insert_batched E sc table entries st = (Inr eids, st')"
    "list_all2 (\<lambda>e x. case fst x of None \<Rightarrow> length e = 16 | Some y \<Rightarrow> e = y) eids entries"
    "ready (app_tx st')" "view (app_tx st') = ref_puts sc table (zip eids (map snd entries)) (view (app_tx st))"
proof -
  obtain eids c where ids: "resolve_ids E (tx_time (app_tx st)) entries st = (Inr eids, st\<lparr>app_context := c\<rparr>)"
    "list_all2 (\<lambda>e x. case fst x of None \<Rightarrow> length e = 16 | Some y \<Rightarrow> e = y) eids entries"
    using resolve_ids_run [OF es] by blast
  have len: "\<forall>e\<in>set (zip eids (map snd entries)). length (fst e) < 2 ^ 64"
    using resolve_ids_length [OF ids(1) es] by (auto dest: set_zip_leftD)
  note w = write_scope_ready [OF r sc(1)]
  obtain tx' where tx': "tb_insert_batched (env_engine E) sc table (zip eids (map snd entries)) (app_tx st) = (Inr (), tx')" "ready tx'"
    "view tx' = ref_puts sc table (zip eids (map snd entries)) (view (app_tx st))"
    using puts_step [OF w(2) sc len] by (auto simp: tb_insert_batched_def w(1))
  have ids': "(\<lambda>st. resolve_ids E (tx_time (app_tx st)) entries st) st = (Inr eids, st\<lparr>app_context := c\<rparr>)" using ids(1) by simp
  show thesis
    by (rule that [of eids "st\<lparr>app_context := c, app_tx := tx',
        app_events := (if eids \<noteq> [] then insert (sc, table) (app_events st) else app_events st)\<rparr>"])
      (use tx' ids(2) ids' in \<open>simp_all add: apply_tb_insert_batched_def abind_run store_run record_event_def aret_def\<close>)
qed

lemma plain_step:
  assumes r: "ready (app_tx st)" and x: "plain_op x"
  shows "\<exists>resp st'. apply_op E x st = (Inr resp, st') \<and> ready (app_tx st')
    \<and> ref_step (env_sha256 E) x (view (app_tx st)) resp (view (app_tx st'))"
proof -
  have inv: "inv (app_tx st)" using r by (simp add: ready_def)
  have nul: "name_ok s \<Longrightarrow> 0 \<notin> set s" for s by (simp add: name_ok_def)
  show ?thesis
  proof (cases x)
    case (Op_Key_Put sc key v)
    obtain tx' where "key_put (env_engine E) sc key v (app_tx st) = (Inr (), tx')" "ready tx'"
      "view tx' = ref_put sc (Kv key) v (view (app_tx st))"
      unfolding key_put_def by (rule put_step [OF r, of sc "Kv key"]) (use x Op_Key_Put user_key_forms(1) nul in auto)
    then show ?thesis using Op_Key_Put by (simp add: abind_run store_run app_run)
  next
    case (Op_Key_Get sc key)
    have "key_get (env_engine E) sc key (app_tx st) = (Inr (view (app_tx st) sc (Kv key)), app_tx st)"
      unfolding key_get_def by (rule read_step [OF r]) (use x Op_Key_Get user_key_forms(1) nul in auto)
    then show ?thesis using Op_Key_Get r by (simp add: amap_def abind_run store_run aret_def)
  next
    case (Op_Key_Delete sc key)
    obtain tx' where "key_delete (env_engine E) sc key (app_tx st) = (Inr (), tx')" "ready tx'"
      "view tx' = ref_delete sc (Kv key) (view (app_tx st))"
      unfolding key_delete_def by (rule erase_step [OF r, of sc "Kv key"]) (use x Op_Key_Delete user_key_forms(1) nul in auto)
    then show ?thesis using Op_Key_Delete by (simp add: then_ret_def abind_run store_run aret_def)
  next
    case (Op_Key_Prefix sc pre)
    obtain out where "key_prefix (env_engine E) sc pre (app_tx st) = (Inr (map fst out), app_tx st)"
      "kv_entries (ks_get (env_engine E) (tx_ks (app_tx st))) sc pre out"
      by (rule key_prefix_run [OF inv]) (use x Op_Key_Prefix in auto)
    then show ?thesis using Op_Key_Prefix r x by (simp add: amap_def abind_run store_run aret_def) (blast intro: kv_entries_ref)
  next
    case (Op_Key_List sc pre)
    obtain out where "key_list (env_engine E) sc pre (app_tx st) = (Inr out, app_tx st)"
      "kv_entries (ks_get (env_engine E) (tx_ks (app_tx st))) sc pre out"
      by (rule key_list_run [OF inv]) (use x Op_Key_List in auto)
    then show ?thesis using Op_Key_List r x by (simp add: amap_def abind_run store_run aret_def) (blast intro: kv_entries_ref)
  next
    case (Op_Tb_Insert sc table eid v)
    obtain e st' where "insert_row E sc table eid v st = (Inr e, st')" "case eid of None \<Rightarrow> length e = 16 | Some x \<Rightarrow> e = x"
      "ready (app_tx st')" "view (app_tx st') = ref_put sc (Entity table e) v (view (app_tx st))"
      by (rule insert_row_run [OF r]) (use x Op_Tb_Insert in auto)
    then show ?thesis using Op_Tb_Insert by (auto simp: amap_def abind_run aret_def)
  next
    case (Op_Tb_Append sc table eid v)
    obtain e st' where "insert_row E sc table eid v st = (Inr e, st')" "case eid of None \<Rightarrow> length e = 16 | Some x \<Rightarrow> e = x"
      "ready (app_tx st')" "view (app_tx st') = ref_put sc (Entity table e) v (view (app_tx st))"
      by (rule insert_row_run [OF r]) (use x Op_Tb_Append in auto)
    then show ?thesis using Op_Tb_Append by (auto simp: then_ret_def abind_run aret_def)
  next
    case (Op_Tb_Insert_Batched sc table entries)
    obtain eids st' where "apply_tb_insert_batched E sc table entries st = (Inr eids, st')"
      "list_all2 (\<lambda>e x. case fst x of None \<Rightarrow> length e = 16 | Some y \<Rightarrow> e = y) eids entries"
      "ready (app_tx st')" "view (app_tx st') = ref_puts sc table (zip eids (map snd entries)) (view (app_tx st))"
      by (rule batched_run [OF r]) (use x Op_Tb_Insert_Batched in auto)
    then show ?thesis using Op_Tb_Insert_Batched by (auto simp: amap_def abind_run aret_def)
  next
    case (Op_Tb_Count sc table)
    obtain es where "table_entries (ks_get (env_engine E) (tx_ks (app_tx st))) sc table es"
      "tb_count (env_engine E) sc table (app_tx st) = (Inr (length es), app_tx st)"
      by (rule tb_count_run [OF inv]) (use x Op_Tb_Count in auto)
    then show ?thesis using Op_Tb_Count r x by (simp add: amap_def abind_run store_run aret_def) (blast intro: table_entries_ref)
  next
    case (Op_Tb_Get sc table eid)
    have "tb_get (env_engine E) sc table eid (app_tx st) = (Inr (view (app_tx st) sc (Entity table eid)), app_tx st)"
      unfolding tb_get_def by (rule read_step [OF r]) (use x Op_Tb_Get user_key_forms(2) nul in auto)
    then show ?thesis using Op_Tb_Get r by (simp add: amap_def abind_run store_run aret_def)
  next
    case (Op_Tb_List sc table cur limit ord)
    obtain es where "table_entries (ks_get (env_engine E) (tx_ks (app_tx st))) sc table es"
      "tb_list (env_engine E) sc table cur limit ord (app_tx st) = (Inr (table_page ord cur limit es), app_tx st)"
      by (rule tb_list_run [OF inv, of sc table]) (use x Op_Tb_List in auto)
    then show ?thesis using Op_Tb_List r x by (simp add: amap_def abind_run store_run aret_def) (blast intro: table_entries_ref)
  next
    case (Op_Tb_Delete sc table eid)
    obtain tx' where "tb_delete (env_engine E) sc table eid (app_tx st) = (Inr (), tx')" "ready tx'"
      "view tx' = ref_delete sc (Entity table eid) (view (app_tx st))"
      unfolding tb_delete_def by (rule erase_step [OF r, of sc "Entity table eid"]) (use x Op_Tb_Delete user_key_forms(2) nul in auto)
    then show ?thesis using Op_Tb_Delete by (simp add: then_ret_def abind_run store_run aret_def)
  next
    case (Op_Blob_Store sc blob)
    let ?h = "env_sha256 E blob"
    obtain tx' where "tbind (write_scope sc) (\<lambda>ts. put_at (env_engine E) (blob_id_key sc ?h) blob ts) (app_tx st) = (Inr (), tx')" "ready tx'"
      "view tx' = ref_put sc (Blob_Id ?h) blob (view (app_tx st))"
      by (rule put_step [OF r, of sc "Blob_Id ?h"]) (use x Op_Blob_Store user_key_forms(4) sha256_length in auto)
    moreover from this(1) have "store_blob (env_engine E) (env_sha256 E) sc blob (app_tx st) = (Inr (sc, ?h), tx')"
      by (auto simp: store_blob_def Let_def tbind_def tret_def split: prod.splits sum.splits)
    ultimately show ?thesis using Op_Blob_Store by (simp add: amap_def abind_run store_run aret_def)
  qed (use x in simp_all)
qed

lemma apply_loop_refines:
  assumes "ready (app_tx st)" "\<forall>x\<in>set ops. plain_op x"
  shows "\<exists>out st'. apply_loop E i prev ops st = (Inr out, st') \<and> ready (app_tx st')
    \<and> ref_run (env_sha256 E) ops (view (app_tx st)) prev out (view (app_tx st'))"
  using assms
proof (induction ops arbitrary: i prev st)
  case (Cons x ops)
  obtain resp st1 where s1: "apply_op E x st = (Inr resp, st1)" "ready (app_tx st1)"
    "ref_step (env_sha256 E) x (view (app_tx st)) resp (view (app_tx st1))"
    using plain_step [OF Cons.prems(1), of x] Cons.prems(2) by auto
  obtain out st' where "apply_loop E (Suc i) (Some resp) ops st1 = (Inr out, st')" "ready (app_tx st')"
    "ref_run (env_sha256 E) ops (view (app_tx st1)) (Some resp) out (view (app_tx st'))"
    using Cons.IH [OF s1(2), of "Suc i" "Some resp"] Cons.prems(2) by auto
  then show ?case using s1 by auto
qed simp

end

end
