(* ===== verification/Concrete_Env.thy ===== *)
theory Concrete_Env
  imports Apply_Spec
begin

text \<open>
  A concrete environment for the packages the store is built on: the association-list engine, a
  metadata codec made from the \<open>skey\<close> encoding, and stand-ins for the digest and the id
  generator. It satisfies every law the development assumes of those packages, so the results hold
  for at least one environment, and it executes.
\<close>

definition meta_ty :: sty where
  "meta_ty = TTuple [TOption (TTuple [TU64, TU64, TBytes]), TOption TU64, TBool, TOption (TTuple [TU64, TU32])]"

definition opt_val :: "('a \<Rightarrow> sval) \<Rightarrow> 'a option \<Rightarrow> sval" where
  "opt_val f x = (case x of None \<Rightarrow> VNone | Some a \<Rightarrow> VSome (f a))"

fun val_opt :: "(sval \<Rightarrow> 'a) \<Rightarrow> sval \<Rightarrow> 'a option" where
  "val_opt g (VSome v) = Some (g v)"
| "val_opt g _ = None"

definition meta_val :: "sync_meta \<Rightarrow> sval" where
  "meta_val sm = VTuple
    [opt_val (\<lambda>(epoch, ts, node). VTuple [VU64 epoch, VU64 ts, VBytes node]) (sm_parent sm),
     opt_val VU64 (sm_parent_epoch sm),
     VBool (sm_marker sm = Sm_Deletion),
     opt_val (\<lambda>d. VTuple [VU64 (word_of_nat (d div 10 ^ 9)), VU32 (word_of_nat (d mod 10 ^ 9))]) (sm_retention_period sm)]"

fun tuple_of :: "sval \<Rightarrow> sval list" where
  "tuple_of (VTuple vs) = vs"
| "tuple_of _ = []"

fun u64_of :: "sval \<Rightarrow> u64" where
  "u64_of (VU64 w) = w"
| "u64_of _ = 0"

fun u32_of :: "sval \<Rightarrow> u32" where
  "u32_of (VU32 w) = w"
| "u32_of _ = 0"

fun bytes_of :: "sval \<Rightarrow> bytes" where
  "bytes_of (VBytes b) = b"
| "bytes_of _ = []"

definition meta_of_val :: "sval \<Rightarrow> sync_meta" where
  "meta_of_val v =
    (let fs = tuple_of v
     in \<lparr>sm_parent = val_opt (\<lambda>w. (u64_of (tuple_of w ! 0), u64_of (tuple_of w ! 1), bytes_of (tuple_of w ! 2))) (fs ! 0),
         sm_parent_epoch = val_opt u64_of (fs ! 1),
         sm_marker = (if fs ! 2 = VBool True then Sm_Deletion else Sm_Mutation),
         sm_retention_period = val_opt (\<lambda>w. unat (u64_of (tuple_of w ! 0)) * 10 ^ 9 + unat (u32_of (tuple_of w ! 1))) (fs ! 3)\<rparr>)"

definition meta_codec :: "sync_meta postcard" where
  "meta_codec = \<lparr>
     to_allocvec = (\<lambda>sm. case serialize (meta_val sm) of Inl _ \<Rightarrow> None | Inr b \<Rightarrow> Some b),
     from_bytes = (\<lambda>b. case decode_exact (deserialize meta_ty) b of Inl _ \<Rightarrow> None | Inr v \<Rightarrow> Some (meta_of_val v))\<rparr>"

lemma meta_val_inverse:
  assumes "meta_ok sm"
  shows "meta_of_val (meta_val sm) = sm"
proof -
  have "unat (word_of_nat (d div 10 ^ 9) :: u64) * 10 ^ 9 + unat (word_of_nat (d mod 10 ^ 9) :: u32) = d"
    if "sm_retention_period sm = Some d" for d
  proof -
    have "d div 10 ^ 9 < 2 ^ 64" using assms that by (simp add: meta_ok_def)
    moreover have "d mod 10 ^ 9 < (2 :: nat) ^ 32" by (rule less_trans [OF mod_less_divisor]) simp_all
    ultimately show ?thesis by (simp add: unat_of_nat take_bit_nat_eq_self)
  qed
  then show ?thesis
    by (cases "sm_marker sm"; cases "sm_parent sm"; cases "sm_parent_epoch sm"; cases "sm_retention_period sm")
      (auto simp: meta_val_def opt_val_def meta_of_val_def)
qed

lemma meta_val_typed:
  assumes "meta_ok sm"
  shows "has_type meta_ty (meta_val sm)" and "seq_all elem_gt (meta_val sm)" and "\<exists>b. serialize (meta_val sm) = Inr b"
  using assms by (auto simp: meta_val_def meta_ty_def opt_val_def meta_ok_def ser_pre_def split: option.splits)

interpretation meta: postcard_codec meta_codec meta_ok
proof
  fix sm assume ok: "meta_ok sm"
  obtain b where b: "serialize (meta_val sm) = Inr b" using meta_val_typed(3) [OF ok] by blast
  have "decode_exact (deserialize meta_ty) b = Inr (meta_val sm)"
    using serde.decode_exact_enc [of meta_ty "meta_val sm" b] meta_val_typed(1,2) [OF ok] b by simp
  then show "\<exists>b. to_allocvec meta_codec sm = Some b \<and> from_bytes meta_codec b = Some sm"
    using b meta_val_inverse [OF ok] by (simp add: meta_codec_def)
qed

interpretation al_api: api_store al_engine meta_codec
  by unfold_locales

definition al_env :: "(al_rows, bytes, nat) env" where
  "al_env = \<lparr>env_engine = al_engine, env_meta = meta_codec, env_body = \<lparr>to_allocvec = Some, from_bytes = Some\<rparr>,
     env_sha256 = (\<lambda>b. take 32 (b @ replicate 32 0)),
     env_new_v7 = (\<lambda>c ts. (write_word ts @ write_word (word_of_nat c :: u64), Suc c))\<rparr>"

lemma al_env_simps [simp]:
  "env_engine al_env = al_engine" "env_meta al_env = meta_codec" "env_body al_env = \<lparr>to_allocvec = Some, from_bytes = Some\<rparr>"
  "env_sha256 al_env = (\<lambda>b. take 32 (b @ replicate 32 0))"
  by (simp_all add: al_env_def)

interpretation al_app: app_env al_env
  by unfold_locales (simp_all add: al_env_def al.get_insert al.get_remove al.range_entries al.prefix_entries meta.from_to)

text \<open>A transaction on an empty store.\<close>

definition tx0 :: "al_rows transaction" where
  "tx0 = tx_start [] (5, replicate 16 0) 0 \<lparr>opt_retention_period = None, opt_idle_timeout = None\<rparr>"

lemma al_get_Nil [simp]: "ks_get al_engine [] = Map.empty"
  by (simp add: al_engine_def)

lemma mv_empty [simp]: "mv Map.empty uk t = None"
  by (simp add: mv_def)

lemma store_ok_empty: "store_ok domain_keys P Map.empty"
  by (auto simp: store_ok_def store_wf_def metas_wf_def point_in_def)

lemma tx0_inv: "tx_inv al_engine meta_codec tx0"
  by (simp add: tx_inv_def tx0_def tx_start_def tx_ok_def store_ok_empty)

lemma tx0_up_to_date: "up_to_date al_engine tx0"
  by (simp add: up_to_date_def tx0_def tx_start_def)

definition scope0 :: scope where
  "scope0 = \<lparr>namespace = lit ''p'', database = lit ''p'', schema = lit ''d''\<rparr>"

lemma scope0_ok: "scope_ok scope0"
  by (simp add: scope0_def scope_ok_def name_ok_def utf8_valid.simps)

definition app0 :: "(al_rows, nat) app" where
  "app0 = \<lparr>app_tx = tx0, app_events = {}, app_context = 0\<rparr>"

lemma app0_tx [simp]: "app_tx app0 = tx0"
  by (simp add: app0_def)

end
