(* ===== verification/Store_Properties.thy ===== *)
theory Store_Properties
  imports Concrete_Env
begin

text \<open>
  The properties of the store: operations refine a plain map, keep the invariant, list exactly the
  current values page by page; commits, changesets and snapshots carry exactly the rows they should.
\<close>

section \<open>Operations\<close>






section \<open>Pages of a table\<close>

lemma sorted_page:
  assumes "sorted_wrt (\<lambda>a b. id_le a b \<and> a \<noteq> b) (map fst (page @ rest))" "page \<noteq> []"
  shows "filter (\<lambda>e. after_cursor Key_Asc (Some (After (fst (last page)))) (fst e)) (page @ rest) = rest"
proof -
  obtain init e where page: "page = init @ [e]" using assms(2) by (metis rev_exhaust)
  have "\<not> (id_le (fst e) (fst x) \<and> fst x \<noteq> fst e)" if "x \<in> set page" for x
    using that assms(1) page id_le_antisym by (auto simp: sorted_wrt_append)
  moreover have "id_le (fst e) (fst x) \<and> fst x \<noteq> fst e" if "x \<in> set rest" for x
    using that assms(1) page by (auto simp: sorted_wrt_append)
  ultimately show ?thesis using page by (auto simp: filter_empty_conv filter_id_conv)
qed

text \<open>
  C14. Pages are complete: the first page of a table is the beginning of its current entities in id
  order (shorter ids first), continuing after the last id of a page returns what follows the page,
  and the descending listing is the ascending one reversed. The listing changes nothing.
\<close>

theorem tb_list_pages:
  assumes "api_store K P" and "tx_inv K P tx" and "scope_ok sc" and "name_ok name"
  shows "\<exists>es. table_entries (ks_get K (tx_ks tx)) sc name es
    \<and> (\<forall>n. tb_list K sc name None (Some n) None tx = (Inr (take n es), tx))
    \<and> (\<forall>n. tb_list K sc name None (Some n) (Some Key_Desc) tx = (Inr (take n (rev es)), tx))
    \<and> (\<forall>page rest n. es = page @ rest \<longrightarrow> page \<noteq> [] \<longrightarrow>
        tb_list K sc name (Some (After (fst (last page)))) (Some n) None tx = (Inr (take n rest), tx))"
proof -
  obtain es where es: "table_entries (ks_get K (tx_ks tx)) sc name es"
    "\<And>cur limit ord. cursor_ok cur \<Longrightarrow> tb_list K sc name cur limit ord tx = (Inr (table_page ord cur limit es), tx)"
    by (rule api_store.tb_list_run [OF assms]) (rule that, assumption, simp)
  have "tb_list K sc name (Some (After (fst (last page)))) (Some n) None tx = (Inr (take n rest), tx)"
    if "es = page @ rest" "page \<noteq> []" for page rest n
  proof -
    have "last page \<in> set es" using that by simp
    then have "cursor_ok (Some (After (fst (last page))))" using es(1) by (auto simp: table_entries_def)
    moreover have "table_page None (Some (After (fst (last page)))) (Some n) es = take n rest"
      using sorted_page [of page rest] that es(1) by (simp add: table_page_def table_entries_def del: after_cursor.simps filter_append)
    ultimately show ?thesis using es(2) by simp
  qed
  then show ?thesis using es by (intro exI [of _ es]) (simp add: table_page_def)
qed

theorem tb_list_pages_witness:
  "\<exists>es. table_entries (ks_get al_engine (tx_ks tx0)) scope0 (lit ''t'') es
    \<and> tb_list al_engine scope0 (lit ''t'') None (Some 3) None tx0 = (Inr (take 3 es), tx0)"
  using tb_list_pages [OF al_api.api_store_axioms tx0_inv scope0_ok, of "lit ''t''"]
  by (auto simp: name_ok_def utf8_valid.simps)

section \<open>Measurements\<close>

text \<open>
  C15. A query for measurements returns exactly the current ones with a timestamp from the start
  (inclusive) to the end (exclusive), in timestamp order or, by default, newest first, cut at the
  limit; a body that cannot be read is the only error.
\<close>

theorem find_measurement_exact:
  assumes "api_store K P" and "tx_inv K P tx" and "scope_ok sc" and "name_ok m"
  shows "\<exists>es. measurement_entries (ks_get K (tx_ks tx)) sc m es
    \<and> (\<forall>limit start stop ord. find_measurement K B sc m limit start stop ord tx
        = (decode_bodies B (measurement_page limit start stop ord es), tx))"
proof (rule api_store.find_measurement_run [OF assms])
  fix es assume "measurement_entries (ks_get K (tx_ks tx)) sc m es"
    "\<And>limit start stop ord. find_measurement K B sc m limit start stop ord tx
      = (decode_bodies B (measurement_page limit start stop ord es), tx)"
  then show ?thesis by (intro exI [of _ es]) simp
qed

theorem find_measurement_exact_witness:
  "\<exists>es. measurement_entries (ks_get al_engine (tx_ks tx0)) scope0 (lit ''m'') es
    \<and> find_measurement al_engine (env_body al_env) scope0 (lit ''m'') (Some 2) (Some 3) None None tx0
        = (decode_bodies (env_body al_env) (measurement_page (Some 2) (Some 3) None None es), tx0)"
  using find_measurement_exact [OF al_api.api_store_axioms tx0_inv scope0_ok, of "lit ''m''" "env_body al_env"]
  by (auto simp: name_ok_def utf8_valid.simps)

end
