(* ===== verification/Concrete_Store.thy ===== *)
theory Concrete_Store
  imports Concrete_Env
begin

text \<open>
  A small store on the concrete engine, for instances of the properties: one key written at version
  5 of one scope, without (\<open>rows0\<close>) and with (\<open>rows1\<close>) the sync point of that version.
\<close>

definition sp0 :: sync_point where
  "sp0 = point_at scope0 5 5 (replicate 16 0)"

lemma sp0_ok: "sync_point_ok sp0" and sp0_fields [simp]: "sp_scope sp0 = scope0" "sp_ts sp0 = 5"
  using scope0_ok by (simp_all add: sp0_def point_at_def sync_point_ok_def)

definition key0 :: bytes where
  "key0 = user_key scope0 (Kv (lit ''k''))"

lemma key0_mem [simp]: "key0 \<in> domain_keys" "in_scope scope0 key0"
  using scope0_ok by (simp_all add: key0_def name_ok_def utf8_valid.simps)

definition rows0 :: al_rows where
  "rows0 = put_at_raw al_engine [] key0 [7] 5"

lemma rows0_ok: "store_ok domain_keys meta_codec (ks_get al_engine rows0)"
  unfolding rows0_def by (rule al_api.store_ok_put_at [OF _ key0_mem(1)]) (simp add: store_ok_empty)

lemma rows0_mv: "uk \<in> domain_keys \<Longrightarrow> mv (ks_get al_engine rows0) uk t = (if uk = key0 \<and> t = 5 then Some (Some [7]) else None)"
  by (simp add: rows0_def al.mv_put_at)

definition sm0 :: sync_meta where
  "sm0 = \<lparr>sm_parent = None, sm_parent_epoch = None, sm_marker = Sm_Mutation, sm_retention_period = None\<rparr>"

lemma tx0_rows [simp]: "ks_get al_engine (tx_ks tx0) = Map.empty"
  by (simp add: tx0_def tx_start_def)

lemma empty_points [simp]: "\<not> point_in Map.empty sp"
  by (simp add: point_in_def)

definition tx_rows0 :: "al_rows transaction" where
  "tx_rows0 = tx0\<lparr>tx_ks := rows0\<rparr>"

lemma tx_rows0_inv: "tx_inv al_engine meta_codec tx_rows0" and tx_rows0_ks [simp]: "tx_ks tx_rows0 = rows0"
  using tx0_inv rows0_ok by (simp_all add: tx_rows0_def tx_inv_def tx_ok_def)

definition rows1 :: al_rows where
  "rows1 = ks_insert al_engine rows0 (sync_point_bytes sp0) (the (to_allocvec meta_codec sm0))"

lemma sm0_marker: "sm_marker sm0 = Sm_Mutation"
  by (simp add: sm0_def)

lemma sm0_codec: "from_bytes meta_codec (the (to_allocvec meta_codec sm0)) = Some sm0"
  using meta.from_to [of sm0] by (auto simp: sm0_def meta_ok_def)

lemma rows1_inv: "tx_inv al_engine meta_codec (tx0\<lparr>tx_ks := rows1\<rparr>)"
  using al_api.store_ok_point [OF rows0_ok sp0_ok sm0_codec] tx0_inv
  by (simp add: tx_inv_def tx_ok_def rows1_def al.get_insert)

lemma rows1_covered: "rows_covered meta_codec (ks_get al_engine rows1) scope0"
proof -
  have "point_in (ks_get al_engine rows1) sp0" "point_meta meta_codec (ks_get al_engine rows1) sp0 = Some sm0"
    using sp0_ok sm0_codec by (simp_all add: point_in_def point_meta_def rows1_def)
  moreover have "mv (ks_get al_engine rows1) uk t = mv (ks_get al_engine rows0) uk t" if "uk \<in> domain_keys" for uk t
    using al_api.mv_point [OF that] by (simp add: rows1_def al.get_insert)
  ultimately show ?thesis
    unfolding rows_covered_def using rows0_mv sm0_marker
    by (intro ballI impI allI exI [of _ sp0] exI [of _ sm0]) (auto split: if_splits)
qed

end
