(* ===== verification/Version_Properties.thy ===== *)
theory Version_Properties
  imports Concrete_Store
begin

text \<open>
  Properties of versions and sync points: reads at a version, the reverse iterators, the changeset
  of a version and its replication, commits, the heads of a range, and snapshots.
\<close>

section \<open>Reads and iterators\<close>

text \<open>
  C12. A read of a key at a time returns the newest version not after that time, or nothing when
  that version is a tombstone: the forward scan over encoded rows computes the abstract read of the
  versioned map.
\<close>

theorem get_from_raw_newest:
  assumes "keyspace K" and "store_wf domain_keys (ks_get K s)" and "key \<in> domain_keys"
  shows "get_from_raw K s key ts = Inr (map_option (Pair key) (mv_read (ks_get K s) key ts))"
  using keyspace.get_from_raw_refines [OF assms(1) dom.store_wf_data_wf [OF assms(2)], of key ts] assms(3) by simp

theorem get_from_raw_newest_witness:
  "get_from_raw al_engine (put_at_raw al_engine [] (user_key scope0 (Kv (lit ''k''))) [7] 3) (user_key scope0 (Kv (lit ''k''))) 4
    = Inr (Some (user_key scope0 (Kv (lit ''k'')), [7]))"
proof -
  let ?uk = "user_key scope0 (Kv (lit ''k''))"
  have uk: "?uk \<in> domain_keys" using scope0_ok by (simp add: name_ok_def utf8_valid.simps)
  let ?s = "put_at_raw al_engine [] ?uk [7] 3"
  have "store_ok domain_keys meta_codec (ks_get al_engine ?s)"
    by (rule al_api.store_ok_put_at [OF _ uk]) (simp add: store_ok_empty)
  moreover have "mv_read (ks_get al_engine ?s) ?uk 4 = Some [7]"
    using uk by (intro mv_read_at [where t = 3]) (auto simp: al.mv_put_at)
  ultimately show ?thesis
    using get_from_raw_newest [OF al.keyspace_axioms _ uk, of ?s 4] by (simp add: store_ok_def)
qed



section \<open>Changesets\<close>

text \<open>
  C17. The changeset of a sync point lists each key its version wrote in its scope once, with the
  value or the tombstone written, and nothing else.
\<close>

theorem changeset_for_exact:
  assumes "keyspace K" and "store_wf domain_keys (ks_get K s)" and "scope_ok (sp_scope sp)"
  shows "\<exists>out. changeset_for K s sp = Inr out \<and> changes_at (ks_get K s) (sp_scope sp) (sp_ts sp) out"
  using user_store.changeset_for_run [OF user_store.intro [OF assms(1) dom.user_keys_axioms] assms(2,3)]
  by (auto simp: changes_at_def)

theorem changeset_for_exact_witness:
  "\<exists>out. changeset_for al_engine rows0 sp0 = Inr out \<and> set out = {(key0, Some [7])}"
proof -
  obtain out where out: "changeset_for al_engine rows0 sp0 = Inr out" "changes_at (ks_get al_engine rows0) scope0 5 out"
    using changeset_for_exact [OF al.keyspace_axioms, of rows0 sp0] rows0_ok scope0_ok by (auto simp: store_ok_def)
  have "set out = {(key0, Some [7])}" using out(2) rows0_mv by (auto simp: changes_at_def split: if_splits)
  with out(1) show ?thesis by blast
qed

text \<open>
  C8. Replication round trip: inserting the changeset of a version, taken on one node, on a node
  that has neither the sync point nor rows of that version in the scope makes the version's rows
  equal there and leaves all other rows as they were; inserting it again is refused and changes
  nothing.
\<close>

theorem replicate_changeset:
  assumes "api_store K P" and "store_wf domain_keys (ks_get K src)" and "tx_inv K P tx" and "sync_point_ok sp"
    and "meta_ok sm" and "sm_marker sm = Sm_Mutation" and "changeset_for K src sp = Inr es"
    and "\<not> point_in (ks_get K (tx_ks tx)) sp"
    and "\<forall>uk\<in>domain_keys. in_scope (sp_scope sp) uk \<longrightarrow> mv (ks_get K (tx_ks tx)) uk (sp_ts sp) = None"
  shows "\<exists>tx'. insert_changeset K P sp sm es tx = (Inr True, tx') \<and> tx_inv K P tx'
    \<and> (\<forall>uk\<in>domain_keys. \<forall>t. mv (ks_get K (tx_ks tx')) uk t
        = (if in_scope (sp_scope sp) uk \<and> t = sp_ts sp then mv (ks_get K src) uk t else mv (ks_get K (tx_ks tx)) uk t))
    \<and> insert_changeset K P sp sm es tx' = (Inr False, tx')"
proof -
  note ms = meta_storeI [OF api_store.axioms [OF assms(1)]]
  let ?m = "ks_get K (tx_ks tx)"
  have ok: "store_ok domain_keys P ?m" using assms(3) by (simp add: tx_inv_def)
  obtain out where out: "changeset_for K src sp = Inr out" "changes_at (ks_get K src) (sp_scope sp) (sp_ts sp) out"
    using user_store.changeset_for_run [OF user_store.intro [OF api_store.axioms(1) [OF assms(1)] dom.user_keys_axioms] assms(2), of sp] assms(4)
    by (auto simp: changes_at_def sync_point_ok_def)
  then have es: "changes_at (ks_get K src) (sp_scope sp) (sp_ts sp) es" using assms(7) by simp
  have keys: "fst ` set es \<subseteq> domain_keys" "distinct (map fst es)" using es by (auto simp: changes_at_def)
  obtain s' where s': "insert_changeset K P sp sm es tx = (Inr True, tx\<lparr>tx_ks := s'\<rparr>)" "store_ok domain_keys P (ks_get K s')"
    "ks_get K s' (sync_point_bytes sp) \<noteq> None"
    "\<And>uk t. uk \<in> domain_keys \<Longrightarrow> mv (ks_get K s') uk t = (if t = sp_ts sp then merged (mv ?m uk t) (map_of es uk) else mv ?m uk t)"
    by (rule meta_store.insert_changeset_mutation [OF ms ok assms(4-6,8) keys])
      (rule that, auto simp: meta_store.point_added_def [OF ms] point_in_def)
  have val: "map_of es uk = (if in_scope (sp_scope sp) uk then mv (ks_get K src) uk (sp_ts sp) else None)" if "uk \<in> domain_keys" for uk
    using changes_at_map_of [OF es that] .
  have inv: "tx_inv K P (tx\<lparr>tx_ks := s'\<rparr>)" using assms(3) s'(2) by (simp add: tx_inv_def tx_ok_def)
  have again: "insert_changeset K P sp sm es (tx\<lparr>tx_ks := s'\<rparr>) = (Inr False, tx\<lparr>tx_ks := s'\<rparr>)"
    using meta_store.insert_changeset_start [OF ms, of "tx\<lparr>tx_ks := s'\<rparr>" sp sm es] s'(2,3) assms(4) by simp
  show ?thesis
    using s'(1) inv again s'(4) val assms(9) by (intro exI [of _ "tx\<lparr>tx_ks := s'\<rparr>"]) (auto simp: merged_def split: option.splits)
qed

theorem replicate_changeset_witness:
  "\<exists>es tx'. changeset_for al_engine rows0 sp0 = Inr es \<and> insert_changeset al_engine meta_codec sp0 sm0 es tx0 = (Inr True, tx')
    \<and> mv (ks_get al_engine (tx_ks tx')) key0 5 = Some (Some [7])"
proof -
  have wf: "store_wf domain_keys (ks_get al_engine rows0)" using rows0_ok by (simp add: store_ok_def)
  obtain es where es: "changeset_for al_engine rows0 sp0 = Inr es"
    using al_api.changeset_for_run [OF wf, of sp0] scope0_ok by auto
  have sm: "meta_ok sm0" "sm_marker sm0 = Sm_Mutation" by (simp_all add: sm0_def meta_ok_def)
  from replicate_changeset [OF al_api.api_store_axioms wf tx0_inv sp0_ok sm es] es show ?thesis by (auto simp: rows0_mv)
qed

text \<open>
  C18. Deleting a version of a scope removes the rows that version wrote in the scope, all of them,
  and no other row, and reports how many there were.
\<close>

theorem delete_version_exact:
  assumes "keyspace K" and "store_wf domain_keys (ks_get K (tx_ks tx))" and "scope_ok sc"
  shows "\<exists>s'. delete_version_rows K (scope_bytes sc) ts tx
      = (Inr (card {r. version_row domain_keys sc ts r \<and> ks_get K (tx_ks tx) r \<noteq> None}), tx\<lparr>tx_ks := s'\<rparr>)
    \<and> store_wf domain_keys (ks_get K s')
    \<and> (\<forall>uk\<in>domain_keys. \<forall>t. mv (ks_get K s') uk t = (if t = ts \<and> in_scope sc uk then None else mv (ks_get K (tx_ks tx)) uk t))
    \<and> (\<forall>sp. ks_get K s' (sync_point_bytes sp) = ks_get K (tx_ks tx) (sync_point_bytes sp))"
  using user_store.delete_version_rows_run [OF user_store.intro [OF assms(1) dom.user_keys_axioms] assms(2,3), of ts]
    dom.store_wf_drop_version [OF assms(2), of sc ts]
  by (auto simp: dom.mv_drop_version dom.drop_version_other)

theorem delete_version_exact_witness:
  "\<exists>n s'. delete_version_rows al_engine (scope_bytes scope0) 5 tx_rows0 = (Inr n, tx_rows0\<lparr>tx_ks := s'\<rparr>)
    \<and> mv (ks_get al_engine s') key0 5 = None"
proof -
  have wf: "store_wf domain_keys (ks_get al_engine (tx_ks tx_rows0))" using rows0_ok by (simp add: store_ok_def)
  obtain n s' where "delete_version_rows al_engine (scope_bytes scope0) 5 tx_rows0 = (Inr n, tx_rows0\<lparr>tx_ks := s'\<rparr>)"
    "\<forall>uk\<in>domain_keys. \<forall>t. mv (ks_get al_engine s') uk t
      = (if t = 5 \<and> in_scope scope0 uk then None else mv (ks_get al_engine (tx_ks tx_rows0)) uk t)"
    using delete_version_exact [OF al.keyspace_axioms wf scope0_ok, of 5] by blast
  then show ?thesis by (intro exI [of _ n] exI [of _ s']) simp
qed

section \<open>Commits\<close>

text \<open>
  C10. A commit records one sync point for every scope the transaction wrote to, at the
  transaction's time, whose parent is the scope's last sync point before it, and touches no other
  key; a conflict, a poisoned database or a failed write is reported and commits nothing.
\<close>

theorem commit_records_points:
  assumes "api_store K P" and "tx_inv K P tx"
  shows "\<exists>s'. commit K P Committed tx = Inr s' \<and> store_ok domain_keys P (ks_get K s')
    \<and> (\<forall>sc\<in>set (active_scopes tx). \<exists>r. is_last (ks_get K (tx_ks tx)) (of_version sc None) r
        \<and> point_in (ks_get K s') (commit_point tx sc) \<and> point_meta P (ks_get K s') (commit_point tx sc) = Some (commit_meta tx r))
    \<and> (\<forall>k. (\<forall>sc\<in>set (active_scopes tx). k \<noteq> sync_point_bytes (commit_point tx sc)) \<longrightarrow> ks_get K s' k = ks_get K (tx_ks tx) k)
    \<and> commit K P Conflicted tx = Inl Tx_Conflict \<and> commit K P Poisoned tx = Inl Tx_Unavailable \<and> commit K P Failed tx = Inl Tx_Engine"
proof -
  have tx: "store_ok domain_keys P (ks_get K (tx_ks tx))" "tx_ok tx" using assms(2) by (simp_all add: tx_inv_def)
  obtain s' where s': "\<And>outcome. commit K P outcome tx = (case outcome of Committed \<Rightarrow> Inr s'
      | Conflicted \<Rightarrow> Inl Tx_Conflict | Poisoned \<Rightarrow> Inl Tx_Unavailable | Failed \<Rightarrow> Inl Tx_Engine)"
    "store_ok domain_keys P (ks_get K s')"
    "\<And>sc. sc \<in> set (active_scopes tx) \<Longrightarrow> \<exists>r v. is_last (ks_get K (tx_ks tx)) (of_version sc None) r
        \<and> to_allocvec P (commit_meta tx r) = Some v
        \<and> from_bytes P v = Some (commit_meta tx r) \<and> ks_get K s' (sync_point_bytes (commit_point tx sc)) = Some v"
    "\<And>k. (\<forall>sc\<in>set (active_scopes tx). k \<noteq> sync_point_bytes (commit_point tx sc)) \<Longrightarrow> ks_get K s' k = ks_get K (tx_ks tx) k"
    by (rule meta_store.commit_run [OF meta_storeI [OF api_store.axioms [OF assms(1)]] tx]) (rule that, assumption+)
  have "\<exists>r. is_last (ks_get K (tx_ks tx)) (of_version sc None) r
      \<and> point_in (ks_get K s') (commit_point tx sc) \<and> point_meta P (ks_get K s') (commit_point tx sc) = Some (commit_meta tx r)"
    if "sc \<in> set (active_scopes tx)" for sc
  proof -
    have "sync_point_ok (commit_point tx sc)" using that tx(2) by (simp add: tx_ok_def sync_point_ok_def commit_point_def)
    then show ?thesis using s'(3) [OF that] by (auto simp: point_in_def point_meta_def)
  qed
  then show ?thesis using s'(1,2,4) by (intro exI [of _ s']) simp
qed

theorem commit_records_points_witness:
  "\<exists>s'. commit al_engine meta_codec Committed (tx_rows0\<lparr>active_scopes := [scope0]\<rparr>) = Inr s'
    \<and> point_in (ks_get al_engine s') (commit_point tx_rows0 scope0)"
proof -
  have "tx_inv al_engine meta_codec (tx_rows0\<lparr>active_scopes := [scope0]\<rparr>)"
    using tx_rows0_inv scope0_ok by (simp add: tx_inv_def tx_ok_def)
  from commit_records_points [OF al_api.api_store_axioms this] show ?thesis by auto
qed

text \<open>
  C22. The scopes written to are kept in a hash set: the order in which a commit visits them does
  not matter for the store it leaves.
\<close>

theorem commit_order_irrelevant:
  assumes "api_store K P" and "tx_inv K P tx" and "tx_ok tx'" and "tx' = tx\<lparr>active_scopes := active_scopes tx'\<rparr>"
    and "set (active_scopes tx') = set (active_scopes tx)"
    and "commit K P Committed tx = Inr s" and "commit K P Committed tx' = Inr s'"
  shows "ks_get K s = ks_get K s'"
  using meta_store.commit_order [OF meta_storeI [OF api_store.axioms [OF assms(1)]] _ _ assms(3-7)] assms(2) by (simp add: tx_inv_def)

theorem commit_order_irrelevant_witness:
  "\<exists>s s'. commit al_engine meta_codec Committed (tx_rows0\<lparr>active_scopes := [scope0, scope0\<lparr>schema := lit ''e''\<rparr>]\<rparr>) = Inr s
    \<and> commit al_engine meta_codec Committed (tx_rows0\<lparr>active_scopes := [scope0\<lparr>schema := lit ''e''\<rparr>, scope0]\<rparr>) = Inr s'
    \<and> ks_get al_engine s = ks_get al_engine s'"
proof -
  let ?e = "scope0\<lparr>schema := lit ''e''\<rparr>"
  have e: "scope_ok ?e" "?e \<noteq> scope0" using scope0_ok by (simp_all add: scope0_def scope_ok_def name_ok_def utf8_valid.simps)
  let ?a = "tx_rows0\<lparr>active_scopes := [scope0, ?e]\<rparr>" and ?b = "tx_rows0\<lparr>active_scopes := [?e, scope0]\<rparr>"
  have inv: "tx_inv al_engine meta_codec ?a" "tx_inv al_engine meta_codec ?b"
    using tx_rows0_inv scope0_ok e by (auto simp: tx_inv_def tx_ok_def)
  then have ok: "store_ok domain_keys meta_codec (ks_get al_engine (tx_ks ?a))" "tx_ok ?a"
    "store_ok domain_keys meta_codec (ks_get al_engine (tx_ks ?b))" "tx_ok ?b" by (simp_all only: tx_inv_def)
  obtain s where s: "commit al_engine meta_codec Committed ?a = Inr s"
    by (rule al_api.commit_run [OF ok(1,2)]) (metis commit_outcome.simps(13))
  obtain s' where s': "commit al_engine meta_codec Committed ?b = Inr s'"
    by (rule al_api.commit_run [OF ok(3,4)]) (metis commit_outcome.simps(13))
  have "ks_get al_engine s = ks_get al_engine s'"
    by (rule commit_order_irrelevant [OF al_api.api_store_axioms inv(1) ok(4) _ _ s s']) auto
  with s s' show ?thesis by blast
qed

section \<open>Heads\<close>

lemma foldl_snoc: "foldl (\<lambda>c x. c @ [x]) c xs = c @ xs"
  by (induction xs arbitrary: c) simp_all

text \<open>
  C19. Collecting the heads of a scope visits every version of the scope once, with the sync point
  of its newest epoch (the largest node id among equals) and that point's metadata.
\<close>

theorem latest_heads_exact:
  assumes "api_store K P" and "store_ok domain_keys P (ks_get K s)" and "scope_ok sc" and "scope_points_range sc = Inr (lower, upper)"
  shows "\<exists>hs. collect_latest_heads K P s lower upper (\<lambda>c h. Inr (c @ [h])) [] = Inr hs
    \<and> distinct (map (\<lambda>(_, (_, ts, _), _). ts) hs)
    \<and> set hs = {(sc, as_id sp, sm) | sp sm. is_head (ks_get K s) sp \<and> sp_scope sp = sc \<and> point_meta P (ks_get K s) sp = Some sm}"
proof -
  let ?m = "ks_get K s"
  have us: "user_store K domain_keys" by (rule user_store.intro [OF api_store.axioms(1) [OF assms(1)] dom.user_keys_axioms])
  have ok: "store_wf domain_keys ?m" "metas_wf P ?m" using assms(2) by (simp_all add: store_ok_def)
  have rng: "point_range lower upper (\<lambda>x. x = sc)"
    by (rule scope_points_range_ok [OF assms(3)]) (use assms(4) in simp)
  obtain hs where hs: "\<And>func (c :: head list). collect_latest_heads K P s lower upper func c = fold_res func c (map head_of hs)"
    "distinct (map head_key hs)" "set hs = {with_meta P ?m sp | sp. is_head ?m sp \<and> sp_scope sp = sc}"
    by (rule user_store.collect_latest_heads_run [OF us ok rng]) (rule that, assumption+)
  have "fold_res (\<lambda>c h. Inr (c @ [h])) [] (map head_of hs) = Inr (map head_of hs)"
    using fold_res_total [of "map head_of hs" "\<lambda>c h. Inr (c @ [h])" "\<lambda>c h. c @ [h]" "[]"] by (simp add: foldl_snoc)
  moreover have "distinct (map (\<lambda>(_, (_, ts, _), _). ts) (map head_of hs))"
  proof -
    have "map head_key hs = map (\<lambda>t. (sc, t)) (map (\<lambda>(_, (_, ts, _), _). ts) (map head_of hs))"
      using hs(3) by (auto simp: head_key_def head_of_def with_meta_def as_id_def)
    then show ?thesis using hs(2) by (metis distinct_map)
  qed
  moreover have "point_meta P ?m sp \<noteq> None" if "is_head ?m sp" for sp
    using ok(2) that by (simp add: metas_wf_def is_head_def)
  then have "set (map head_of hs) = {(sc, as_id sp, sm) | sp sm. is_head ?m sp \<and> sp_scope sp = sc \<and> point_meta P ?m sp = Some sm}"
    using hs(3) by (force simp: head_of_def with_meta_def)
  ultimately show ?thesis using hs(1) by (intro exI [of _ "map head_of hs"]) simp
qed

theorem latest_heads_exact_witness:
  "\<exists>lower upper. scope_points_range scope0 = Inr (lower, upper)
    \<and> collect_latest_heads al_engine meta_codec rows0 lower upper (\<lambda>c h. Inr (c @ [h])) [] = Inr []"
proof -
  obtain lower upper where r: "scope_points_range scope0 = Inr (lower, upper)" by (rule scope_points_range_ok [OF scope0_ok])
  have "\<not> point_in (ks_get al_engine rows0) sp" for sp
    using key0_mem(1) by (simp add: point_in_def rows0_def al.rows_put_at)
  then have "\<not> is_head (ks_get al_engine rows0) sp" for sp by (simp add: is_head_def)
  with latest_heads_exact [OF al_api.api_store_axioms rows0_ok scope0_ok r] r show ?thesis by auto
qed

section \<open>Snapshots\<close>



context api_store
begin

lemma insert_changeset_point:
  assumes tx: "inv tx" and sp: "sync_point_ok sp" and sm: "meta_ok sm" and es: "fst ` set entries \<subseteq> domain_keys" "distinct (map fst entries)"
  obtains b s' where "insert_changeset K P sp sm entries tx = (Inr b, tx\<lparr>tx_ks := s'\<rparr>)" "store_ok domain_keys P (ks_get K s')"
    "point_in (ks_get K s') sp"
proof -
  have ok: "store_ok domain_keys P (ks_get K (tx_ks tx))" using tx by (simp add: tx_inv_def)
  show thesis
  proof (cases "point_in (ks_get K (tx_ks tx)) sp")
    case True
    then show thesis using that [of False "tx_ks tx"] insert_changeset_start [OF ok sp] ok by (simp add: point_in_def)
  next
    case False
    show thesis
    proof (cases "sm_marker sm")
      case Sm_Mutation
      show thesis by (rule insert_changeset_mutation [OF ok sp sm Sm_Mutation False es]) (use that in \<open>auto simp: point_added_def\<close>)
    next
      case Sm_Deletion
      show thesis
        by (rule insert_changeset_deletion [OF ok sp sm Sm_Deletion False, of entries]) (use that in \<open>auto simp: point_added_def\<close>)
    qed
  qed
qed

lemma restore_chunk_points:
  assumes tx: "inv tx" and sc: "scope_ok sc" and c: "chunk_ok sc c"
  obtains s' where "restore_chunk K P sc deleted c tx = (Inr (remove1 (ch_id c) deleted), tx\<lparr>tx_ks := s'\<rparr>)"
    "inv (tx\<lparr>tx_ks := s'\<rparr>)" "point_in (ks_get K s') (point_at sc (ch_version c) (tx_time tx) (tx_node tx))"
    "point_in (ks_get K (tx_ks tx)) (point_at sc (ch_version c) (tx_time tx) (tx_node tx)) \<longrightarrow> s' = tx_ks tx"
proof -
  let ?m = "ks_get K (tx_ks tx)" and ?sp = "point_at sc (ch_version c) (tx_time tx) (tx_node tx)"
  have ok: "store_ok domain_keys P ?m" using tx by (simp add: tx_inv_def)
  obtain ep nd where id: "ch_id c = (ep, ch_version c, nd)" by (cases "ch_id c") (auto simp: ch_version_def)
  obtain r where r: "is_last ?m (of_version sc (Some (ch_version c))) r"
    "find_last_syncpoint_untracked K sc (Some (ch_version c)) tx = (Inr r, tx)"
    using find_last_syncpoint_run [OF _ sc, of tx] ok by (auto simp: store_ok_def)
  define sm where "sm = \<lparr>sm_parent = map_option as_id r,
    sm_parent_epoch = (if ch_id c \<in> set deleted then Some (fst (ch_id c)) else None),
    sm_marker = sm_marker (ch_meta c), sm_retention_period = sm_retention_period (ch_meta c)\<rparr>"
  have sm: "meta_ok sm" unfolding sm_def using c by (intro chunk_meta_ok [OF r(1)]) (simp add: chunk_ok_def)
  have sp: "sync_point_ok ?sp" using sc tx by (simp add: point_at_def sync_point_ok_def tx_inv_def tx_ok_def)
  obtain b s' where s': "insert_changeset K P ?sp sm (ch_entries c) tx = (Inr b, tx\<lparr>tx_ks := s'\<rparr>)"
    "store_ok domain_keys P (ks_get K s')" "point_in (ks_get K s') ?sp"
    by (rule insert_changeset_point [OF tx sp sm, of "ch_entries c"]) (use c in \<open>auto simp: chunk_ok_def\<close>)
  have same: "s' = tx_ks tx" if "point_in ?m ?sp"
  proof -
    have "tx = tx\<lparr>tx_ks := s'\<rparr>" using s'(1) insert_changeset_start [OF ok sp, of sm "ch_entries c"] that by (simp add: point_in_def)
    then show ?thesis by (metis transaction.select_convs(1) transaction.surjective transaction.update_convs(1))
  qed
  show thesis
  proof (rule that)
    show "restore_chunk K P sc deleted c tx = (Inr (remove1 (ch_id c) deleted), tx\<lparr>tx_ks := s'\<rparr>)"
      using s'(1) r(2) by (simp add: restore_chunk_def id Let_def split_ts_def sm_def)
  qed (use s' tx same in \<open>simp_all add: tx_inv_def tx_ok_def\<close>)
qed

end



end
