(* ===== verification/Blob_Paths.thy ===== *)
theory Blob_Paths
  imports Apply_Spec
begin

text \<open>
  Paths to blobs on the reference store: a link writes the path and its metadata, an unlink takes
  both away and returns the blob they named, a move does one after the other.
\<close>

definition ref_link :: "scope \<Rightarrow> bytes \<Rightarrow> bytes \<Rightarrow> ref_store \<Rightarrow> ref_store" where
  "ref_link sc h p r = ref_put sc (Path p) (user_key sc (Blob_Id h)) (ref_put sc (Blob_Meta h p) [] r)"

definition ref_unlink :: "scope \<Rightarrow> bytes \<Rightarrow> bytes \<Rightarrow> ref_store \<Rightarrow> ref_store" where
  "ref_unlink sc h p r = ref_delete sc (Path p) (ref_delete sc (Blob_Meta h p) r)"

text \<open>The blob a path names.\<close>

definition names_blob :: "ref_store \<Rightarrow> scope \<Rightarrow> bytes \<Rightarrow> bytes \<Rightarrow> bool" where
  "names_blob r sc p h \<longleftrightarrow> length h = 32 \<and> r sc (Path p) = Some (user_key sc (Blob_Id h))"

lemma ref_unlink_absent: "r sc (Blob_Meta h p) = None \<Longrightarrow> ref_unlink sc h p r = ref_delete sc (Path p) r"
  by (auto simp: ref_unlink_def ref_delete_def fun_eq_iff)

lemma names_blob_link [simp]: "length h = 32 \<Longrightarrow> names_blob (ref_link sc h p r) sc p h"
  by (simp add: names_blob_def ref_link_def ref_put_def)

lemma ref_link_blob [simp]: "ref_link sc h p r s (Blob_Id h') = r s (Blob_Id h')"
  by (simp add: ref_link_def ref_put_def)

lemma ref_unlink_blob [simp]: "ref_unlink sc h p r s (Blob_Id h') = r s (Blob_Id h')"
  by (simp add: ref_unlink_def ref_delete_def)

lemma ref_unlink_path [simp]: "ref_unlink sc h p r sc (Path p) = None"
  by (simp add: ref_unlink_def ref_delete_def)

lemma ref_link_other [simp]: "p \<noteq> q \<Longrightarrow> ref_link sc h q r sc (Path p) = r sc (Path p)"
  by (simp add: ref_link_def ref_put_def)

lemma path_keys:
  assumes "scope_ok sc" "name_ok p"
  shows "path_key sc p = Inr (user_key sc (Path p))" "blob_meta_key sc h p = Inr (user_key sc (Blob_Meta h p))"
    "blob_id_key sc h = Inr (user_key sc (Blob_Id h))"
  using assms by (simp_all add: key_eqs scope_ok_iff name_ok_def)

context api_store
begin

lemma get_step:
  assumes "ready tx" "scope_ok sc" "body_ok b"
  shows "tx_get K (Inr (user_key sc b)) tx = (Inr (map_option (Pair (user_key sc b)) (view tx sc b)), tx)"
  using tx_get_run [of tx "user_key sc b"] assms by (simp add: ready_def store_view_def)

lemma link_step:
  assumes r: "ready tx" and sc: "scope_ok sc" and p: "name_ok p" and h: "length h = 32"
  shows "\<exists>tx'. link_blob K (sc, p) (sc, h) tx = (Inr (), tx') \<and> ready tx' \<and> view tx' = ref_link sc h p (view tx)"
proof -
  let ?a = "tx\<lparr>active_scopes := List.insert sc (active_scopes tx)\<rparr>"
  let ?b = "?a\<lparr>tx_ks := put_at_raw K (tx_ks ?a) (user_key sc (Blob_Meta h p)) [] (tx_time ?a)\<rparr>"
  note w = write_scope_ready [OF r sc]
  note m = put_ready [OF w(2) sc, of "Blob_Meta h p" "[]"]
  note q = put_ready [OF m(1) sc, of "Path p" "user_key sc (Blob_Id h)"]
  have "body_ok (Blob_Meta h p)" "body_ok (Path p)" using p h by simp_all
  then show ?thesis using w(1) m(2) q by (simp add: link_blob_def put_at_def path_keys [OF sc p] ref_link_def)
qed

lemma resolve_path_step:
  assumes r: "ready tx" and sc: "scope_ok sc" and p: "name_ok p"
  shows "view tx sc (Path p) = None \<Longrightarrow> resolve_path K (sc, p) tx = (Inr None, tx)"
    and "names_blob (view tx) sc p h
      \<Longrightarrow> resolve_path K (sc, p) tx = (Inr (map_option (\<lambda>b. (b, (sc, h))) (view tx sc (Blob_Id h))), tx)"
proof -
  note path = get_step [OF r sc, of "Path p"]
  show "resolve_path K (sc, p) tx = (Inr None, tx)" if "view tx sc (Path p) = None"
    using path p that by (simp add: resolve_path_def path_keys [OF sc p])
  assume n: "names_blob (view tx) sc p h"
  then have blob: "resolve_blob K (sc, h) tx = (Inr (view tx sc (Blob_Id h)), tx)"
    using read_step [OF r sc, of "Blob_Id h"] path_keys [OF sc p] by (simp add: resolve_blob_def names_blob_def)
  show "resolve_path K (sc, p) tx = (Inr (map_option (\<lambda>b. (b, (sc, h))) (view tx sc (Blob_Id h))), tx)"
    using path p n blob blob_id_decode_key [OF sc, of h]
    by (simp add: resolve_path_def path_keys [OF sc p] names_blob_def split: option.split)
qed

lemma unlink_step:
  assumes r: "ready tx" and sc: "scope_ok sc" and p: "name_ok p" and n: "names_blob (view tx) sc p h"
  shows "\<exists>tx'. unlink_blob K (sc, p) tx = (Inr (Some ((sc, h), view tx sc (Blob_Meta h p))), tx') \<and> ready tx'
    \<and> view tx' = ref_unlink sc h p (view tx)"
proof -
  let ?a = "tx\<lparr>active_scopes := List.insert sc (active_scopes tx)\<rparr>"
  note w = write_scope_ready [OF r sc]
  have b: "body_ok (Blob_Meta h p)" "body_ok (Path p)" using p n by (simp_all add: names_blob_def)
  note path = get_step [OF w(2) sc b(2)] and meta = get_step [OF w(2) sc b(1)]
  note e = erase_ready [OF w(2) sc b(1)]
  note dec = blob_id_decode_key [OF sc, of h]
  show ?thesis
  proof (cases "view tx sc (Blob_Meta h p)")
    case None
    then show ?thesis using w(1) path meta n dec erase_ready [OF w(2) sc b(2)] ref_unlink_absent [of "view tx" sc h p]
      by (simp add: unlink_blob_def Let_def path_keys [OF sc p] names_blob_def value_of_def erase_at_def)
  next
    case (Some v)
    then show ?thesis using w(1) path meta n dec e(2) erase_ready [OF e(1) sc b(2)]
      by (simp add: unlink_blob_def Let_def path_keys [OF sc p] names_blob_def value_of_def erase_at_def ref_unlink_def)
  qed
qed

lemma move_step:
  assumes r: "ready tx" and sc: "scope_ok sc" and p: "name_ok p" "name_ok q" and n: "names_blob (view tx) sc p h"
  shows "\<exists>tx'. move_blob K (sc, p) (sc, q) tx = (Inr (), tx') \<and> ready tx'
    \<and> view tx' = ref_link sc h q (ref_unlink sc h p (view tx))"
proof -
  obtain tx1 where u: "unlink_blob K (sc, p) tx = (Inr (Some ((sc, h), view tx sc (Blob_Meta h p))), tx1)" "ready tx1"
    "view tx1 = ref_unlink sc h p (view tx)"
    using unlink_step [OF r sc p(1) n] by blast
  have "length h = 32" using n by (simp add: names_blob_def)
  from link_step [OF u(2) sc p(2) this] u show ?thesis by (simp add: move_blob_def)
qed

lemma store_blob_step:
  assumes r: "ready tx" and sc: "scope_ok sc" and h: "length (sha b) = 32"
  shows "\<exists>tx'. store_blob K sha sc b tx = (Inr (sc, sha b), tx') \<and> ready tx' \<and> view tx' = ref_put sc (Blob_Id (sha b)) b (view tx)"
  using write_scope_ready [OF r sc] put_ready [OF write_scope_ready(2) [OF r sc] sc, of "Blob_Id (sha b)" b] h sc
  by (simp add: store_blob_def Let_def put_at_def key_eqs scope_ok_iff)

end

end
