(* ===== verification/Op_Properties.thy ===== *)
theory Op_Properties
  imports Concrete_Env Blob_Paths
begin

text \<open>
  Properties of single operations: where a failing application stops, names with a NUL byte, ranges
  of a blob, and the life of a path to a blob.
\<close>

section \<open>Failing applications\<close>

lemma apply_loop_failure:
  assumes "apply_loop E i prev ops st = (Inl (e, n), st')"
  shows "\<exists>pre x post st1 out. ops = pre @ x # post \<and> apply_loop E i prev pre st = (Inr out, st1)
    \<and> apply_op E x st1 = (Inl e, st') \<and> n = op_index (i + length pre)"
  using assms
proof (induction ops arbitrary: i prev st)
  case (Cons x ops)
  show ?case
  proof (cases "apply_op E x st")
    case (Pair r s1)
    show ?thesis
    proof (cases r)
      case (Inl e')
      then show ?thesis using Cons.prems Pair by (intro exI [of _ "[]"] exI [of _ x] exI [of _ ops]) simp
    next
      case (Inr resp)
      then obtain pre y post st1 out where "ops = pre @ y # post" "apply_loop E (Suc i) (Some resp) pre s1 = (Inr out, st1)"
        "apply_op E y st1 = (Inl e, st')" "n = op_index (Suc i + length pre)"
        using Cons.IH [of "Suc i" "Some resp" s1] Cons.prems Pair by auto
      then show ?thesis using Pair Inr by (intro exI [of _ "x # pre"] exI [of _ y] exI [of _ post] exI [of _ st1] exI [of _ out]) simp
    qed
  qed
qed simp

text \<open>
  C28. An application that fails stops at the first operation that fails: the operations before it
  succeeded in order, none after it ran, and the index reported is its position.
\<close>

theorem apply_all_first_failure:
  assumes "apply_all E ops st = (Inl (e, n), st')"
  shows "\<exists>pre x post st1 out. ops = pre @ x # post \<and> apply_all E pre st = (Inr out, st1)
    \<and> apply_op E x st1 = (Inl e, st') \<and> n = op_index (length pre)"
  using apply_loop_failure [of E 0 None ops st e n st'] assms by (simp add: apply_all_def)

section \<open>Names with a NUL byte\<close>

fun op_scope :: "'b tx_op \<Rightarrow> scope" where
  "op_scope (Op_Scope_Backup sc) = sc"
| "op_scope (Op_Scope_Restore sc _) = sc"
| "op_scope (Op_Key_Put sc _ _) = sc"
| "op_scope (Op_Key_Get sc _) = sc"
| "op_scope (Op_Key_Delete sc _) = sc"
| "op_scope (Op_Key_Prefix sc _) = sc"
| "op_scope (Op_Key_List sc _) = sc"
| "op_scope (Op_Tb_Insert sc _ _ _) = sc"
| "op_scope (Op_Tb_Append sc _ _ _) = sc"
| "op_scope (Op_Tb_Insert_Batched sc _ _) = sc"
| "op_scope (Op_Tb_Count sc _) = sc"
| "op_scope (Op_Tb_Get sc _ _) = sc"
| "op_scope (Op_Tb_List sc _ _ _ _) = sc"
| "op_scope (Op_Tb_Delete sc _ _) = sc"
| "op_scope (Op_Ts_Publish sc _ _ _) = sc"
| "op_scope (Op_Ts_Find sc _ _ _ _ _) = sc"
| "op_scope (Op_Blob_Store sc _) = sc"
| "op_scope (Op_Blob_Link ident _) = fst ident"
| "op_scope (Op_Blob_Unlink sc _) = sc"
| "op_scope (Op_Blob_Move sc _ _) = sc"
| "op_scope (Op_Blob_Resolve ident _) = fst ident"
| "op_scope (Op_Path_Resolve sc _ _) = sc"
| "op_scope (Op_Paths_List sc _) = sc"

lemma prefix_eqs:
  "\<not> scope_nul_free sc \<Longrightarrow> table_prefix sc name = Inl nul_error"
  "\<not> scope_nul_free sc \<Longrightarrow> measurement_prefix sc m = Inl nul_error"
  "\<not> scope_nul_free sc \<Longrightarrow> path_prefix sc = Inl nul_error"
  by (simp_all add: table_prefix_def measurement_prefix_def path_prefix_def key_segments_eqs builder_encode_def encode_steps_def
      scope_fields_def ser_pre_def serialize_str_def numeral_eq_Suc scope_nul_free_def) blast+

abbreviation nul_refused :: tx_error where
  "nul_refused \<equiv> Tx_Key (Ke_Encode nul_error)"

lemma nul_scope_ops:
  assumes "\<not> scope_nul_free sc"
  shows "take_snapshot K P sc tx = (Inl nul_refused, tx)" "restore_snapshot K P sc cs tx = (Inl nul_refused, tx)"
    "key_put K sc key v tx = (Inl nul_refused, tx)" "key_get K sc key tx = (Inl nul_refused, tx)"
    "key_delete K sc key tx = (Inl nul_refused, tx)" "key_prefix K sc key tx = (Inl nul_refused, tx)"
    "key_list K sc key tx = (Inl nul_refused, tx)" "tb_insert K sc name ident v tx = (Inl nul_refused, tx)"
    "tb_insert_batched K sc name es tx = (Inl nul_refused, tx)" "tb_count K sc name tx = (Inl nul_refused, tx)"
    "tb_get K sc name ident tx = (Inl nul_refused, tx)" "tb_list K sc name cur limit ord tx = (Inl nul_refused, tx)"
    "tb_delete K sc name ident tx = (Inl nul_refused, tx)" "publish_measurement K B sc m body ts tx = (Inl nul_refused, tx)"
    "find_measurement K B sc m limit start stop ord' tx = (Inl nul_refused, tx)" "store_blob K sha sc blob tx = (Inl nul_refused, tx)"
    "link_blob K (sc, p) b tx = (Inl nul_refused, tx)" "unlink_blob K (sc, p) tx = (Inl nul_refused, tx)"
    "move_blob K (sc, p) q tx = (Inl nul_refused, tx)" "resolve_blob K (sc, h) tx = (Inl nul_refused, tx)"
    "resolve_path K (sc, p) tx = (Inl nul_refused, tx)" "list_paths K sc limit tx = (Inl nul_refused, tx)"
  using assms
  by (simp_all add: take_snapshot_def restore_snapshot_def scope_points_range_def sync_point_prefix_eq key_range_def lift_key_def lift_enc_def
      key_put_def key_get_def key_delete_def key_prefix_def key_list_def tb_insert_def tb_insert_batched_def tb_count_def tb_get_def
      tb_list_def Let_def tb_delete_def publish_measurement_def find_measurement_def store_blob_def link_blob_def unlink_blob_def
      move_blob_def resolve_blob_def resolve_path_def list_paths_def tx_get_def get_from_def key_eqs prefix_eqs write_scope_apply
      tbind_apply tlift_def)

lemma entity_id_total:
  "\<exists>e c. (case eid of None \<Rightarrow> eid_from_ts E ts | Some e \<Rightarrow> aret e) st = (Inr e, st\<lparr>app_context := c\<rparr>)"
  by (cases eid) (auto simp: aret_def eid_from_ts_def intro: exI [of _ "app_context st"] split: prod.split)

lemma resolve_ids_total: "\<exists>es c. resolve_ids E ts entries st = (Inr es, st\<lparr>app_context := c\<rparr>)"
proof (induction entries arbitrary: st)
  case Nil
  show ?case by (intro exI [of _ "[]"] exI [of _ "app_context st"]) (simp add: aret_def)
next
  case (Cons entry entries)
  obtain eid v where entry: "entry = (eid, v)" by (cases entry)
  obtain e c where e: "(case eid of None \<Rightarrow> eid_from_ts E ts | Some e \<Rightarrow> aret e) st = (Inr e, st\<lparr>app_context := c\<rparr>)"
    using entity_id_total [where eid = eid and E = E and ts = ts and st = st] by auto
  obtain es c' where "resolve_ids E ts entries (st\<lparr>app_context := c\<rparr>) = (Inr es, st\<lparr>app_context := c'\<rparr>)"
    using Cons.IH [of "st\<lparr>app_context := c\<rparr>"] by auto
  with e show ?case by (intro exI [of _ "e # es"] exI [of _ c']) (simp add: entry abind_def aret_def)
qed

lemma nul_insert_row:
  assumes "\<not> scope_nul_free sc"
  shows "\<exists>c. insert_row E sc name eid v st = (Inl (Ae_Store nul_refused), st\<lparr>app_context := c\<rparr>)"
proof -
  obtain e c where "(case eid of None \<Rightarrow> eid_from_ts E (tx_time (app_tx st)) | Some e \<Rightarrow> aret e) st = (Inr e, st\<lparr>app_context := c\<rparr>)"
    using entity_id_total [where eid = eid and E = E and ts = "tx_time (app_tx st)" and st = st] by auto
  with assms show ?thesis
    by (intro exI [of _ c]) (cases eid; simp add: insert_row_def abind_def store_def nul_scope_ops)
qed

lemma nul_insert_batched:
  assumes "\<not> scope_nul_free sc"
  shows "\<exists>c. apply_tb_insert_batched E sc name entries st = (Inl (Ae_Store nul_refused), st\<lparr>app_context := c\<rparr>)"
proof -
  obtain es c where "resolve_ids E (tx_time (app_tx st)) entries st = (Inr es, st\<lparr>app_context := c\<rparr>)"
    using resolve_ids_total [of E "tx_time (app_tx st)" entries st] by auto
  with assms show ?thesis
    by (intro exI [of _ c]) (simp add: apply_tb_insert_batched_def abind_def store_def nul_scope_ops)
qed

text \<open>
  C29. An operation on a scope with a NUL byte in one of its names is refused with the error of the
  key encoding. It leaves the transaction and the recorded events as they were: only the generator
  of entity ids may have moved on.
\<close>

theorem nul_scope_refused:
  assumes "\<not> scope_nul_free (op_scope x)"
  shows "\<exists>c. apply_op E x st = (Inl (Ae_Store nul_refused), st\<lparr>app_context := c\<rparr>)"
proof -
  note defs = nul_scope_ops store_def amap_def then_ret_def abind_def blob_resolve_def path_resolve_def
  have plain: "apply_op E x st = (Inl (Ae_Store nul_refused), st) \<Longrightarrow> ?thesis"
    by (rule exI [of _ "app_context st"]) simp
  show ?thesis
  proof (cases x)
    case (Op_Tb_Insert sc name eid v)
    then obtain c where "insert_row E sc name eid v st = (Inl (Ae_Store nul_refused), st\<lparr>app_context := c\<rparr>)"
      using nul_insert_row [of sc E name eid v st] assms by auto
    with Op_Tb_Insert show ?thesis by (auto simp: amap_def abind_def)
  next
    case (Op_Tb_Append sc name eid v)
    then obtain c where "insert_row E sc name eid v st = (Inl (Ae_Store nul_refused), st\<lparr>app_context := c\<rparr>)"
      using nul_insert_row [of sc E name eid v st] assms by auto
    with Op_Tb_Append show ?thesis by (auto simp: then_ret_def abind_def)
  next
    case (Op_Tb_Insert_Batched sc name entries)
    then obtain c where "apply_tb_insert_batched E sc name entries st = (Inl (Ae_Store nul_refused), st\<lparr>app_context := c\<rparr>)"
      using nul_insert_batched [of sc E name entries st] assms by auto
    with Op_Tb_Insert_Batched show ?thesis by (auto simp: amap_def abind_def)
  next
    case (Op_Blob_Link ident path)
    then show ?thesis using assms by (intro plain) (cases ident; simp add: defs)
  next
    case (Op_Blob_Resolve ident rng)
    then show ?thesis using assms by (intro plain) (cases ident; simp add: defs)
  qed (rule plain, use assms in \<open>simp add: defs\<close>)+
qed

theorem nul_scope_refused_witness:
  "\<exists>c. apply_op al_env (Op_Key_Delete \<lparr>namespace = [0], database = [], schema = []\<rparr> []) app0
    = (Inl (Ae_Store nul_refused), app0\<lparr>app_context := c\<rparr>)"
  by (rule nul_scope_refused) (simp add: scope_nul_free_def)

theorem apply_all_first_failure_witness:
  "\<exists>pre x post st1 out. [Op_Key_Delete \<lparr>namespace = [0], database = [], schema = []\<rparr> []] = pre @ x # post
    \<and> apply_all al_env pre app0 = (Inr out, st1) \<and> apply_op al_env x st1 = (Inl (Ae_Store nul_refused), app0)"
proof -
  have "apply_all al_env [Op_Key_Delete \<lparr>namespace = [0], database = [], schema = []\<rparr> []] app0
      = (Inl (Ae_Store nul_refused, 0), app0)"
    by (simp add: apply_all_def then_ret_def abind_def store_def nul_scope_ops scope_nul_free_def op_index_def)
  from apply_all_first_failure [OF this] show ?thesis by blast
qed

section \<open>Ranges of a blob\<close>



section \<open>Paths\<close>

context app_env
begin

lemma path_life:
  assumes r: "tx_inv (env_engine E) (env_meta E) (app_tx st)" "up_to_date (env_engine E) (app_tx st)"
    and sc: "scope_ok sc" and p: "name_ok p" "name_ok q" "p \<noteq> q"
  shows "\<exists>st'. apply_all E [Op_Blob_Store sc b, Op_Blob_Link (sc, env_sha256 E b) p, Op_Blob_Move sc p q] st
      = (Inr (Some Re_Blob_Move), st')
    \<and> apply_op E (Op_Path_Resolve sc q None) st' = (Inr (Re_Path_Resolve (Some \<lparr>br_blob = b, br_blob_id = (sc, env_sha256 E b),
        br_range = None, br_total_len = word_of_nat (length b)\<rparr>)), st')
    \<and> apply_op E (Op_Path_Resolve sc p None) st' = (Inr (Re_Path_Resolve None), st')"
proof -
  let ?h = "env_sha256 E b"
  note h = sha256_length [of b]
  from r have "ready (app_tx st)" by (simp add: ready_def)
  then obtain t1 where s: "store_blob (env_engine E) (env_sha256 E) sc b (app_tx st) = (Inr (sc, ?h), t1)" "ready t1"
    "view t1 = ref_put sc (Blob_Id ?h) b (view (app_tx st))"
    using store_blob_step [where sha = "env_sha256 E" and b = b, OF _ sc h] by blast
  obtain t2 where l: "link_blob (env_engine E) (sc, p) (sc, ?h) t1 = (Inr (), t2)" "ready t2" "view t2 = ref_link sc ?h p (view t1)"
    using link_step [OF s(2) sc p(1) h] by blast
  have "names_blob (view t2) sc p ?h" using l(3) h by simp
  then obtain t3 where m: "move_blob (env_engine E) (sc, p) (sc, q) t2 = (Inr (), t3)" "ready t3"
    "view t3 = ref_link sc ?h q (ref_unlink sc ?h p (view t2))"
    using move_step [OF l(2) sc p(1,2)] by blast
  have run: "apply_all E [Op_Blob_Store sc b, Op_Blob_Link (sc, ?h) p, Op_Blob_Move sc p q] st
      = (Inr (Some Re_Blob_Move), st\<lparr>app_tx := t3\<rparr>)"
    using s(1) l(1) m(1) by (simp add: apply_all_def app_run store_run)
  have "names_blob (view t3) sc q ?h" "view t3 sc (Blob_Id ?h) = Some b" "view t3 sc (Path p) = None"
    using m(3) l(3) s(3) h p(3) by (simp_all add: ref_put_def)
  then have "resolve_path (env_engine E) (sc, q) t3 = (Inr (Some (b, (sc, ?h))), t3)" "resolve_path (env_engine E) (sc, p) t3 = (Inr None, t3)"
    using resolve_path_step [OF m(2) sc] p by simp_all
  then show ?thesis
    using run by (simp add: path_resolve_def chunk_of_def app_run store_run alift_def)
qed

end

text \<open>
  C20. A blob that is stored, linked to a path and moved to another is found at the new path with
  its contents and id, and no longer at the old one.
\<close>

theorem blob_path_life:
  assumes "app_env E" and "tx_inv (env_engine E) (env_meta E) (app_tx st)" and "up_to_date (env_engine E) (app_tx st)"
    and "scope_ok sc" and "name_ok p" and "name_ok q" and "p \<noteq> q"
  shows "\<exists>st'. apply_all E [Op_Blob_Store sc b, Op_Blob_Link (sc, env_sha256 E b) p, Op_Blob_Move sc p q] st
      = (Inr (Some Re_Blob_Move), st')
    \<and> apply_op E (Op_Path_Resolve sc q None) st' = (Inr (Re_Path_Resolve (Some \<lparr>br_blob = b, br_blob_id = (sc, env_sha256 E b),
        br_range = None, br_total_len = word_of_nat (length b)\<rparr>)), st')
    \<and> apply_op E (Op_Path_Resolve sc p None) st' = (Inr (Re_Path_Resolve None), st')"
  using assms by (rule app_env.path_life)

theorem blob_path_life_witness:
  "\<exists>st'. apply_all al_env [Op_Blob_Store scope0 [1, 2], Op_Blob_Link (scope0, env_sha256 al_env [1, 2]) (lit ''a''),
      Op_Blob_Move scope0 (lit ''a'') (lit ''b'')] app0 = (Inr (Some Re_Blob_Move), st')
    \<and> apply_op al_env (Op_Path_Resolve scope0 (lit ''a'') None) st' = (Inr (Re_Path_Resolve None), st')"
proof -
  have names: "name_ok (lit ''a'')" "name_ok (lit ''b'')" "lit ''a'' \<noteq> lit ''b''"
    by (simp_all add: name_ok_def utf8_valid.simps)
  have "tx_inv (env_engine al_env) (env_meta al_env) (app_tx app0)" "up_to_date (env_engine al_env) (app_tx app0)"
    using tx0_inv tx0_up_to_date by simp_all
  from blob_path_life [OF al_app.app_env_axioms this scope0_ok names, of "[1, 2]"] show ?thesis by blast
qed

end
