(* ===== verification/Catchup.thy ===== *)
theory Catchup
  imports Snapshots
begin

text \<open>
  What a replica announces of a scope and what a peer makes of it
  (\<open>swarm/db-commons/src/models/replication.rs\<close>, \<open>swarm/db/src/replication.rs\<close>): the heads of a
  scope, an announce in which the old heads are folded into a fingerprint, the plan by which a peer
  catches up, and the filter by which a holder decides what to send. The plan is shown complete:
  a peer that follows it misses no head the announce stands for.
\<close>

unbundle bit_operations_syntax

section \<open>Ordered maps\<close>

text \<open>A \<open>BTreeMap\<close>: the entries in ascending order of their keys, \<open>map_of\<close> its \<open>get\<close>.\<close>

fun bt_insert :: "'k::linorder \<Rightarrow> 'v \<Rightarrow> ('k \<times> 'v) list \<Rightarrow> ('k \<times> 'v) list" where
  "bt_insert k v [] = [(k, v)]"
| "bt_insert k v ((k', v') # xs) =
    (if k < k' then (k, v) # (k', v') # xs else if k = k' then (k, v) # xs else (k', v') # bt_insert k v xs)"

definition bt_ok :: "('k::linorder \<times> 'v) list \<Rightarrow> bool" where
  "bt_ok xs \<longleftrightarrow> sorted_wrt (<) (map fst xs)"

lemma bt_ok_simps [simp]:
  "bt_ok []"
  "bt_ok (x # xs) \<longleftrightarrow> (\<forall>y\<in>set xs. fst x < fst y) \<and> bt_ok xs"
  "bt_ok (xs @ [x]) \<longleftrightarrow> bt_ok xs \<and> (\<forall>y\<in>set xs. fst y < fst x)"
  by (auto simp: bt_ok_def sorted_wrt_append)

lemma set_bt_insert_sub: "set (bt_insert k v xs) \<subseteq> insert (k, v) (set xs)"
  by (induction k v xs rule: bt_insert.induct) auto

lemma bt_insert_ok [simp]: "bt_ok xs \<Longrightarrow> bt_ok (bt_insert k v xs)"
  using set_bt_insert_sub by (induction k v xs rule: bt_insert.induct) fastforce+

lemma map_of_bt_insert [simp]: "bt_ok xs \<Longrightarrow> map_of (bt_insert k v xs) = (map_of xs)(k \<mapsto> v)"
  by (induction k v xs rule: bt_insert.induct) (auto simp: fun_eq_iff)

lemma bt_ok_distinct: "bt_ok xs \<Longrightarrow> distinct (map fst xs)"
  by (simp add: bt_ok_def strict_sorted_iff)

lemma bt_map_of: "bt_ok xs \<Longrightarrow> map_of xs k = Some v \<longleftrightarrow> (k, v) \<in> set xs"
  by (simp add: map_of_eq_Some_iff [OF bt_ok_distinct])

lemma bt_map_of_None: "map_of xs k = None \<longleftrightarrow> (\<forall>v. (k, v) \<notin> set xs)"
  by (force simp: map_of_eq_None_iff)

section \<open>Announces\<close>

type_synonym scope_frontier = "(u64 \<times> u64 \<times> bytes) list"

record scope_announce =
  sa_baseline :: "u64 option"
  sa_fingerprint :: u64
  sa_heads :: scope_frontier

definition sa_full :: "scope_frontier \<Rightarrow> scope_announce" where
  "sa_full heads = \<lparr>sa_baseline = None, sa_fingerprint = 0, sa_heads = heads\<rparr>"

definition elides :: "scope_announce \<Rightarrow> u64 \<Rightarrow> u64 \<Rightarrow> bool" where
  "elides sa ts epoch = (case sa_baseline sa of None \<Rightarrow> False | Some b \<Rightarrow> ts \<le> b \<and> epoch \<le> b)"

text \<open>\<open>Option::max\<close> with \<open>None\<close> below every \<open>Some\<close>.\<close>

definition sa_head :: "scope_announce \<Rightarrow> u64 option" where
  "sa_head sa =
    (case (if sa_heads sa = [] then None else Some (fst (last (sa_heads sa))), sa_baseline sa) of
       (None, b) \<Rightarrow> b
     | (Some e, None) \<Rightarrow> Some e
     | (Some e, Some b) \<Rightarrow> Some (max e b))"

definition mix :: "u64 \<Rightarrow> u64" where
  "mix x0 =
    (let x1 = x0 + 0x9E3779B97F4A7C15;
         x2 = (x1 XOR drop_bit 30 x1) * 0xBF58476D1CE4E5B9;
         x3 = (x2 XOR drop_bit 27 x2) * 0x94D049BB133111EB
     in x3 XOR drop_bit 31 x3)"

definition from_le_bytes :: "bytes \<Rightarrow> u64" where
  "from_le_bytes bs = foldr (\<lambda>b acc. push_bit 8 acc OR ucast b) bs 0"

definition head_fingerprint :: "u64 \<Rightarrow> u64 \<Rightarrow> bytes \<Rightarrow> u64" where
  "head_fingerprint ts epoch node =
    (let lo = from_le_bytes (take 8 node); hi = from_le_bytes (drop 8 node)
     in mix (mix (mix (mix ts XOR epoch) XOR lo) XOR hi))"

definition fold_heads_at_cut :: "scope_frontier \<Rightarrow> u64 \<Rightarrow> u64" where
  "fold_heads_at_cut frontier cutoff =
    fold (\<lambda>(ts, epoch, node) acc. acc XOR head_fingerprint ts epoch node)
      (filter (\<lambda>(ts, epoch, _). ts \<le> cutoff \<and> epoch \<le> cutoff) frontier) 0"

text \<open>The announce of one scope: everything, or with a baseline behind the lag cut.\<close>

definition announce_step :: "scope_announce \<Rightarrow> u64 \<times> u64 \<times> bytes \<Rightarrow> scope_announce" where
  "announce_step sa h = (case h of (ts, epoch, node) \<Rightarrow>
     if elides sa ts epoch then sa\<lparr>sa_fingerprint := sa_fingerprint sa XOR head_fingerprint ts epoch node\<rparr>
     else sa\<lparr>sa_heads := bt_insert ts (epoch, node) (sa_heads sa)\<rparr>)"

definition announce_scope :: "u64 option \<Rightarrow> scope_frontier \<Rightarrow> scope_announce" where
  "announce_scope lag_cut frontier =
    (case (case lag_cut of None \<Rightarrow> None
           | Some cutoff \<Rightarrow> if frontier = [] then None else Some (min (fst (last frontier)) cutoff)) of
       None \<Rightarrow> sa_full frontier
     | Some cutoff \<Rightarrow> foldl announce_step \<lparr>sa_baseline = Some cutoff, sa_fingerprint = 0, sa_heads = []\<rparr> frontier)"

text \<open>The lag cut of a floored announce: \<open>now\<close> less the lag, saturating.\<close>

definition lag_cut_at :: "bool \<Rightarrow> u64 \<Rightarrow> u64 \<Rightarrow> u64 option" where
  "lag_cut_at floored now lag = (if floored then Some (if now < lag then 0 else now - lag) else None)"

section \<open>Planning\<close>

datatype catchup_plan =
    Caught_Up
  | Diverged
  | Behind "u64 option" "(u64 \<times> u64) list"

record plan_state =
  pl_behind :: bool
  pl_since :: "u64 option"
  pl_floors :: "(u64 \<times> u64) list"
  pl_intact :: bool

definition plan_step :: "scope_frontier option \<Rightarrow> u64 option \<Rightarrow> plan_state \<Rightarrow> u64 \<times> u64 \<times> bytes \<Rightarrow> plan_state" where
  "plan_step ours baseline st h = (case h of (ts, their_epoch, _) \<Rightarrow>
     let our_epoch = (case ours of None \<Rightarrow> None | Some f \<Rightarrow> map_option fst (map_of f ts));
         sufficient = (case our_epoch of None \<Rightarrow> False | Some epoch \<Rightarrow> epoch \<ge> their_epoch)
     in if (case baseline of None \<Rightarrow> False | Some b \<Rightarrow> ts \<le> b)
        then if \<not> sufficient
             then st\<lparr>pl_floors := bt_insert ts (case our_epoch of None \<Rightarrow> 0 | Some e \<Rightarrow> e) (pl_floors st), pl_behind := True\<rparr>
             else st
        else if sufficient
             then if pl_intact st then st\<lparr>pl_since := Some ts\<rparr>
                  else st\<lparr>pl_floors := bt_insert ts (the our_epoch) (pl_floors st)\<rparr>
             else st\<lparr>pl_intact := False, pl_behind := True\<rparr>)"

definition plan_catchup :: "scope_frontier option \<Rightarrow> scope_announce \<Rightarrow> catchup_plan" where
  "plan_catchup ours theirs =
    (if (case sa_baseline theirs of None \<Rightarrow> False
         | Some cutoff \<Rightarrow> (case ours of None \<Rightarrow> 0 | Some f \<Rightarrow> fold_heads_at_cut f cutoff) \<noteq> sa_fingerprint theirs)
     then Diverged
     else let st = foldl (plan_step ours (sa_baseline theirs))
                \<lparr>pl_behind = False, pl_since = sa_baseline theirs, pl_floors = [], pl_intact = True\<rparr> (sa_heads theirs)
          in if pl_behind st then Behind (pl_since st) (pl_floors st) else Caught_Up)"

text \<open>What a holder leaves out of its answer to a request with a cursor and floors.\<close>

definition skips :: "u64 option \<Rightarrow> (u64 \<times> u64) list \<Rightarrow> u64 \<Rightarrow> u64 \<Rightarrow> bool" where
  "skips since_ts epoch_floors ts epoch =
    (case map_of epoch_floors ts of
       Some least \<Rightarrow> epoch \<le> least
     | None \<Rightarrow> (case since_ts of None \<Rightarrow> False | Some c \<Rightarrow> ts \<le> c))"

section \<open>What an announce stands for\<close>

definition elided :: "u64 \<Rightarrow> scope_frontier \<Rightarrow> scope_frontier" where
  "elided cutoff f = filter (\<lambda>(ts, epoch, _). ts \<le> cutoff \<and> epoch \<le> cutoff) f"

definition frontier_of :: "scope_frontier option \<Rightarrow> scope_frontier" where
  "frontier_of ours = (case ours of None \<Rightarrow> [] | Some f \<Rightarrow> f)"

definition has_head :: "scope_frontier \<Rightarrow> u64 \<Rightarrow> u64 \<Rightarrow> bool" where
  "has_head f ts epoch \<longleftrightarrow> (\<exists>e n. map_of f ts = Some (e, n) \<and> epoch \<le> e)"

lemma announce_foldl:
  assumes "sa_baseline sa = Some cutoff" "bt_ok (sa_heads sa @ f)"
  shows "foldl announce_step sa f = sa\<lparr>
    sa_fingerprint := fold (\<lambda>(ts, epoch, node) acc. acc XOR head_fingerprint ts epoch node) (elided cutoff f) (sa_fingerprint sa),
    sa_heads := sa_heads sa @ filter (\<lambda>(ts, epoch, _). \<not> (ts \<le> cutoff \<and> epoch \<le> cutoff)) f\<rparr>"
  using assms
proof (induction f arbitrary: sa)
  case (Cons h f)
  obtain ts epoch node where h: "h = (ts, epoch, node)" by (cases h)
  have snoc: "bt_insert ts (epoch, node) xs = xs @ [(ts, epoch, node)]" if "\<forall>y\<in>set xs. fst y < ts" for xs :: scope_frontier
    using that by (induction xs) auto
  show ?case
  proof (cases "ts \<le> cutoff \<and> epoch \<le> cutoff")
    case True
    then show ?thesis using Cons.IH [of "announce_step sa h"] Cons.prems
      by (simp add: h announce_step_def elides_def elided_def bt_ok_def sorted_wrt_append)
  next
    case False
    then have "announce_step sa h = sa\<lparr>sa_heads := sa_heads sa @ [h]\<rparr>"
      using Cons.prems snoc by (auto simp: h announce_step_def elides_def bt_ok_def sorted_wrt_append)
    then show ?thesis using Cons.IH [of "announce_step sa h"] Cons.prems False by (auto simp: h elided_def)
  qed
qed (simp add: elided_def)

lemma announce_scope_None: "announce_scope None f = sa_full f"
  by (simp add: announce_scope_def)

lemma announce_scope_cut:
  assumes "bt_ok f" "f \<noteq> []" "b = min (fst (last f)) cutoff"
  shows "announce_scope (Some cutoff) f = \<lparr>sa_baseline = Some b, sa_fingerprint = fold_heads_at_cut f b,
    sa_heads = filter (\<lambda>(ts, epoch, _). \<not> (ts \<le> b \<and> epoch \<le> b)) f\<rparr>"
  using assms announce_foldl [of "\<lparr>sa_baseline = Some b, sa_fingerprint = 0, sa_heads = []\<rparr>" b f]
  by (simp add: announce_scope_def fold_heads_at_cut_def elided_def)

text \<open>Both cases at once: which heads are explicit, and what the fingerprint is.\<close>

lemma announce_scope_cases:
  assumes "bt_ok f"
  obtains (full) "announce_scope lag f = sa_full f"
  | (cutoff) b where "announce_scope lag f = \<lparr>sa_baseline = Some b, sa_fingerprint = fold_heads_at_cut f b,
      sa_heads = filter (\<lambda>(ts, epoch, _). \<not> (ts \<le> b \<and> epoch \<le> b)) f\<rparr>"
proof (cases "lag = None \<or> f = []")
  case True
  then show thesis using full by (auto simp: announce_scope_def split: option.splits)
next
  case False
  then obtain c where "lag = Some c" "f \<noteq> []" by auto
  then show thesis using cutoff [of "min (fst (last f)) c"] announce_scope_cut [OF assms _ refl, of c] by simp
qed

section \<open>The plan is complete\<close>

text \<open>The state of the loop after some of the heads, for heads in ascending order.\<close>

definition lacks :: "scope_frontier option \<Rightarrow> u64 \<times> u64 \<times> bytes \<Rightarrow> bool" where
  "lacks ours h \<longleftrightarrow> \<not> has_head (frontier_of ours) (fst h) (fst (snd h))"

definition below :: "u64 option \<Rightarrow> u64 \<Rightarrow> bool" where
  "below b ts \<longleftrightarrow> (case b of None \<Rightarrow> False | Some c \<Rightarrow> ts \<le> c)"

definition plan_inv :: "scope_frontier option \<Rightarrow> u64 option \<Rightarrow> scope_frontier \<Rightarrow> plan_state \<Rightarrow> bool" where
  "plan_inv ours baseline hs st \<longleftrightarrow>
    (pl_behind st \<longleftrightarrow> (\<exists>h\<in>set hs. lacks ours h))
    \<and> (pl_intact st \<longleftrightarrow> (\<forall>h\<in>set hs. lacks ours h \<longrightarrow> below baseline (fst h)))
    \<and> (\<forall>h\<in>set hs. lacks ours h \<longrightarrow> \<not> below baseline (fst h) \<longrightarrow> \<not> below (pl_since st) (fst h))
    \<and> (\<forall>s. pl_since st = Some s \<longrightarrow> below baseline s \<or> (\<exists>h\<in>set hs. fst h = s))
    \<and> bt_ok (pl_floors st)
    \<and> (\<forall>ts fl. map_of (pl_floors st) ts = Some fl \<longrightarrow> (\<exists>h\<in>set hs. fst h = ts \<and> (below baseline ts \<longleftrightarrow> lacks ours h)
        \<and> fl = (case map_of (frontier_of ours) ts of None \<Rightarrow> 0 | Some (e, _) \<Rightarrow> e)))
    \<and> (\<forall>h\<in>set hs. lacks ours h \<longrightarrow> below baseline (fst h) \<longrightarrow> map_of (pl_floors st) (fst h) \<noteq> None)"

lemma below_simps [simp]: "below None ts = False" "below (Some c) ts \<longleftrightarrow> ts \<le> c"
  by (simp_all add: below_def)

lemma below_mono: "below b s \<Longrightarrow> ts \<le> s \<Longrightarrow> below b ts"
  by (cases b) auto

text \<open>One step of the loop, in the vocabulary of the invariant.\<close>

lemma plan_step_alt:
  "plan_step ours baseline st h =
    (let fl = (case map_of (frontier_of ours) (fst h) of None \<Rightarrow> 0 | Some (e, _) \<Rightarrow> e)
     in if below baseline (fst h)
        then if lacks ours h then st\<lparr>pl_floors := bt_insert (fst h) fl (pl_floors st), pl_behind := True\<rparr> else st
        else if \<not> lacks ours h
        then if pl_intact st then st\<lparr>pl_since := Some (fst h)\<rparr> else st\<lparr>pl_floors := bt_insert (fst h) fl (pl_floors st)\<rparr>
        else st\<lparr>pl_intact := False, pl_behind := True\<rparr>)"
  by (cases h; cases ours; cases baseline)
    (auto simp: plan_step_def lacks_def has_head_def frontier_of_def below_def Let_def split: option.splits prod.splits)

lemma plan_inv_init: "plan_inv ours b [] \<lparr>pl_behind = False, pl_since = b, pl_floors = [], pl_intact = True\<rparr>"
  by (cases b) (simp_all add: plan_inv_def)

lemma plan_inv_step:
  assumes inv: "plan_inv ours b hs st" and asc: "\<forall>x\<in>set hs. fst x < fst h"
  shows "plan_inv ours b (hs @ [h]) (plan_step ours b st h)"
proof -
  have since: "\<not> below (pl_since st) (fst h)" if "\<not> below b (fst h)"
  proof (cases "pl_since st")
    case (Some s)
    then have "below b s \<or> s < fst h" using inv asc unfolding plan_inv_def by blast
    then show ?thesis using Some that below_mono by (metis below_simps(2) not_le)
  qed simp
  have new: "map_of (pl_floors st) (fst h) = None"
    using inv asc unfolding plan_inv_def by (metis less_irrefl not_None_eq)
  consider (spike) "below b (fst h)" "lacks ours h" | (old) "below b (fst h)" "\<not> lacks ours h"
    | (gap) "\<not> below b (fst h)" "lacks ours h" | (cursor) "\<not> below b (fst h)" "\<not> lacks ours h" "pl_intact st"
    | (beyond) "\<not> below b (fst h)" "\<not> lacks ours h" "\<not> pl_intact st" by blast
  then show ?thesis
  proof cases
    case spike
    then show ?thesis using inv new asc unfolding plan_inv_def plan_step_alt Let_def by auto
  next
    case old
    then show ?thesis using inv unfolding plan_inv_def plan_step_alt Let_def by auto
  next
    case gap
    then show ?thesis using inv since unfolding plan_inv_def plan_step_alt Let_def by auto
  next
    case cursor
    then show ?thesis using inv unfolding plan_inv_def plan_step_alt Let_def by auto
  next
    case beyond
    then show ?thesis using inv new asc unfolding plan_inv_def plan_step_alt Let_def by auto
  qed
qed

lemma plan_inv_run:
  assumes "bt_ok hs"
  shows "plan_inv ours b hs (foldl (plan_step ours b) \<lparr>pl_behind = False, pl_since = b, pl_floors = [], pl_intact = True\<rparr> hs)"
  using assms
proof (induction hs rule: rev_induct)
  case (snoc h hs)
  then show ?case using plan_inv_step [of ours b hs _ h] by simp
qed (simp add: plan_inv_init)

lemma has_head_mem: "bt_ok f \<Longrightarrow> (ts, e, n) \<in> set f \<Longrightarrow> e' \<le> e \<Longrightarrow> has_head f ts e'"
  by (auto simp: has_head_def bt_map_of)

lemma bt_unique: "bt_ok f \<Longrightarrow> h \<in> set f \<Longrightarrow> h' \<in> set f \<Longrightarrow> fst h = fst h' \<Longrightarrow> h = h'"
  by (metis bt_map_of option.inject prod.collapse)

lemma plan_invD:
  assumes "plan_inv ours b hs st"
  shows "h \<in> set hs \<Longrightarrow> lacks ours h \<Longrightarrow> below b (fst h) \<Longrightarrow> map_of (pl_floors st) (fst h) \<noteq> None"
    and "h \<in> set hs \<Longrightarrow> lacks ours h \<Longrightarrow> \<not> below b (fst h) \<Longrightarrow> \<not> below (pl_since st) (fst h)"
    and "map_of (pl_floors st) ts = Some fl \<Longrightarrow> \<exists>h\<in>set hs. fst h = ts \<and> (below b ts \<longleftrightarrow> lacks ours h)
        \<and> fl = (case map_of (frontier_of ours) ts of None \<Rightarrow> 0 | Some (e, _) \<Rightarrow> e)"
  using assms by (simp_all add: plan_inv_def)

text \<open>A lacking head that is announced explicitly is not left out.\<close>

lemma plan_inv_sends:
  assumes inv: "plan_inv ours b hs st" and hs: "bt_ok hs" and h: "(ts, e, n) \<in> set hs" "lacks ours (ts, e, n)"
    and spike: "below b ts \<Longrightarrow> \<not> below b e"
  shows "\<not> skips (pl_since st) (pl_floors st) ts e"
proof (cases "map_of (pl_floors st) ts")
  case None
  then have "\<not> below b ts" using plan_invD(1) [OF inv h] by auto
  then have "\<not> below (pl_since st) ts" using plan_invD(2) [OF inv h] by simp
  then show ?thesis using None by (simp add: skips_def below_def)
next
  case (Some fl)
  obtain h' where h': "h' \<in> set hs" "fst h' = ts" "below b ts \<longleftrightarrow> lacks ours h'"
    and fl: "fl = (case map_of (frontier_of ours) ts of None \<Rightarrow> 0 | Some (e, _) \<Rightarrow> e)"
    using plan_invD(3) [OF inv Some] by blast
  have "h' = (ts, e, n)" using bt_unique [OF hs h'(1) h(1)] h'(2) by simp
  then have b: "below b ts" using h'(3) h(2) by simp
  have "\<not> e \<le> fl"
  proof (cases "map_of (frontier_of ours) ts")
    case None
    then have "fl = 0" using fl by simp
    then show ?thesis using spike [OF b] b by (cases b) auto
  next
    case (Some x)
    then show ?thesis using h(2) fl by (cases x) (auto simp: lacks_def has_head_def)
  qed
  then show ?thesis using Some by (simp add: skips_def)
qed

lemma filter_sorted: "bt_ok f \<Longrightarrow> bt_ok (filter Q f)"
  by (simp add: bt_ok_def sorted_wrt_map sorted_wrt_filter)

lemma fold_of_elided:
  "elided c f = elided c g \<Longrightarrow> fold_heads_at_cut f c = fold_heads_at_cut g c"
  by (simp add: fold_heads_at_cut_def elided_def)

lemma plan_catchup_alt:
  "plan_catchup ours theirs =
    (if \<exists>c. sa_baseline theirs = Some c \<and> fold_heads_at_cut (frontier_of ours) c \<noteq> sa_fingerprint theirs then Diverged
     else let st = foldl (plan_step ours (sa_baseline theirs))
                \<lparr>pl_behind = False, pl_since = sa_baseline theirs, pl_floors = [], pl_intact = True\<rparr> (sa_heads theirs)
          in if pl_behind st then Behind (pl_since st) (pl_floors st) else Caught_Up)"
  unfolding plan_catchup_def
  by (cases "sa_baseline theirs"; cases ours) (simp_all add: frontier_of_def fold_heads_at_cut_def)

text \<open>What the plan must achieve for heads \<open>f\<close> announced as \<open>sa\<close>.\<close>

definition plan_good :: "scope_frontier option \<Rightarrow> scope_frontier \<Rightarrow> catchup_plan \<Rightarrow> bool" where
  "plan_good ours f plan \<longleftrightarrow>
    (case plan of
       Caught_Up \<Rightarrow> \<forall>h\<in>set f. \<not> lacks ours h
     | Diverged \<Rightarrow> \<exists>c. elided c (frontier_of ours) \<noteq> elided c f
     | Behind since floors \<Rightarrow> (\<exists>h\<in>set f. lacks ours h)
         \<and> (\<forall>(ts, e, n)\<in>set f. lacks ours (ts, e, n) \<longrightarrow> \<not> skips since floors ts e))"

lemma plan_good_loop:
  assumes hs: "bt_ok hs" "set hs \<subseteq> set f" and rest: "\<forall>h\<in>set f. lacks ours h \<longrightarrow> h \<in> set hs"
    and spike: "\<And>ts e n. (ts, e, n) \<in> set hs \<Longrightarrow> below b ts \<Longrightarrow> \<not> below b e"
    and st: "st = foldl (plan_step ours b) \<lparr>pl_behind = False, pl_since = b, pl_floors = [], pl_intact = True\<rparr> hs"
  shows "plan_good ours f (if pl_behind st then Behind (pl_since st) (pl_floors st) else Caught_Up)"
proof -
  have inv: "plan_inv ours b hs st" using plan_inv_run [OF hs(1)] st by simp
  have "pl_behind st \<longleftrightarrow> (\<exists>h\<in>set f. lacks ours h)" using inv hs(2) rest by (auto simp: plan_inv_def)
  moreover have "\<not> skips (pl_since st) (pl_floors st) ts e" if "(ts, e, n) \<in> set f" "lacks ours (ts, e, n)" for ts e n
    using plan_inv_sends [OF inv hs(1) _ that(2)] spike rest that by blast
  ultimately show ?thesis by (auto simp: plan_good_def)
qed

lemma plan_catchup_good:
  assumes f: "bt_ok f" and ours: "bt_ok (frontier_of ours)"
    and coll: "\<And>c. sa_baseline (announce_scope lag f) = Some c \<Longrightarrow>
      fold_heads_at_cut (frontier_of ours) c = fold_heads_at_cut f c \<Longrightarrow> elided c (frontier_of ours) = elided c f"
  shows "plan_good ours f (plan_catchup ours (announce_scope lag f))"
  using f
proof (cases rule: announce_scope_cases [where lag = lag])
  case full
  have "plan_good ours f (let st = foldl (plan_step ours None)
      \<lparr>pl_behind = False, pl_since = None, pl_floors = [], pl_intact = True\<rparr> f
      in if pl_behind st then Behind (pl_since st) (pl_floors st) else Caught_Up)"
    unfolding Let_def by (rule plan_good_loop [OF f subset_refl _ _ refl]) simp_all
  then show ?thesis by (simp add: full plan_catchup_alt sa_full_def)
next
  case (cutoff b)
  let ?hs = "filter (\<lambda>(ts, epoch, _). \<not> (ts \<le> b \<and> epoch \<le> b)) f"
  show ?thesis
  proof (cases "fold_heads_at_cut (frontier_of ours) b = fold_heads_at_cut f b")
    case False
    then have "elided b (frontier_of ours) \<noteq> elided b f" using fold_of_elided by blast
    then show ?thesis using False by (auto simp: cutoff plan_catchup_alt plan_good_def)
  next
    case True
    then have same: "elided b (frontier_of ours) = elided b f" using coll cutoff by simp
    have "h \<in> set ?hs" if h: "h \<in> set f" "lacks ours h" for h
    proof (rule ccontr)
      assume "h \<notin> set ?hs"
      then have "h \<in> set (elided b f)" using h(1) by (auto simp: elided_def)
      then have "h \<in> set (elided b (frontier_of ours))" using same by simp
      then have "h \<in> set (frontier_of ours)" by (simp add: elided_def)
      then show False using has_head_mem [OF ours, of "fst h" "fst (snd h)" "snd (snd h)"] h(2) by (simp add: lacks_def)
    qed
    then have "plan_good ours f (let st = foldl (plan_step ours (Some b))
        \<lparr>pl_behind = False, pl_since = Some b, pl_floors = [], pl_intact = True\<rparr> ?hs
        in if pl_behind st then Behind (pl_since st) (pl_floors st) else Caught_Up)"
      unfolding Let_def by (intro plan_good_loop [OF filter_sorted [OF f] _ _ _ refl]) auto
    then show ?thesis using True by (simp add: cutoff plan_catchup_alt)
  qed
qed

end
