(* ===== verification/Replication.thy ===== *)
theory Replication
  imports Catchup
begin

text \<open>
  Catching up (\<open>swarm/db/src/replication.rs\<close>): a holder serves the sync points a peer asks for, in
  one broadcast changeset or in bounded pages the peer pulls, the peer inserts them, retrying a
  conflicted commit, and a holder about to let go of a scope has a peer confirm that it covers it.
\<close>

section \<open>Serving\<close>

definition chunk_wire_overhead :: nat where
  "chunk_wire_overhead = 48"

definition chunk_size :: "changes \<Rightarrow> nat" where
  "chunk_size entries = 32 + sum_list (map (\<lambda>(k, v). length k + (case v of None \<Rightarrow> 0 | Some x \<Rightarrow> length x) + 16) entries)"

definition saturating_add :: "nat \<Rightarrow> nat \<Rightarrow> nat" where
  "saturating_add a b = min (a + b) usize_max"

record pull_request =
  pr_scope :: scope
  pr_after :: "sync_point_id option"
  pr_since_ts :: "u64 option"
  pr_epoch_floors :: "(u64 \<times> u64) list"

type_synonym serve_state = "chunk list \<times> nat \<times> sync_point_id option"

definition serve_step :: "'s engine \<Rightarrow> 's \<Rightarrow> pull_request \<Rightarrow> nat \<Rightarrow> serve_state \<Rightarrow> sync_point \<Rightarrow> sync_meta
    \<Rightarrow> tx_error + bool \<times> serve_state" where
  "serve_step K s req page_bytes st sp sm =
    (case st of (chunks, filled, next) \<Rightarrow>
      let ident = as_id sp in
      if pr_after req = Some ident then Inr (True, st)
      else if skips (pr_since_ts req) (pr_epoch_floors req) (sp_ts sp) (sp_epoch sp) then Inr (True, st)
      else if chunks \<noteq> [] \<and> filled \<ge> page_bytes then Inr (False, (chunks, filled, Some (ch_id (last chunks))))
      else and_then (snapshot_chunk K s (with_sp_id (pr_scope req) ident) sm) (\<lambda>c.
        Inr (True, (chunks @ [c],
          saturating_add (saturating_add filled (chunk_size (ch_entries c))) chunk_wire_overhead, next))))"

text \<open>\<open>opened\<close> is what \<open>begin_local\<close> returned: the store as the transaction sees it, or an error.\<close>

definition serve_pull :: "'s engine \<Rightarrow> sync_meta postcard \<Rightarrow> tx_error + 's \<Rightarrow> subject \<Rightarrow> pull_request \<Rightarrow> nat
    \<Rightarrow> tx_error + chunk list \<times> sync_point_id option" where
  "serve_pull K P opened subject req page_bytes =
    (if \<not> subject_contains subject (pr_scope req) then Inl (Tx_Context ''outside this holder's subject'')
     else and_then opened (\<lambda>s.
       and_then (scope_points_range (pr_scope req)) (\<lambda>(lower, upper).
         and_then (case pr_after req of None \<Rightarrow> Inr lower | Some ident \<Rightarrow> lift_enc (sync_point_key (with_sp_id (pr_scope req) ident)))
           (\<lambda>lower'. and_then (find_sync_points_while K P s lower' upper (serve_step K s req page_bytes) ([], 0, None))
             (\<lambda>(chunks, filled, next). Inr (chunks, next))))))"

text \<open>The answer to a broadcast request; \<open>None\<close> when nothing is published.\<close>

definition cs_req_step :: "'s engine \<Rightarrow> 's \<Rightarrow> scope \<Rightarrow> u64 option \<Rightarrow> (u64 \<times> u64) list \<Rightarrow> chunk list \<Rightarrow> sync_point \<Rightarrow> sync_meta
    \<Rightarrow> tx_error + chunk list" where
  "cs_req_step K s sc since_ts epoch_floors chunks sp sm =
    (if skips since_ts epoch_floors (sp_ts sp) (sp_epoch sp) then Inr chunks
     else and_then (snapshot_chunk K s (with_sp_id sc (as_id sp)) sm) (\<lambda>c. Inr (chunks @ [c])))"

definition handle_cs_req :: "'s engine \<Rightarrow> sync_meta postcard \<Rightarrow> tx_error + 's \<Rightarrow> subject \<Rightarrow> scope \<Rightarrow> u64 option
    \<Rightarrow> (u64 \<times> u64) list \<Rightarrow> tx_error + (scope \<times> chunk list) option" where
  "handle_cs_req K P opened subject sc since_ts epoch_floors =
    (if \<not> subject_contains subject sc then Inr None
     else and_then opened (\<lambda>s.
       and_then (scope_points_range sc) (\<lambda>(lower, upper).
         and_then (find_sync_points K P s lower upper (cs_req_step K s sc since_ts epoch_floors) []) (\<lambda>chunks.
           Inr (if chunks = [] then None else Some (sc, chunks))))))"

section \<open>Applying\<close>

text \<open>One chunk, and a page of chunks in a single transaction.\<close>

definition insert_chunk :: "'s engine \<Rightarrow> sync_meta postcard \<Rightarrow> scope \<Rightarrow> chunk \<Rightarrow> ('s transaction, bool) op" where
  "insert_chunk K P sc c = insert_changeset K P (with_sp_id sc (ch_id c)) (ch_meta c) (ch_entries c)"

definition insert_page :: "'s engine \<Rightarrow> sync_meta postcard \<Rightarrow> scope \<Rightarrow> chunk list \<Rightarrow> ('s transaction, unit) op" where
  "insert_page K P sc = tfold (\<lambda>c. tbind (insert_chunk K P sc c) (\<lambda>_. tret ()))"

text \<open>
  The world a node commits in: what \<open>begin_local\<close> returns at each attempt, given the store this node
  left last (other writers may have committed since), and how the engine answers the commit.
\<close>

record 's world =
  w_begin :: "nat \<Rightarrow> 's \<Rightarrow> tx_error + 's transaction"
  w_outcome :: "nat \<Rightarrow> commit_outcome"

text \<open>\<open>Some\<close> the store after the commit, \<open>None\<close> when it conflicted.\<close>

definition attempt :: "'s engine \<Rightarrow> sync_meta postcard \<Rightarrow> 's world \<Rightarrow> nat \<Rightarrow> 's \<Rightarrow> ('s transaction, 'a) op \<Rightarrow> tx_error + ('a \<times> 's) option" where
  "attempt K P W i s m =
    and_then (w_begin W i s) (\<lambda>tx.
      case m tx of
        (Inl e, _) \<Rightarrow> Inl e
      | (Inr a, tx') \<Rightarrow>
          (case commit K P (w_outcome W i) tx' of
             Inr s' \<Rightarrow> Inr (Some (a, s'))
           | Inl Tx_Conflict \<Rightarrow> Inr None
           | Inl e \<Rightarrow> Inl e))"

text \<open>The loops of \<open>apply_pull\<close> and \<open>apply_chunk\<close>: \<open>n\<close> attempts are left, \<open>i\<close> were made before.\<close>

fun retry_loop :: "'s engine \<Rightarrow> sync_meta postcard \<Rightarrow> 's world \<Rightarrow> string \<Rightarrow> ('s transaction, 'a) op \<Rightarrow> nat \<Rightarrow> nat \<Rightarrow> 's
    \<Rightarrow> (tx_error + 'a \<times> 's) \<times> nat" where
  "retry_loop K P W msg m 0 i s = (Inl (Tx_Context msg), i)"
| "retry_loop K P W msg m (Suc n) i s =
    (case attempt K P W i s m of
       Inl e \<Rightarrow> (Inl e, Suc i)
     | Inr (Some r) \<Rightarrow> (Inr r, Suc i)
     | Inr None \<Rightarrow> retry_loop K P W msg m n (Suc i) s)"

definition apply_pull :: "'s engine \<Rightarrow> sync_meta postcard \<Rightarrow> 's world \<Rightarrow> scope \<Rightarrow> chunk list \<Rightarrow> nat \<Rightarrow> 's \<Rightarrow> (tx_error + 's) \<times> nat" where
  "apply_pull K P W sc chunks i s =
    (if chunks = [] then (Inr s, i)
     else case retry_loop K P W ''a pulled page kept conflicting; giving up'' (insert_page K P sc chunks) 10 i s of
       (Inl e, i') \<Rightarrow> (Inl e, i')
     | (Inr (_, s'), i') \<Rightarrow> (Inr s', i'))"

definition apply_chunk :: "'s engine \<Rightarrow> sync_meta postcard \<Rightarrow> 's world \<Rightarrow> scope \<Rightarrow> chunk \<Rightarrow> nat \<Rightarrow> 's \<Rightarrow> (tx_error + bool \<times> 's) \<times> nat" where
  "apply_chunk K P W sc c i s =
    retry_loop K P W ''a changeset chunk kept conflicting; giving up'' (insert_chunk K P sc c) 10 i s"

text \<open>A broadcast changeset: one chunk's failure does not drop the rest, an unavailable store does.\<close>

fun handle_cs :: "'s engine \<Rightarrow> sync_meta postcard \<Rightarrow> 's world \<Rightarrow> scope \<Rightarrow> chunk list \<Rightarrow> nat \<Rightarrow> 's \<Rightarrow> 's \<times> nat" where
  "handle_cs K P W sc [] i s = (s, i)"
| "handle_cs K P W sc (c # cs) i s =
    (case apply_chunk K P W sc c i s of
       (Inl Tx_Unavailable, i') \<Rightarrow> (s, i')
     | (Inl e, i') \<Rightarrow> handle_cs K P W sc cs i' s
     | (Inr (_, s'), i') \<Rightarrow> handle_cs K P W sc cs i' s')"

section \<open>Pulling\<close>

datatype pull_end =
    Pull_Unanswered
  | Pull_Failed
  | Pull_Done nat u64

definition oldest_of :: "chunk list \<Rightarrow> u64 \<Rightarrow> u64" where
  "oldest_of chunks oldest = fold (\<lambda>c old. case ch_id c of (epoch, ts, _) \<Rightarrow> min old (max ts epoch)) chunks oldest"

text \<open>
  The loop of \<open>pull_from\<close>: ask for a page, apply it, go on behind its last sync point. \<open>pull\<close> is the
  transport. It may never end when the holder keeps answering, so it is a partial function.
\<close>

partial_function (option) pull_loop ::
    "(pull_request \<Rightarrow> (chunk list \<times> sync_point_id option) option) \<Rightarrow> (chunk list \<Rightarrow> nat \<Rightarrow> 's \<Rightarrow> (tx_error + 's) \<times> nat)
    \<Rightarrow> pull_request \<Rightarrow> nat \<Rightarrow> u64 \<Rightarrow> nat \<Rightarrow> 's \<Rightarrow> (pull_end \<times> 's) option" where
  "pull_loop pull apply req pages oldest i s =
    (case pull req of
       None \<Rightarrow> Some (Pull_Unanswered, s)
     | Some (chunks, next) \<Rightarrow>
         (case apply chunks i s of
            (Inl e, i') \<Rightarrow> Some (Pull_Failed, s)
          | (Inr s', i') \<Rightarrow>
              (case next of
                 None \<Rightarrow> Some (Pull_Done (Suc pages) (oldest_of chunks oldest), s')
               | Some cursor \<Rightarrow> pull_loop pull apply (req\<lparr>pr_after := Some cursor\<rparr>) (Suc pages) (oldest_of chunks oldest) i' s')))"

text \<open>Whether, and how, a finished pull is announced.\<close>

definition pull_announce :: "nat \<Rightarrow> u64 \<Rightarrow> u64 \<Rightarrow> u64 \<Rightarrow> bool option" where
  "pull_announce pages oldest now lag =
    (let lag_cut = (if now < lag then 0 else now - lag); floored = oldest > lag_cut
     in if floored \<and> pages = 1 then None else Some floored)"

text \<open>
  \<open>pull_from\<close>: nothing to do when a pull from this holder is running; else the result of the loop,
  false when the transport did not answer, and the announce that follows a finished pull.
\<close>

definition pull_from :: "(bytes \<times> scope) set \<Rightarrow> (pull_request \<Rightarrow> (chunk list \<times> sync_point_id option) option)
    \<Rightarrow> (chunk list \<Rightarrow> nat \<Rightarrow> 's \<Rightarrow> (tx_error + 's) \<times> nat) \<Rightarrow> bytes \<Rightarrow> scope \<Rightarrow> u64 option \<Rightarrow> (u64 \<times> u64) list
    \<Rightarrow> u64 \<Rightarrow> u64 \<Rightarrow> 's \<Rightarrow> (bool \<times> 's \<times> bool option) option" where
  "pull_from pulling pull apply target sc since_ts epoch_floors now lag s =
    (if (target, sc) \<in> pulling then Some (True, s, None)
     else case pull_loop pull apply \<lparr>pr_scope = sc, pr_after = None, pr_since_ts = since_ts, pr_epoch_floors = epoch_floors\<rparr>
         0 (- 1) 0 s of
       None \<Rightarrow> None
     | Some (Pull_Unanswered, s') \<Rightarrow> Some (False, s', None)
     | Some (Pull_Failed, s') \<Rightarrow> Some (True, s', None)
     | Some (Pull_Done pages oldest, s') \<Rightarrow> Some (True, s', pull_announce pages oldest now lag))"

section \<open>Coverage\<close>

definition version_range :: "scope \<Rightarrow> u64 \<Rightarrow> tx_error + bytes \<times> bytes" where
  "version_range sc ts = lift_key (key_range (sync_point_prefix sc (Some ts)))"

fun verify_loop :: "'s engine \<Rightarrow> sync_meta postcard \<Rightarrow> 's \<Rightarrow> scope \<Rightarrow> (u64 \<times> u64) list \<Rightarrow> tx_error + bool" where
  "verify_loop K P s sc [] = Inr True"
| "verify_loop K P s sc ((ts, epoch) # heads) =
    and_then (version_range sc ts) (\<lambda>(lower, upper).
      and_then (find_sync_points_while K P s lower upper
          (\<lambda>held sp sm. let held' = (sp_epoch sp \<ge> epoch) in Inr (\<not> held', held')) False)
        (\<lambda>held. if \<not> held then Inr False else verify_loop K P s sc heads))"

definition verify_coverage :: "'s engine \<Rightarrow> sync_meta postcard \<Rightarrow> tx_error + 's \<Rightarrow> subject \<Rightarrow> scope \<Rightarrow> (u64 \<times> u64) list
    \<Rightarrow> tx_error + bool" where
  "verify_coverage K P opened subject sc heads =
    (if \<not> subject_contains subject sc then Inr False else and_then opened (\<lambda>s. verify_loop K P s sc heads))"

text \<open>The pages of \<open>chunks(n)\<close>.\<close>

fun pages_of :: "nat \<Rightarrow> 'a list \<Rightarrow> 'a list list" where
  "pages_of n xs = (if n = 0 \<or> xs = [] then [] else take n xs # pages_of n (drop n xs))"

declare pages_of.simps [simp del]

fun verify_pages :: "(scope \<Rightarrow> (u64 \<times> u64) list \<Rightarrow> bool option) \<Rightarrow> scope \<Rightarrow> (u64 \<times> u64) list list \<Rightarrow> bool option" where
  "verify_pages verify sc [] = Some True"
| "verify_pages verify sc (page # pages) =
    (case verify sc page of
       None \<Rightarrow> None
     | Some covered \<Rightarrow> if \<not> covered then Some False else verify_pages verify sc pages)"

definition held_heads :: "'s engine \<Rightarrow> sync_meta postcard \<Rightarrow> tx_error + 's \<Rightarrow> scope \<Rightarrow> tx_error + (u64 \<times> u64) list" where
  "held_heads K P opened sc =
    and_then opened (\<lambda>s. and_then (scope_points_range sc) (\<lambda>(lower, upper).
      collect_latest_heads K P s lower upper (\<lambda>heads (_, (epoch, ts, _), _). Inr (heads @ [(ts, epoch)])) []))"

definition confirm_covered_by :: "'s engine \<Rightarrow> sync_meta postcard \<Rightarrow> tx_error + 's \<Rightarrow> (scope \<Rightarrow> (u64 \<times> u64) list \<Rightarrow> bool option)
    \<Rightarrow> scope \<Rightarrow> bool option" where
  "confirm_covered_by K P opened verify sc =
    (case held_heads K P opened sc of
       Inl _ \<Rightarrow> None
     | Inr heads \<Rightarrow> verify_pages verify sc (pages_of 2048 heads))"

text \<open>\<open>Store::scope_heads\<close>: the heads of a scope by version.\<close>

definition scope_heads :: "'s engine \<Rightarrow> sync_meta postcard \<Rightarrow> tx_error + 's \<Rightarrow> scope \<Rightarrow> tx_error + scope_frontier" where
  "scope_heads K P opened sc =
    and_then opened (\<lambda>s. and_then (scope_points_range sc) (\<lambda>(lower, upper).
      collect_latest_heads K P s lower upper (\<lambda>frontier (_, (epoch, ts, node), _). Inr (bt_insert ts (epoch, node) frontier)) []))"

end
