(* ===== verification/Replication_Spec.thy ===== *)
theory Replication_Spec
  imports Replication
begin

text \<open>
  What catching up achieves. The pages a peer pulls are the one changeset a broadcast would carry,
  cut into pieces, and there are finitely many of them; a peer that applies them, in transactions
  that may conflict and be retried, then holds every sync point it lacked.
\<close>

section \<open>Serving\<close>

fun while_res :: "('c \<Rightarrow> 'a \<Rightarrow> 'e + bool \<times> 'c) \<Rightarrow> 'c \<Rightarrow> 'a list \<Rightarrow> 'e + 'c" where
  "while_res f c [] = Inr c"
| "while_res f c (x # xs) = and_then (f c x) (\<lambda>(go, c'). if \<not> go then Inr c' else while_res f c' xs)"

lemma sync_points_while_run:
  assumes "metas_wf P m" "\<forall>sp\<in>set pts. point_in m sp"
  shows "sync_points_while_loop P func c (map (point_entry m) pts)
    = while_res (\<lambda>c x. func c (fst x) (snd x)) c (map (with_meta P m) pts)"
  using assms(2)
proof (induction pts arbitrary: c)
  case (Cons sp pts)
  obtain k v where kv: "point_entry m sp = (k, v)" by force
  then have "decode_point k = Inr sp" "decode_meta P v = Inr (the (point_meta P m sp))"
    using point_step [OF assms(1), of sp] Cons.prems by auto
  then show ?case using Cons by (simp add: kv with_meta_def cong: if_cong)
qed simp

text \<open>The chunk a holder makes of one of its sync points.\<close>

definition point_chunk :: "'s engine \<Rightarrow> sync_meta postcard \<Rightarrow> 's \<Rightarrow> sync_point \<Rightarrow> chunk" where
  "point_chunk K P s sp = projr (snapshot_chunk K s sp (the (point_meta P (ks_get K s) sp)))"

definition wanted :: "pull_request \<Rightarrow> sync_point \<Rightarrow> bool" where
  "wanted req sp \<longleftrightarrow> pr_after req \<noteq> Some (as_id sp) \<and> \<not> skips (pr_since_ts req) (pr_epoch_floors req) (sp_ts sp) (sp_epoch sp)"

text \<open>A page: some of the wanted points, at least one if there are any, and a cursor if some are left.\<close>

definition page_of :: "('p \<Rightarrow> chunk) \<Rightarrow> 'p list \<Rightarrow> nat \<Rightarrow> chunk list \<times> sync_point_id option" where
  "page_of g ws n = (map g (take n ws), if n < length ws then Some (ch_id (g (ws ! (n - 1)))) else None)"

lemma sorted_points_unique:
  assumes "sorted_wrt (\<lambda>a b. sync_point_bytes a < sync_point_bytes b) xs" "sorted_wrt (\<lambda>a b. sync_point_bytes a < sync_point_bytes b) ys"
    and "set xs = set ys" "\<forall>sp\<in>set ys. sync_point_ok sp"
  shows "xs = ys"
proof -
  have "map sync_point_bytes xs = map sync_point_bytes ys"
    using assms(1-3) by (intro strict_sorted_equal) (auto simp: sorted_wrt_map)
  moreover have "inj_on sync_point_bytes (set xs \<union> set ys)"
    using assms(3,4) sync_point_bytes_inject by (intro inj_onI) auto
  ultimately show ?thesis by (rule map_inj_on)
qed

context api_store
begin

lemma point_chunk:
  assumes "store_ok domain_keys P (ks_get K s)" "point_in (ks_get K s) sp"
  shows "snapshot_chunk K s sp (the (point_meta P (ks_get K s) sp)) = Inr (point_chunk K P s sp)"
    and "chunk_of_point P (ks_get K s) sp (point_chunk K P s sp)"
  by (rule snapshot_chunk_run [OF assms], simp add: point_chunk_def)+

lemma point_chunk_id [simp]:
  "store_ok domain_keys P (ks_get K s) \<Longrightarrow> point_in (ks_get K s) sp \<Longrightarrow> ch_id (point_chunk K P s sp) = as_id sp"
  using point_chunk(2) by (simp add: chunk_of_point_def)

lemma serve_step_skip: "\<not> wanted req sp \<Longrightarrow> serve_step K s req page_bytes st sp sm = Inr (True, st)"
  by (cases st) (auto simp: serve_step_def wanted_def Let_def)

lemma serve_step_full:
  "wanted req sp \<Longrightarrow> chunks \<noteq> [] \<Longrightarrow> page_bytes \<le> filled
    \<Longrightarrow> serve_step K s req page_bytes (chunks, filled, next) sp sm = Inr (False, (chunks, filled, Some (ch_id (last chunks))))"
  by (auto simp: serve_step_def wanted_def Let_def)

lemma serve_step_push:
  assumes "store_ok domain_keys P (ks_get K s)" "point_in (ks_get K s) sp" "sp_scope sp = pr_scope req" "wanted req sp"
    "\<not> (chunks \<noteq> [] \<and> page_bytes \<le> filled)"
  obtains filled' where "serve_step K s req page_bytes (chunks, filled, next) sp (the (point_meta P (ks_get K s) sp))
    = Inr (True, (chunks @ [point_chunk K P s sp], filled', next))"
  using assms point_chunk(1) [OF assms(1,2)] by (auto simp: serve_step_def wanted_def Let_def)

lemma serve_loop:
  assumes ok: "store_ok domain_keys P (ks_get K s)"
    and pts: "\<forall>sp\<in>set pts. point_in (ks_get K s) sp \<and> sp_scope sp = pr_scope req"
  shows "\<exists>n filled'. while_res (\<lambda>st x. serve_step K s req page_bytes st (fst x) (snd x)) (chunks, filled, None)
      (map (with_meta P (ks_get K s)) pts)
    = Inr (chunks @ map (point_chunk K P s) (take n (filter (wanted req) pts)), filled',
        if n < length (filter (wanted req) pts)
        then Some (ch_id (last (chunks @ map (point_chunk K P s) (take n (filter (wanted req) pts))))) else None)
    \<and> n \<le> length (filter (wanted req) pts) \<and> (chunks = [] \<longrightarrow> filter (wanted req) pts \<noteq> [] \<longrightarrow> 0 < n)"
  using pts
proof (induction pts arbitrary: chunks filled)
  case Nil
  then show ?case by simp
next
  case (Cons sp pts)
  let ?f = "\<lambda>st x. serve_step K s req page_bytes st (fst x) (snd x)" and ?m = "ks_get K s" and ?g = "point_chunk K P s"
  have sp: "point_in ?m sp" "sp_scope sp = pr_scope req" and rest: "\<forall>sp\<in>set pts. point_in ?m sp \<and> sp_scope sp = pr_scope req"
    using Cons.prems by auto
  have x: "with_meta P ?m sp = (sp, the (point_meta P ?m sp))" by (simp add: with_meta_def)
  consider (skip) "\<not> wanted req sp" | (full) "wanted req sp" "chunks \<noteq> []" "page_bytes \<le> filled"
    | (push) "wanted req sp" "\<not> (chunks \<noteq> [] \<and> page_bytes \<le> filled)" by blast
  then show ?case
  proof cases
    case skip
    then have "filter (wanted req) (sp # pts) = filter (wanted req) pts"
      "while_res ?f (chunks, filled, None) (map (with_meta P ?m) (sp # pts)) = while_res ?f (chunks, filled, None) (map (with_meta P ?m) pts)"
      using serve_step_skip [OF skip] by (simp_all add: x)
    then show ?thesis using Cons.IH [OF rest, of chunks filled] by (simp only:)
  next
    case full
    then show ?thesis using serve_step_full [OF full] by (intro exI [of _ 0] exI [of _ filled]) (simp add: x)
  next
    case push
    obtain filled1 where step: "serve_step K s req page_bytes (chunks, filled, None) sp (the (point_meta P ?m sp))
        = Inr (True, (chunks @ [?g sp], filled1, None))"
      by (rule serve_step_push [OF ok sp push])
    obtain n filled2 where "while_res ?f (chunks @ [?g sp], filled1, None) (map (with_meta P ?m) pts)
      = Inr ((chunks @ [?g sp]) @ map ?g (take n (filter (wanted req) pts)), filled2,
          if n < length (filter (wanted req) pts)
          then Some (ch_id (last ((chunks @ [?g sp]) @ map ?g (take n (filter (wanted req) pts))))) else None)"
      "n \<le> length (filter (wanted req) pts)"
      using Cons.IH [OF rest, of "chunks @ [?g sp]" filled1] by blast
    then show ?thesis using step push(1) by (intro exI [of _ "Suc n"] exI [of _ filled2]) (simp add: x)
  qed
qed

text \<open>The points a request for a scope is served from, and those still to come behind its cursor.\<close>

definition left_over :: "sync_point list \<Rightarrow> pull_request \<Rightarrow> sync_point list \<Rightarrow> bool" where
  "left_over pts req ws \<longleftrightarrow>
    (let all = filter (\<lambda>sp. \<not> skips (pr_since_ts req) (pr_epoch_floors req) (sp_ts sp) (sp_epoch sp)) pts
     in case pr_after req of
          None \<Rightarrow> ws = all
        | Some ident \<Rightarrow> \<exists>before p. all = before @ p # ws \<and> ident = as_id p)"

lemma left_over_subset: "left_over pts req ws \<Longrightarrow> set ws \<subseteq> set pts"
  by (auto simp: left_over_def Let_def split: option.splits dest!: arg_cong [of "filter _ _" _ set])

lemma left_over_next:
  assumes "left_over pts req ws" "ws = front @ p # rest"
  shows "left_over pts (req\<lparr>pr_after := Some (as_id p)\<rparr>) rest"
  using assms by (auto simp: left_over_def Let_def split: option.splits) (metis append_Cons append_assoc)

lemma sorted_filter_after:
  assumes "sorted_wrt (\<lambda>a b. h a < (h b :: 'a::linorder)) (before @ p # ws)"
  shows "filter (\<lambda>x. h p \<le> h x) (before @ p # ws) = p # ws"
  using assms by (auto simp: sorted_wrt_append filter_empty_conv not_le less_imp_le intro: filter_True)

lemma range_from:
  assumes "in_range lower (Some upper) lower'"
  shows "ks_range K s lower' (Some upper) = filter (\<lambda>e. lower' \<le> fst e) (ks_range K s lower (Some upper))"
proof -
  have "sorted_entries (ks_get K s) (in_range lower' (Some upper)) (filter (\<lambda>e. lower' \<le> fst e) (ks_range K s lower (Some upper)))"
    using range_entries [of s lower "Some upper"] assms
    by (auto simp: sorted_entries_def in_range_def sorted_wrt_map sorted_wrt_filter)
  then show ?thesis using sorted_entries_unique [OF range_entries] by blast
qed

lemma cursor_bytes:
  assumes "sync_point_ok p" "sp_scope p = sc"
  shows "lift_enc (sync_point_key (with_sp_id sc (as_id p))) = Inr (sync_point_bytes p)"
  using assms sync_point_key_form [of p] by (simp add: sync_point_ok_def)

lemma last_take_map: "0 < n \<Longrightarrow> n \<le> length ws \<Longrightarrow> last (map g (take n ws)) = g (ws ! (n - 1))"
  by (subst last_conv_nth) (auto simp: min_def)

text \<open>The range a request scans, and the wanted points in it.\<close>

lemma serve_range:
  assumes ok: "store_ok domain_keys P (ks_get K s)" and r: "point_range lower upper (\<lambda>x. x = sc)"
    and pts: "ks_range K s lower (Some upper) = map (point_entry (ks_get K s)) pts"
      "sorted_wrt (\<lambda>a b. sync_point_bytes a < sync_point_bytes b) pts" "set pts = {sp. point_in (ks_get K s) sp \<and> sp_scope sp = sc}"
    and req: "pr_scope req = sc" and left: "left_over pts req ws"
  shows "\<exists>lower' vs. (case pr_after req of None \<Rightarrow> Inr lower | Some ident \<Rightarrow> lift_enc (sync_point_key (with_sp_id sc ident))) = Inr lower'
    \<and> ks_range K s lower' (Some upper) = map (point_entry (ks_get K s)) vs \<and> set vs \<subseteq> set pts \<and> filter (wanted req) vs = ws"
proof (cases "pr_after req")
  case None
  then show ?thesis using pts(1) left by (intro exI [of _ lower] exI [of _ pts]) (auto simp: left_over_def wanted_def intro!: filter_cong)
next
  case (Some ident)
  let ?Q = "\<lambda>sp. \<not> skips (pr_since_ts req) (pr_epoch_floors req) (sp_ts sp) (sp_epoch sp)"
  obtain before p where p: "filter ?Q pts = before @ p # ws" "ident = as_id p" using left Some by (auto simp: left_over_def)
  have "p \<in> set (filter ?Q pts)" unfolding p(1) by simp
  then have "p \<in> set pts" by simp
  then have ps: "point_in (ks_get K s) p" "sp_scope p = sc" using pts(3) by auto
  then have "in_range lower (Some upper) (sync_point_bytes p)" using r by (simp add: point_range_def point_in_def)
  then have rng: "ks_range K s (sync_point_bytes p) (Some upper)
      = map (point_entry (ks_get K s)) (filter (\<lambda>q. sync_point_bytes p \<le> sync_point_bytes q) pts)"
    using range_from pts(1) by (simp add: filter_map point_entry_def comp_def)
  have "sorted_wrt (\<lambda>a b. sync_point_bytes a < sync_point_bytes b) (before @ p # ws)"
    using pts(2) p(1) by (metis sorted_wrt_filter)
  then have sorted: "filter (\<lambda>q. sync_point_bytes p \<le> sync_point_bytes q) (before @ p # ws) = p # ws" "p \<notin> set ws"
    using sorted_filter_after [of sync_point_bytes before p ws] by (auto simp: sorted_wrt_append)
  have ids: "as_id p = as_id q \<longleftrightarrow> p = q" if "q \<in> set pts" for q
  proof -
    have "with_sp_id sc (as_id p) = p" "with_sp_id sc (as_id q) = q" using that pts(3) ps(2) by simp_all
    then show ?thesis by metis
  qed
  have "filter (wanted req) (filter (\<lambda>q. sync_point_bytes p \<le> sync_point_bytes q) pts)
      = filter (\<lambda>q. p \<noteq> q) (filter (\<lambda>q. sync_point_bytes p \<le> sync_point_bytes q) (filter ?Q pts))"
    using Some p(2) ids by (auto simp: wanted_def conj_commute conj_left_commute intro!: filter_cong)
  also have "\<dots> = ws" using p(1) sorted by (auto intro: filter_True)
  finally show ?thesis
    using Some p(2) rng ps cursor_bytes [of p sc]
    by (intro exI [of _ "sync_point_bytes p"] exI [of _ "filter (\<lambda>q. sync_point_bytes p \<le> sync_point_bytes q) pts"])
      (auto simp: point_in_def)
qed

lemma serve_pull_run:
  assumes ok: "store_ok domain_keys P (ks_get K s)" and sc: "scope_ok (pr_scope req)" and subj: "subject_contains subject (pr_scope req)"
    and pts: "sorted_wrt (\<lambda>a b. sync_point_bytes a < sync_point_bytes b) pts"
      "set pts = {sp. point_in (ks_get K s) sp \<and> sp_scope sp = pr_scope req}"
    and left: "left_over pts req ws"
  shows "\<exists>n. serve_pull K P (Inr s) subject req page_bytes = Inr (page_of (point_chunk K P s) ws n)
    \<and> n \<le> length ws \<and> (ws \<noteq> [] \<longrightarrow> 0 < n)"
proof -
  let ?m = "ks_get K s"
  obtain lower upper where r: "scope_points_range (pr_scope req) = Inr (lower, upper)" "point_range lower upper (\<lambda>x. x = pr_scope req)"
    by (rule scope_points_range_ok [OF sc])
  obtain pts' where pts': "ks_range K s lower (Some upper) = map (point_entry ?m) pts'"
    "sorted_wrt (\<lambda>a b. sync_point_bytes a < sync_point_bytes b) pts'" "set pts' = {sp. point_in ?m sp \<and> sp_scope sp = pr_scope req}"
    by (rule range_points [OF store_ok_wf [OF ok] r(2)])
  have "pts' = pts" by (rule sorted_points_unique [OF pts'(2) pts(1)]) (use pts(2) pts'(3) in \<open>auto simp: point_in_def\<close>)
  then obtain lower' vs where vs: "(case pr_after req of None \<Rightarrow> Inr lower
      | Some ident \<Rightarrow> lift_enc (sync_point_key (with_sp_id (pr_scope req) ident))) = Inr lower'"
    "ks_range K s lower' (Some upper) = map (point_entry ?m) vs" "set vs \<subseteq> set pts" "filter (wanted req) vs = ws"
    using serve_range [OF ok r(2) pts' refl] left by blast
  have in_vs: "\<forall>sp\<in>set vs. point_in ?m sp \<and> sp_scope sp = pr_scope req" using vs(3) pts(2) by blast
  obtain n filled where n: "while_res (\<lambda>st x. serve_step K s req page_bytes st (fst x) (snd x)) ([], 0, None) (map (with_meta P ?m) vs)
    = Inr (map (point_chunk K P s) (take n ws), filled,
        if n < length ws then Some (ch_id (last (map (point_chunk K P s) (take n ws)))) else None)"
    "n \<le> length ws" "ws \<noteq> [] \<longrightarrow> 0 < n"
    using serve_loop [OF ok in_vs, of page_bytes "[]" 0, unfolded vs(4) append_Nil] by blast
  have "find_sync_points_while K P s lower' upper (serve_step K s req page_bytes) ([], 0, None)
      = while_res (\<lambda>st x. serve_step K s req page_bytes st (fst x) (snd x)) ([], 0, None) (map (with_meta P ?m) vs)"
    unfolding find_sync_points_while_def vs(2) using ok in_vs by (intro sync_points_while_run) (auto simp: store_ok_def)
  then have "serve_pull K P (Inr s) subject req page_bytes = Inr (page_of (point_chunk K P s) ws n)"
    using subj r(1) vs(1) n last_take_map [of n ws "point_chunk K P s"]
    by (auto simp: serve_pull_def page_of_def)
  then show ?thesis using n(2,3) by blast
qed

section \<open>Pulling\<close>

text \<open>
  The pull ends. \<open>I ds s\<close> says what is known of the puller's store \<open>s\<close> once the chunks of the
  points \<open>ds\<close> are applied; every page keeps it.
\<close>

lemma pull_loop_run:
  assumes ok: "store_ok domain_keys P (ks_get K s)" and sc: "scope_ok (pr_scope req)" and subj: "subject_contains subject (pr_scope req)"
    and pts: "sorted_wrt (\<lambda>a b. sync_point_bytes a < sync_point_bytes b) pts"
      "set pts = {sp. point_in (ks_get K s) sp \<and> sp_scope sp = pr_scope req}"
    and left: "left_over pts req ws"
    and step: "\<And>ds ps i r. I ds r \<Longrightarrow> set ps \<subseteq> set pts \<Longrightarrow> distinct (ds @ ps) \<Longrightarrow>
      \<exists>r' i'. ap (map (point_chunk K P s) ps) i r = (Inr r', i') \<and> I (ds @ ps) r'"
    and init: "I ds r" "distinct (ds @ ws)"
  shows "\<exists>n old r'. pull_loop (\<lambda>q. case serve_pull K P (Inr s) subject q page_bytes of Inl _ \<Rightarrow> None | Inr page \<Rightarrow> Some page)
      ap req pages oldest i r = Some (Pull_Done n old, r') \<and> I (ds @ ws) r'"
  using sc subj pts left init
proof (induction "length ws" arbitrary: ws req pages oldest i r ds rule: less_induct)
  case less
  let ?g = "point_chunk K P s"
  let ?pull = "\<lambda>q. case serve_pull K P (Inr s) subject q page_bytes of Inl _ \<Rightarrow> None | Inr page \<Rightarrow> Some page"
  obtain n where n: "serve_pull K P (Inr s) subject req page_bytes = Inr (page_of ?g ws n)" "n \<le> length ws" "ws \<noteq> [] \<longrightarrow> 0 < n"
    using serve_pull_run [OF ok less.prems(1-5), of page_bytes] by blast
  have sub: "set ws \<subseteq> set pts" using less.prems(5) left_over_subset by blast
  then have "set (take n ws) \<subseteq> set pts" using set_take_subset [of n ws] by blast
  moreover have d: "distinct ((ds @ take n ws) @ drop n ws)" using less.prems(7) by simp
  ultimately obtain r1 i1 where r1: "ap (map ?g (take n ws)) i r = (Inr r1, i1)" "I (ds @ take n ws) r1"
    using step [OF less.prems(6)] by (meson distinct_append)
  show ?case
  proof (cases "n < length ws")
    case False
    then have "take n ws = ws" by simp
    then show ?thesis using n(1) r1 False by (subst pull_loop.simps) (simp add: page_of_def)
  next
    case True
    then have pos: "0 < n" using n(3) by auto
    let ?p = "ws ! (n - 1)" and ?ws = "drop n ws"
    let ?req = "req\<lparr>pr_after := Some (as_id ?p)\<rparr>"
    have ws: "ws = take (n - 1) ws @ ?p # ?ws" using pos n(2) id_take_nth_drop [of "n - 1" ws] by simp
    have "?p \<in> set ws" using pos n(2) by (intro nth_mem) simp
    then have "ch_id (?g ?p) = as_id ?p" using ok sub less.prems(4) by auto
    then have page: "page_of ?g ws n = (map ?g (take n ws), Some (as_id ?p))" using True by (simp add: page_of_def)
    have "length ?ws < length ws" "left_over pts ?req ?ws" "scope_ok (pr_scope ?req)" "subject_contains subject (pr_scope ?req)"
      "set pts = {sp. point_in (ks_get K s) sp \<and> sp_scope sp = pr_scope ?req}"
      using pos n(2) left_over_next [OF less.prems(5) ws] less.prems(1,2,4) by simp_all
    note IH = less.hyps [OF this(1,3,4) less.prems(3) this(5,2) r1(2) d]
    obtain k old r' where
      "pull_loop ?pull ap ?req (Suc pages) (oldest_of (map ?g (take n ws)) oldest) i1 r1 = Some (Pull_Done k old, r')"
      "I ((ds @ take n ws) @ ?ws) r'"
      using IH by blast
    then show ?thesis using n(1) r1(1) page by (subst pull_loop.simps) simp
  qed
qed

end

section \<open>Inserting what was served\<close>

text \<open>Metadata that decodes to values of its types.\<close>

definition metas_typed :: "sync_meta postcard \<Rightarrow> rows \<Rightarrow> bool" where
  "metas_typed P m \<longleftrightarrow> (\<forall>sp sm. point_in m sp \<longrightarrow> point_meta P m sp = Some sm \<longrightarrow> meta_ok sm)"

definition point_marker :: "sync_meta postcard \<Rightarrow> rows \<Rightarrow> sync_point \<Rightarrow> sync_marker" where
  "point_marker P m sp = sm_marker (the (point_meta P m sp))"

text \<open>The points a store has once those of \<open>ds\<close> were inserted, and its rows if it had none before.\<close>

definition points_after :: "scope \<Rightarrow> rows \<Rightarrow> sync_point list \<Rightarrow> rows \<Rightarrow> bool" where
  "points_after sc m0 ds m' \<longleftrightarrow> (\<forall>sq. sp_scope sq = sc \<longrightarrow> (point_in m' sq \<longleftrightarrow> point_in m0 sq \<or> sq \<in> set ds))"

definition version_value :: "sync_meta postcard \<Rightarrow> rows \<Rightarrow> sync_point list \<Rightarrow> u64 \<Rightarrow> bytes \<Rightarrow> bytes option option" where
  "version_value P m ds t uk =
    (case find (\<lambda>p. sp_ts p = t) (rev ds) of
       None \<Rightarrow> None
     | Some p \<Rightarrow> if point_marker P m p = Sm_Mutation then mv m uk t else None)"

definition rows_after :: "sync_meta postcard \<Rightarrow> scope \<Rightarrow> rows \<Rightarrow> sync_point list \<Rightarrow> rows \<Rightarrow> bool" where
  "rows_after P sc m ds m' \<longleftrightarrow> (\<forall>uk\<in>domain_keys. in_scope sc uk \<longrightarrow> (\<forall>t. mv m' uk t = version_value P m ds t uk))"

lemma version_value_snoc:
  "version_value P m (ds @ [p]) t uk =
    (if sp_ts p = t then if point_marker P m p = Sm_Mutation then mv m uk t else None else version_value P m ds t uk)"
  by (simp add: version_value_def)

lemma version_value_cases: "version_value P m ds t uk = None \<or> version_value P m ds t uk = mv m uk t"
  by (auto simp: version_value_def split: option.split)

context api_store
begin

lemma insert_chunk_run:
  assumes src: "store_ok domain_keys P (ks_get K s)" "metas_typed P (ks_get K s)"
    and p: "point_in (ks_get K s) p" "sp_scope p = sc" and ok: "store_ok domain_keys P (ks_get K (tx_ks tx))"
    and new: "\<not> point_in (ks_get K (tx_ks tx)) p"
  obtains s' where "insert_chunk K P sc (point_chunk K P s p) tx = (Inr True, tx\<lparr>tx_ks := s'\<rparr>)" "store_ok domain_keys P (ks_get K s')"
    "\<And>sq. point_in (ks_get K s') sq \<longleftrightarrow> point_in (ks_get K (tx_ks tx)) sq \<or> sq = p"
    "\<And>uk t. uk \<in> domain_keys \<Longrightarrow> in_scope sc uk \<Longrightarrow> mv (ks_get K s') uk t = (if t = sp_ts p
        then if point_marker P (ks_get K s) p = Sm_Mutation then merged (mv (ks_get K (tx_ks tx)) uk t) (mv (ks_get K s) uk t) else None
        else mv (ks_get K (tx_ks tx)) uk t)"
proof -
  let ?m = "ks_get K s" and ?c = "point_chunk K P s p"
  have c: "ch_id ?c = as_id p" "point_meta P ?m p = Some (ch_meta ?c)"
    "case sm_marker (ch_meta ?c) of Sm_Deletion \<Rightarrow> ch_entries ?c = [] | Sm_Mutation \<Rightarrow> changes_at ?m sc (sp_ts p) (ch_entries ?c)"
    using point_chunk(2) [OF src(1) p(1)] p(2) by (auto simp: chunk_of_point_def)
  have sm: "meta_ok (ch_meta ?c)" "point_marker P ?m p = sm_marker (ch_meta ?c)"
    using src(2) p(1) c(2) by (auto simp: metas_typed_def point_marker_def)
  have sp: "sync_point_ok p" "with_sp_id sc (as_id p) = p" using p by (simp_all add: point_in_def)
  have added: "point_in m' sq \<longleftrightarrow> point_in (ks_get K (tx_ks tx)) sq \<or> sq = p"
    if "point_added p (ch_meta ?c) (ks_get K (tx_ks tx)) m'" for m' sq
    using that by (auto simp: point_added_def point_in_def)
  show thesis
  proof (cases "sm_marker (ch_meta ?c)")
    case Sm_Mutation
    then have ch: "changes_at ?m sc (sp_ts p) (ch_entries ?c)" using c(3) by simp
    then have es: "fst ` set (ch_entries ?c) \<subseteq> domain_keys" "distinct (map fst (ch_entries ?c))" by (auto simp: changes_at_def)
    obtain s' where s': "insert_changeset K P p (ch_meta ?c) (ch_entries ?c) tx = (Inr True, tx\<lparr>tx_ks := s'\<rparr>)"
      "store_ok domain_keys P (ks_get K s')" "point_added p (ch_meta ?c) (ks_get K (tx_ks tx)) (ks_get K s')"
      "\<And>uk t. uk \<in> domain_keys \<Longrightarrow> mv (ks_get K s') uk t = (if t = sp_ts p
        then merged (mv (ks_get K (tx_ks tx)) uk t) (map_of (ch_entries ?c) uk) else mv (ks_get K (tx_ks tx)) uk t)"
      by (rule insert_changeset_mutation [OF ok sp(1) sm(1) Sm_Mutation new es]) (rule that, assumption, assumption, assumption, simp)
    then show thesis using that [of s'] added [OF s'(3)] changes_at_map_of [OF ch] c(1) sp(2) sm(2) Sm_Mutation
      by (simp add: insert_chunk_def)
  next
    case Sm_Deletion
    obtain s' where s': "insert_changeset K P p (ch_meta ?c) (ch_entries ?c) tx = (Inr True, tx\<lparr>tx_ks := s'\<rparr>)"
      "store_ok domain_keys P (ks_get K s')" "point_added p (ch_meta ?c) (ks_get K (tx_ks tx)) (ks_get K s')"
      "\<And>uk t. uk \<in> domain_keys \<Longrightarrow> mv (ks_get K s') uk t =
        (if t = sp_ts p \<and> in_scope (sp_scope p) uk then None else mv (ks_get K (tx_ks tx)) uk t)"
      by (rule insert_changeset_deletion [OF ok sp(1) sm(1) Sm_Deletion new, of "ch_entries ?c"]) (rule that, assumption, assumption, assumption, simp)
    then show thesis using that [of s'] added [OF s'(3)] c(1) sp(2) sm(2) Sm_Deletion p(2)
      by (simp add: insert_chunk_def)
  qed
qed

lemma insert_chunk_again:
  assumes "store_ok domain_keys P (ks_get K s)" "point_in (ks_get K s) p" "sp_scope p = sc"
    and "store_ok domain_keys P (ks_get K (tx_ks tx))" "point_in (ks_get K (tx_ks tx)) p"
  shows "insert_chunk K P sc (point_chunk K P s p) tx = (Inr False, tx)"
  using assms insert_changeset_start [OF assms(4), of p] by (simp add: insert_chunk_def point_in_def)

end

text \<open>A scope that has no sync points and no rows; other writers that leave a scope alone; commits that succeed in time.\<close>

definition fresh :: "rows \<Rightarrow> scope \<Rightarrow> bool" where
  "fresh m sc \<longleftrightarrow> (\<forall>sq. sp_scope sq = sc \<longrightarrow> \<not> point_in m sq)
    \<and> (\<forall>uk\<in>domain_keys. in_scope sc uk \<longrightarrow> (\<forall>t. mv m uk t = None))"

definition scope_same :: "scope \<Rightarrow> rows \<Rightarrow> rows \<Rightarrow> bool" where
  "scope_same sc m m' \<longleftrightarrow> (\<forall>sq. sp_scope sq = sc \<longrightarrow> point_in m sq = point_in m' sq)
    \<and> (\<forall>uk\<in>domain_keys. in_scope sc uk \<longrightarrow> (\<forall>t. mv m uk t = mv m' uk t))"

definition calm :: "'s engine \<Rightarrow> sync_meta postcard \<Rightarrow> scope \<Rightarrow> 's world \<Rightarrow> bool" where
  "calm K P sc W \<longleftrightarrow> (\<forall>i s. store_ok domain_keys P (ks_get K s) \<longrightarrow>
    (\<exists>tx. w_begin W i s = Inr tx \<and> tx_inv K P tx \<and> active_scopes tx = [] \<and> scope_same sc (ks_get K s) (ks_get K (tx_ks tx))))"

definition commits_within :: "'s world \<Rightarrow> nat \<Rightarrow> nat \<Rightarrow> bool" where
  "commits_within W n i \<longleftrightarrow> (\<exists>j<n. w_outcome W (i + j) = Committed \<and> (\<forall>k<j. w_outcome W (i + k) = Conflicted))"

lemma commits_within_step:
  "commits_within W (Suc n) i \<Longrightarrow> w_outcome W i = Committed \<or> w_outcome W i = Conflicted \<and> commits_within W n (Suc i)"
proof -
  assume "commits_within W (Suc n) i"
  then obtain j where j: "j < Suc n" "w_outcome W (i + j) = Committed" "\<forall>k<j. w_outcome W (i + k) = Conflicted"
    by (auto simp: commits_within_def)
  show ?thesis
  proof (cases j)
    case 0
    then show ?thesis using j(2) by simp
  next
    case (Suc l)
    then have "w_outcome W i = Conflicted" using j(3) by (metis add_0_right zero_less_Suc)
    moreover have "\<forall>k<l. w_outcome W (Suc i + k) = Conflicted" using j(3) Suc by (metis Suc_less_eq add_Suc_shift)
    ultimately show ?thesis using j(1,2) Suc by (auto simp: commits_within_def intro!: exI [of _ l])
  qed
qed

lemma points_after_same: "points_after sc m0 ds m \<Longrightarrow> scope_same sc m m' \<Longrightarrow> points_after sc m0 ds m'"
  by (simp add: points_after_def scope_same_def)

lemma rows_after_same: "rows_after P sc m ds m1 \<Longrightarrow> scope_same sc m1 m' \<Longrightarrow> rows_after P sc m ds m'"
  by (simp add: rows_after_def scope_same_def)

text \<open>What is known of the puller's store: see \<open>pull_loop_run\<close>.\<close>

definition pulled :: "'s engine \<Rightarrow> sync_meta postcard \<Rightarrow> scope \<Rightarrow> rows \<Rightarrow> rows \<Rightarrow> sync_point list \<Rightarrow> 's \<Rightarrow> bool" where
  "pulled K P sc m m0 ds s' \<longleftrightarrow> store_ok domain_keys P (ks_get K s') \<and> points_after sc m0 ds (ks_get K s')
    \<and> (fresh m0 sc \<longrightarrow> rows_after P sc m ds (ks_get K s'))"

lemma pulled_same:
  "pulled K P sc m m0 ds s \<Longrightarrow> scope_same sc (ks_get K s) (ks_get K s') \<Longrightarrow> store_ok domain_keys P (ks_get K s')
    \<Longrightarrow> pulled K P sc m m0 ds s'"
  using points_after_same rows_after_same by (auto simp: pulled_def)

context api_store
begin

lemma pulled_chunk:
  assumes src: "store_ok domain_keys P (ks_get K s)" "metas_typed P (ks_get K s)"
    and p: "point_in (ks_get K s) p" "sp_scope p = sc" and inv: "pulled K P sc (ks_get K s) m0 ds (tx_ks tx)" and d: "distinct (ds @ [p])"
  shows "\<exists>b s'. insert_chunk K P sc (point_chunk K P s p) tx = (Inr b, tx\<lparr>tx_ks := s'\<rparr>) \<and> pulled K P sc (ks_get K s) m0 (ds @ [p]) s'"
proof (cases "point_in (ks_get K (tx_ks tx)) p")
  case True
  have "\<not> fresh m0 sc" using True inv p(2) d by (auto simp: pulled_def points_after_def fresh_def)
  then have "pulled K P sc (ks_get K s) m0 (ds @ [p]) (tx_ks tx)"
    using inv True p(2) by (auto simp: pulled_def points_after_def)
  then show ?thesis using insert_chunk_again [OF src(1) p _ True] inv
    by (intro exI [of _ False] exI [of _ "tx_ks tx"]) (simp add: pulled_def)
next
  case False
  have ok: "store_ok domain_keys P (ks_get K (tx_ks tx))" using inv by (simp add: pulled_def)
  obtain s' where s': "insert_chunk K P sc (point_chunk K P s p) tx = (Inr True, tx\<lparr>tx_ks := s'\<rparr>)" "store_ok domain_keys P (ks_get K s')"
    "\<And>sq. point_in (ks_get K s') sq \<longleftrightarrow> point_in (ks_get K (tx_ks tx)) sq \<or> sq = p"
    "\<And>uk t. uk \<in> domain_keys \<Longrightarrow> in_scope sc uk \<Longrightarrow> mv (ks_get K s') uk t = (if t = sp_ts p
        then if point_marker P (ks_get K s) p = Sm_Mutation then merged (mv (ks_get K (tx_ks tx)) uk t) (mv (ks_get K s) uk t) else None
        else mv (ks_get K (tx_ks tx)) uk t)"
    by (rule insert_chunk_run [OF src p ok False]) (rule that, assumption, assumption, simp, simp)
  have "rows_after P sc (ks_get K s) (ds @ [p]) (ks_get K s')" if rows: "rows_after P sc (ks_get K s) ds (ks_get K (tx_ks tx))"
    unfolding rows_after_def
  proof (intro ballI impI allI)
    fix uk t assume uk: "uk \<in> domain_keys" "in_scope sc uk"
    have "mv (ks_get K (tx_ks tx)) uk t = None \<or> mv (ks_get K (tx_ks tx)) uk t = mv (ks_get K s) uk t"
      using rows uk version_value_cases [of P "ks_get K s" ds t uk] by (simp add: rows_after_def)
    then have "merged (mv (ks_get K (tx_ks tx)) uk t) (mv (ks_get K s) uk t) = mv (ks_get K s) uk t"
      by (auto simp: merged_def split: option.split)
    then show "mv (ks_get K s') uk t = version_value P (ks_get K s) (ds @ [p]) t uk"
      using s'(4) [OF uk, of t] rows uk by (auto simp: version_value_snoc rows_after_def)
  qed
  then have "pulled K P sc (ks_get K s) m0 (ds @ [p]) s'"
    using inv s'(2,3) by (auto simp: pulled_def points_after_def)
  then show ?thesis using s'(1) by blast
qed

lemma pulled_page:
  assumes src: "store_ok domain_keys P (ks_get K s)" "metas_typed P (ks_get K s)"
    and "\<forall>p\<in>set ps. point_in (ks_get K s) p \<and> sp_scope p = sc" "pulled K P sc (ks_get K s) m0 ds (tx_ks tx)" "distinct (ds @ ps)"
  shows "\<exists>s'. insert_page K P sc (map (point_chunk K P s) ps) tx = (Inr (), tx\<lparr>tx_ks := s'\<rparr>) \<and> pulled K P sc (ks_get K s) m0 (ds @ ps) s'"
  using assms(3-5)
proof (induction ps arbitrary: ds tx)
  case Nil
  then show ?case by (intro exI [of _ "tx_ks tx"]) (simp add: insert_page_def)
next
  case (Cons p ps)
  obtain b s1 where s1: "insert_chunk K P sc (point_chunk K P s p) tx = (Inr b, tx\<lparr>tx_ks := s1\<rparr>)"
    "pulled K P sc (ks_get K s) m0 (ds @ [p]) s1"
    using pulled_chunk [OF src, of p sc m0 ds tx] Cons.prems by auto
  let ?tx = "tx\<lparr>tx_ks := s1\<rparr>"
  obtain s' where "insert_page K P sc (map (point_chunk K P s) ps) ?tx = (Inr (), ?tx\<lparr>tx_ks := s'\<rparr>)"
    "pulled K P sc (ks_get K s) m0 ((ds @ [p]) @ ps) s'"
    using Cons.IH [of "ds @ [p]" ?tx] Cons.prems s1(2) by auto
  then show ?case using s1(1) by (intro exI [of _ s']) (simp add: insert_page_def)
qed

text \<open>A transaction that wrote to no scope of its own commits what it holds.\<close>

lemma commit_quiet:
  assumes "store_ok domain_keys P (ks_get K (tx_ks tx))" "tx_ok tx" "active_scopes tx = []"
  obtains s' where "commit K P Committed tx = Inr s'" "ks_get K s' = ks_get K (tx_ks tx)"
    "commit K P Conflicted tx = Inl Tx_Conflict"
  by (rule commit_run [OF assms(1,2)]) (use assms(3) in \<open>auto intro: that\<close>)

lemma retry_loop_run:
  assumes W: "calm K P sc W" and n: "commits_within W n i" and inv: "pulled K P sc m m0 ds s"
    and op: "\<And>tx. pulled K P sc m m0 ds (tx_ks tx) \<Longrightarrow> \<exists>a s'. body tx = (Inr a, tx\<lparr>tx_ks := s'\<rparr>) \<and> pulled K P sc m m0 ds' s'"
  shows "\<exists>a s' i'. retry_loop K P W msg body n i s = (Inr (a, s'), i') \<and> pulled K P sc m m0 ds' s'"
  using n
proof (induction n arbitrary: i)
  case 0
  then show ?case by (simp add: commits_within_def)
next
  case (Suc n)
  obtain tx where tx: "w_begin W i s = Inr tx" "tx_inv K P tx" "active_scopes tx = []" "scope_same sc (ks_get K s) (ks_get K (tx_ks tx))"
    using W inv by (auto simp: calm_def pulled_def)
  have "pulled K P sc m m0 ds (tx_ks tx)" by (rule pulled_same [OF inv tx(4)]) (use tx(2) in \<open>simp add: tx_inv_def\<close>)
  then obtain a s1 where s1: "body tx = (Inr a, tx\<lparr>tx_ks := s1\<rparr>)" "pulled K P sc m m0 ds' s1" using op by blast
  have ok: "store_ok domain_keys P (ks_get K s1)" using s1(2) by (simp add: pulled_def)
  then have "store_ok domain_keys P (ks_get K (tx_ks (tx\<lparr>tx_ks := s1\<rparr>)))" "tx_ok (tx\<lparr>tx_ks := s1\<rparr>)" "active_scopes (tx\<lparr>tx_ks := s1\<rparr>) = []"
    using tx(2,3) by (simp_all add: tx_inv_def tx_ok_def)
  then obtain s2 where s2: "commit K P Committed (tx\<lparr>tx_ks := s1\<rparr>) = Inr s2" "ks_get K s2 = ks_get K s1"
    "commit K P Conflicted (tx\<lparr>tx_ks := s1\<rparr>) = Inl Tx_Conflict"
    by (rule commit_quiet) (rule that, assumption, simp, assumption)
  have "pulled K P sc m m0 ds' s2" by (rule pulled_same [OF s1(2)]) (use s2(2) ok in \<open>simp_all add: scope_same_def\<close>)
  then show ?case
    using commits_within_step [OF Suc.prems] Suc.IH [of "Suc i"] tx(1) s1(1) s2(1,3) by (auto simp: attempt_def)
qed

lemma apply_pull_run:
  assumes src: "store_ok domain_keys P (ks_get K s)" "metas_typed P (ks_get K s)" and W: "calm K P sc W" "\<And>i. commits_within W 10 i"
    and ps: "\<forall>p\<in>set ps. point_in (ks_get K s) p \<and> sp_scope p = sc" "pulled K P sc (ks_get K s) m0 ds r" "distinct (ds @ ps)"
  shows "\<exists>r' i'. apply_pull K P W sc (map (point_chunk K P s) ps) i r = (Inr r', i') \<and> pulled K P sc (ks_get K s) m0 (ds @ ps) r'"
proof (cases "ps = []")
  case True
  then show ?thesis using ps(2) by (simp add: apply_pull_def)
next
  case False
  have "\<exists>a s' i'. retry_loop K P W ''a pulled page kept conflicting; giving up'' (insert_page K P sc (map (point_chunk K P s) ps)) 10 i r
      = (Inr (a, s'), i') \<and> pulled K P sc (ks_get K s) m0 (ds @ ps) s'"
    by (rule retry_loop_run [OF W(1) W(2) ps(2)]) (use pulled_page [OF src ps(1) _ ps(3)] in blast)
  then show ?thesis using False by (auto simp: apply_pull_def)
qed

section \<open>Heads and coverage\<close>

text \<open>The heads of a scope, in the order the scan meets them.\<close>

lemma scope_heads_scan:
  assumes ok: "store_ok domain_keys P (ks_get K s)" and sc: "scope_ok sc"
  obtains lower upper hs where "scope_points_range sc = Inr (lower, upper)"
    "\<And>func (c :: 'c). collect_latest_heads K P s lower upper func c = fold_res func c (map head_of hs)"
    "distinct (map (\<lambda>x. sp_ts (fst x)) hs)" "\<And>x. x \<in> set hs \<Longrightarrow> sp_scope (fst x) = sc"
    "fst ` set hs = {sp. is_head (ks_get K s) sp \<and> sp_scope sp = sc}"
proof -
  obtain lower upper where r: "scope_points_range sc = Inr (lower, upper)" "point_range lower upper (\<lambda>x. x = sc)"
    by (rule scope_points_range_ok [OF sc])
  obtain hs where hs: "\<And>func (c :: 'c). collect_latest_heads K P s lower upper func c = fold_res func c (map head_of hs)"
    "distinct (map head_key hs)" "set hs = {with_meta P (ks_get K s) sp | sp. is_head (ks_get K s) sp \<and> sp_scope sp = sc}"
    using collect_latest_heads_run [OF _ _ r(2), where 'c = 'c and P = P and s = s] ok unfolding store_ok_def by blast
  have in_sc: "sp_scope (fst x) = sc" if "x \<in> set hs" for x using that hs(3) by (auto simp: with_meta_def)
  have "map head_key hs = map (\<lambda>x. (sc, sp_ts (fst x))) hs" using in_sc by (simp add: head_key_def)
  then have "distinct (map (\<lambda>x. sp_ts (fst x)) hs)" using hs(2) by (auto simp: distinct_map inj_on_def)
  moreover have "fst ` set hs = {sp. is_head (ks_get K s) sp \<and> sp_scope sp = sc}"
    unfolding hs(3) by (force simp: with_meta_def)
  ultimately show thesis using that r(1) hs(1) in_sc by blast
qed

lemma fold_insert_heads:
  assumes "bt_ok f" "distinct (map (\<lambda>x. sp_ts (fst x)) hs)" "\<forall>x\<in>set hs. map_of f (sp_ts (fst x)) = None"
  shows "\<exists>f'. fold_res (\<lambda>frontier (_, (epoch, ts, node), _). Inr (bt_insert ts (epoch, node) frontier)) f (map head_of hs) = (Inr f' :: 'e + _)
    \<and> bt_ok f' \<and> (\<forall>ts e n. map_of f' ts = Some (e, n) \<longleftrightarrow>
        map_of f ts = Some (e, n) \<or> (\<exists>x\<in>set hs. as_id (fst x) = (e, ts, n)))"
  using assms
proof (induction hs arbitrary: f)
  case (Cons x hs)
  let ?sp = "fst x" and ?f = "bt_insert (sp_ts (fst x)) (sp_epoch (fst x), sp_node (fst x)) f"
  have step: "(\<lambda>frontier (_, (epoch, ts, node), _). Inr (bt_insert ts (epoch, node) frontier)) f (head_of x) = (Inr ?f :: 'e + _)"
    by (simp add: head_of_def as_id_def)
  have "sp_ts (fst y) \<noteq> sp_ts ?sp" if "y \<in> set hs" for y using Cons.prems(2) that by (force simp: image_iff)
  then have "\<forall>y\<in>set hs. map_of ?f (sp_ts (fst y)) = None" using Cons.prems(1,3) by simp
  then obtain f' where f': "fold_res (\<lambda>frontier (_, (epoch, ts, node), _). Inr (bt_insert ts (epoch, node) frontier)) ?f (map head_of hs)
      = (Inr f' :: 'e + _)" "bt_ok f'"
    "\<forall>ts e n. map_of f' ts = Some (e, n) \<longleftrightarrow> map_of ?f ts = Some (e, n) \<or> (\<exists>x\<in>set hs. as_id (fst x) = (e, ts, n))"
    using Cons.IH [of ?f] Cons.prems(1,2) by auto
  have "map_of ?f ts = Some (e, n) \<longleftrightarrow> map_of f ts = Some (e, n) \<or> as_id ?sp = (e, ts, n)" for ts e n
    using Cons.prems(1,3) by (auto simp: as_id_def)
  then show ?case using f' step by (intro exI [of _ f']) simp
qed simp

lemma scope_heads_run:
  assumes "store_ok domain_keys P (ks_get K s)" "scope_ok sc"
  obtains f where "scope_heads K P (Inr s) sc = Inr f" "bt_ok f"
    "\<And>ts e n. map_of f ts = Some (e, n) \<longleftrightarrow> (\<exists>sp. is_head (ks_get K s) sp \<and> sp_scope sp = sc \<and> as_id sp = (e, ts, n))"
proof -
  obtain lower upper hs where hs: "scope_points_range sc = Inr (lower, upper)"
    "\<And>func (c :: scope_frontier). collect_latest_heads K P s lower upper func c = fold_res func c (map head_of hs)"
    "distinct (map (\<lambda>x. sp_ts (fst x)) hs)" "fst ` set hs = {sp. is_head (ks_get K s) sp \<and> sp_scope sp = sc}"
    by (rule scope_heads_scan [OF assms]) (rule that, assumption, simp, assumption, assumption)
  obtain f where f: "fold_res (\<lambda>frontier (_, (epoch, ts, node), _). Inr (bt_insert ts (epoch, node) frontier)) [] (map head_of hs)
      = (Inr f :: tx_error + _)" "bt_ok f" "\<forall>ts e n. map_of f ts = Some (e, n) \<longleftrightarrow> (\<exists>x\<in>set hs. as_id (fst x) = (e, ts, n))"
    using fold_insert_heads [of "[]" hs] hs(3) by auto
  have "(\<exists>x\<in>set hs. as_id (fst x) = (e, ts, n)) \<longleftrightarrow> (\<exists>sp\<in>fst ` set hs. as_id sp = (e, ts, n))" for ts e n by blast
  then show thesis using that [of f] f hs(1,2,4) by (simp add: scope_heads_def)
qed

end

definition covers :: "rows \<Rightarrow> scope \<Rightarrow> u64 \<Rightarrow> u64 \<Rightarrow> bool" where
  "covers m sc ts epoch \<longleftrightarrow> (\<exists>sp. point_in m sp \<and> sp_scope sp = sc \<and> sp_ts sp = ts \<and> epoch \<le> sp_epoch sp)"

lemma version_range_ok:
  assumes "scope_ok sc"
  obtains lower upper where "version_range sc ts = Inr (lower, upper)"
    "\<And>k. in_range lower (Some upper) k \<longleftrightarrow> prefix (sp_stem sc ts) k"
proof -
  let ?p = "sp_stem sc ts"
  have "upper_loop (rev ?p) \<noteq> None" using upper_loop_None_iff [of ?p] by (auto simp: sp_stem_def)
  then obtain upper where r: "prefix_to_range ?p = (?p, Some upper)" by (auto simp: prefix_to_range_def)
  then have "version_range sc ts = Inr (?p, upper)"
    using sync_point_prefix_forms(2) [OF assms] by (simp add: version_range_def key_range_def lift_key_def)
  then show thesis using that prefix_range_iff [OF r] by blast
qed

lemma while_res_any:
  "while_res (\<lambda>held x. Inr (\<not> Q x, Q x)) False xs = (Inr (\<exists>x\<in>set xs. Q x) :: 'e + bool)"
  by (induction xs) auto

lemma concat_pages_of: "0 < n \<Longrightarrow> concat (pages_of n xs) = xs"
proof (induction n xs rule: pages_of.induct)
  case (1 n xs)
  then show ?case by (subst pages_of.simps) auto
qed

lemma verify_pages_all:
  "(\<And>page. verify sc page = Some (\<forall>h\<in>set page. Q h)) \<Longrightarrow> verify_pages verify sc pages = Some (\<forall>h\<in>set (concat pages). Q h)"
  by (induction pages) auto

context api_store
begin

lemma verify_head:
  assumes ok: "store_ok domain_keys P (ks_get K s)" and sc: "scope_ok sc" and r: "version_range sc ts = Inr (lower, upper)"
  shows "find_sync_points_while K P s lower upper (\<lambda>held sp sm. let held' = (sp_epoch sp \<ge> epoch) in Inr (\<not> held', held')) False
    = Inr (covers (ks_get K s) sc ts epoch)"
proof -
  let ?m = "ks_get K s"
  have rng: "in_range lower (Some upper) k \<longleftrightarrow> prefix (sp_stem sc ts) k" for k
    using version_range_ok [OF sc, of ts] r by (metis Inr_inject Pair_inject)
  then have hd: "hd k = 35" if "in_range lower (Some upper) k" for k
    using that by (auto simp: sp_stem_def prefix_def)
  obtain pts where pts: "ks_range K s lower (Some upper) = map (point_entry ?m) pts"
    "set pts = {sp. point_in ?m sp \<and> in_range lower (Some upper) (sync_point_bytes sp)}"
    by (rule key_range_points [OF store_ok_wf [OF ok] hd])
  have mem: "sp \<in> set pts \<longleftrightarrow> point_in ?m sp \<and> sp_scope sp = sc \<and> sp_ts sp = ts" for sp
    using pts(2) rng sp_stem_iff [OF sc] by (auto simp: point_in_def)
  have "find_sync_points_while K P s lower upper (\<lambda>held sp sm. let held' = (sp_epoch sp \<ge> epoch) in Inr (\<not> held', held')) False
      = while_res (\<lambda>held x. Inr (\<not> sp_epoch (fst x) \<ge> epoch, sp_epoch (fst x) \<ge> epoch)) False (map (with_meta P ?m) pts)"
    unfolding find_sync_points_while_def pts(1) using ok mem
    by (subst sync_points_while_run) (auto simp: store_ok_def Let_def)
  also have "\<dots> = Inr (covers ?m sc ts epoch)"
    unfolding while_res_any using mem by (auto simp: covers_def with_meta_def)
  finally show ?thesis .
qed

lemma verify_loop_run:
  assumes "store_ok domain_keys P (ks_get K s)" "scope_ok sc"
  shows "verify_loop K P s sc heads = Inr (\<forall>(ts, epoch)\<in>set heads. covers (ks_get K s) sc ts epoch)"
proof (induction heads)
  case (Cons h heads)
  obtain ts epoch where h: "h = (ts, epoch)" by force
  obtain lower upper where "version_range sc ts = Inr (lower, upper)" using version_range_ok [OF assms(2)] by metis
  then show ?case using verify_head [OF assms] Cons by (simp add: h)
qed simp

lemma held_heads_run:
  assumes "store_ok domain_keys P (ks_get K s)" "scope_ok sc"
  obtains heads where "held_heads K P (Inr s) sc = Inr heads"
    "set heads = {(sp_ts sp, sp_epoch sp) | sp. is_head (ks_get K s) sp \<and> sp_scope sp = sc}"
proof -
  obtain lower upper hs where hs: "scope_points_range sc = Inr (lower, upper)"
    "\<And>func (c :: (u64 \<times> u64) list). collect_latest_heads K P s lower upper func c = fold_res func c (map head_of hs)"
    "fst ` set hs = {sp. is_head (ks_get K s) sp \<and> sp_scope sp = sc}"
    by (rule scope_heads_scan [OF assms]) (rule that, assumption, simp, assumption)
  have "fold_res (\<lambda>heads (_, (epoch, ts, _), _). Inr (heads @ [(ts, epoch)])) c (map head_of hs)
      = (Inr (c @ map (\<lambda>x. (sp_ts (fst x), sp_epoch (fst x))) hs) :: tx_error + _)" for c
    by (induction hs arbitrary: c) (auto simp: head_of_def as_id_def)
  then have "held_heads K P (Inr s) sc = Inr (map (\<lambda>x. (sp_ts (fst x), sp_epoch (fst x))) hs)"
    using hs(1,2) by (simp add: held_heads_def)
  moreover have "set (map (\<lambda>x. (sp_ts (fst x), sp_epoch (fst x))) hs) = (\<lambda>sp. (sp_ts sp, sp_epoch sp)) ` (fst ` set hs)"
    by (simp add: image_image)
  ultimately show thesis using that hs(3) by (simp add: setcompr_eq_image)
qed

lemma confirm_covered_run:
  assumes s: "store_ok domain_keys P (ks_get K s)" "scope_ok sc" and r: "store_ok domain_keys P (ks_get K r)" "subject_contains subject sc"
  shows "confirm_covered_by K P (Inr s) (\<lambda>sc heads. case verify_coverage K P (Inr r) subject sc heads of Inl _ \<Rightarrow> None | Inr b \<Rightarrow> Some b) sc
    = Some (\<forall>sp. is_head (ks_get K s) sp \<and> sp_scope sp = sc \<longrightarrow> covers (ks_get K r) sc (sp_ts sp) (sp_epoch sp))"
proof -
  let ?v = "\<lambda>sc heads. case verify_coverage K P (Inr r) subject sc heads of Inl _ \<Rightarrow> None | Inr b \<Rightarrow> Some b"
  obtain heads where h: "held_heads K P (Inr s) sc = Inr heads"
    "set heads = {(sp_ts sp, sp_epoch sp) | sp. is_head (ks_get K s) sp \<and> sp_scope sp = sc}"
    by (rule held_heads_run [OF s])
  have "?v sc page = Some (\<forall>(ts, epoch)\<in>set page. covers (ks_get K r) sc ts epoch)" for page
    using verify_loop_run [OF r(1) s(2)] r(2) by (simp add: verify_coverage_def)
  then have "verify_pages ?v sc (pages_of 2048 heads) = Some (\<forall>(ts, epoch)\<in>set (concat (pages_of 2048 heads)). covers (ks_get K r) sc ts epoch)"
    by (rule verify_pages_all)
  then show ?thesis using h by (auto simp: confirm_covered_by_def concat_pages_of)
qed

end

end
