(* ===== verification/Replication_Properties.thy ===== *)
theory Replication_Properties
  imports Replication_Spec Concrete_Store
begin

text \<open>
  The properties of catching up: plans miss nothing, pulled pages are the broadcast changeset,
  pulling converges and copies a scope, coverage is confirmed exactly when it holds; and what a
  changeset of an older epoch does to a deleted version.
\<close>

section \<open>A concrete holder and puller\<close>

lemma rows1_ok: "store_ok domain_keys meta_codec (ks_get al_engine rows1)"
  using rows1_inv by (simp add: tx_inv_def)

lemma rows1_points: "point_in (ks_get al_engine rows1) sp \<longleftrightarrow> sp = sp0"
proof -
  have "\<not> point_in (ks_get al_engine rows0) sp" using key0_mem(1) by (simp add: point_in_def rows0_def al.rows_put_at)
  then show ?thesis using sp0_ok sync_point_bytes_inject [of sp sp0] by (auto simp: point_in_def rows1_def al.get_insert)
qed

lemma rows1_meta: "point_meta meta_codec (ks_get al_engine rows1) sp0 = Some sm0"
  using sm0_codec by (simp add: point_meta_def rows1_def al.get_insert)

lemma rows1_mv: "uk \<in> domain_keys \<Longrightarrow> mv (ks_get al_engine rows1) uk t = (if uk = key0 \<and> t = 5 then Some (Some [7]) else None)"
  using al_api.mv_point rows0_mv by (simp add: rows1_def al.get_insert)

lemma rows1_typed: "metas_typed meta_codec (ks_get al_engine rows1)"
  using rows1_points rows1_meta by (auto simp: metas_typed_def meta_ok_def sm0_def)

lemma rows1_head: "is_head (ks_get al_engine rows1) sp \<longleftrightarrow> sp = sp0"
  by (auto simp: is_head_def rows1_points)

text \<open>A world in which every first attempt conflicts and nobody else writes.\<close>

definition world0 :: "al_rows world" where
  "world0 = \<lparr>w_begin = (\<lambda>i s. Inr (tx0\<lparr>tx_ks := s\<rparr>)), w_outcome = (\<lambda>i. if even i then Conflicted else Committed)\<rparr>"

lemma world0_calm: "calm al_engine meta_codec scope0 world0"
  using tx0_inv by (auto simp: calm_def world0_def tx_inv_def tx_ok_def scope_same_def tx0_def tx_start_def)

lemma world0_commits: "commits_within world0 10 i"
proof (cases "even i")
  case True
  then show ?thesis unfolding commits_within_def by (intro exI [of _ 1]) (simp add: world0_def)
next
  case False
  then show ?thesis unfolding commits_within_def by (intro exI [of _ 0]) (simp add: world0_def)
qed

lemma rows1_heads: "scope_heads al_engine meta_codec (Inr rows1) scope0 = Inr [(5, 5, replicate 16 0)]"
proof (rule api_store.scope_heads_run [OF al_api.api_store_axioms rows1_ok scope0_ok])
  fix f assume f: "scope_heads al_engine meta_codec (Inr rows1) scope0 = Inr f" "bt_ok f"
    "\<And>ts e n. map_of f ts = Some (e, n) \<longleftrightarrow> (\<exists>sp. is_head (ks_get al_engine rows1) sp \<and> sp_scope sp = scope0 \<and> as_id sp = (e, ts, n))"
  have "as_id sp0 = (5, 5, replicate 16 0)" by (simp add: sp0_def point_at_def as_id_def)
  then have "(ts, e, n) \<in> set f \<longleftrightarrow> (ts, e, n) = (5, 5, replicate 16 0)" for ts e n
    using f(3) [of ts e n] bt_map_of [OF f(2), of ts "(e, n)"] by (auto simp: rows1_head)
  then have "set f = {(5, 5, replicate 16 0)}" by (auto simp: set_eq_iff)
  moreover have "distinct f" using bt_ok_distinct [OF f(2)] by (simp add: distinct_map)
  ultimately have "f = [(5, 5, replicate 16 0)]" by (cases f; cases "tl f") auto
  then show ?thesis using f(1) by simp
qed

lemma empty_heads: "scope_heads al_engine meta_codec (Inr []) scope0 = Inr []"
proof (rule api_store.scope_heads_run [OF al_api.api_store_axioms _ scope0_ok, of "[]"])
  fix f assume f: "scope_heads al_engine meta_codec (Inr []) scope0 = Inr f" "bt_ok f"
    "\<And>ts e n. map_of f ts = Some (e, n) \<longleftrightarrow> (\<exists>sp. is_head (ks_get al_engine []) sp \<and> sp_scope sp = scope0 \<and> as_id sp = (e, ts, n))"
  then have "(ts, e, n) \<notin> set f" for ts e n using bt_map_of [OF f(2), of ts "(e, n)"] by (simp add: is_head_def)
  then have "f = []" by (cases f) auto
  then show "scope_heads al_engine meta_codec (Inr []) scope0 = Inr []" using f(1) by simp
qed (simp add: store_ok_empty)

section \<open>Plans\<close>

text \<open>
  C7. A plan made from an announce misses nothing the announce stands for: when it says caught up,
  every head is held at its epoch or a newer one; when it asks for more, some head is lacking and the
  cursor and floors make the holder send every lacking one; it only reports divergence when the
  heads below the baseline differ. The fingerprints are assumed not to collide at that baseline.
\<close>

theorem plan_catchup_complete:
  assumes "bt_ok f" and "bt_ok (frontier_of ours)"
    and "\<forall>c. sa_baseline (announce_scope lag f) = Some c \<longrightarrow>
      fold_heads_at_cut (frontier_of ours) c = fold_heads_at_cut f c \<longrightarrow> elided c (frontier_of ours) = elided c f"
  shows "case plan_catchup ours (announce_scope lag f) of
      Caught_Up \<Rightarrow> \<forall>(ts, epoch, node)\<in>set f. has_head (frontier_of ours) ts epoch
    | Diverged \<Rightarrow> \<exists>c. elided c (frontier_of ours) \<noteq> elided c f
    | Behind since floors \<Rightarrow> (\<exists>(ts, epoch, node)\<in>set f. \<not> has_head (frontier_of ours) ts epoch)
        \<and> (\<forall>(ts, epoch, node)\<in>set f. \<not> has_head (frontier_of ours) ts epoch \<longrightarrow> \<not> skips since floors ts epoch)"
proof -
  have "plan_good ours f (plan_catchup ours (announce_scope lag f))"
    by (rule plan_catchup_good [OF assms(1,2)]) (use assms(3) in blast)
  then show ?thesis
    by (cases "plan_catchup ours (announce_scope lag f)") (force simp: plan_good_def lacks_def)+
qed

theorem plan_catchup_complete_witness:
  "plan_catchup (Some [(1, 1, [])]) (announce_scope None [(1, 1, []), (2, 2, [])]) = Behind (Some 1) []
    \<and> \<not> skips (Some 1) [] 2 (2 :: u64)"
proof -
  have plan: "plan_catchup (Some [(1, 1, [])]) (announce_scope None [(1, 1, []), (2, 2, [])]) = Behind (Some 1) []"
    by (simp add: announce_scope_def sa_full_def plan_catchup_def plan_step_def Let_def)
  have "bt_ok [(1, 1, []), (2 :: u64, 2 :: u64, [] :: bytes)]" "bt_ok (frontier_of (Some [(1, 1, [])]))"
    "sa_baseline (announce_scope None [(1, 1, []), (2, 2, [])]) = None"
    by (simp_all add: frontier_of_def announce_scope_def sa_full_def)
  from plan_catchup_complete [OF this(1,2), of None] this(3) plan
  have "\<forall>(ts, epoch, node)\<in>set [(1, 1, []), (2 :: u64, 2 :: u64, [] :: bytes)].
      \<not> has_head (frontier_of (Some [(1, 1, [])])) ts epoch \<longrightarrow> \<not> skips (Some 1) [] ts epoch" by simp
  then show ?thesis using plan by (simp add: has_head_def frontier_of_def)
qed

section \<open>Pulling\<close>

abbreviation served_by :: "'s engine \<Rightarrow> sync_meta postcard \<Rightarrow> 's \<Rightarrow> subject \<Rightarrow> nat \<Rightarrow> pull_request \<Rightarrow> (chunk list \<times> sync_point_id option) option" where
  "served_by K P s subject page_bytes \<equiv> (\<lambda>q. case serve_pull K P (Inr s) subject q page_bytes of Inl _ \<Rightarrow> None | Inr page \<Rightarrow> Some page)"

abbreviation first_request :: "scope \<Rightarrow> u64 option \<Rightarrow> (u64 \<times> u64) list \<Rightarrow> pull_request" where
  "first_request sc since floors \<equiv> \<lparr>pr_scope = sc, pr_after = None, pr_since_ts = since, pr_epoch_floors = floors\<rparr>"

lemma cs_req_fold:
  assumes "api_store K P" "store_ok domain_keys P (ks_get K s)" "\<forall>sp\<in>set pts. point_in (ks_get K s) sp \<and> sp_scope sp = sc"
  shows "fold_res (\<lambda>c x. cs_req_step K s sc since floors c (fst x) (snd x)) cs (map (with_meta P (ks_get K s)) pts)
    = Inr (cs @ map (point_chunk K P s) (filter (\<lambda>sp. \<not> skips since floors (sp_ts sp) (sp_epoch sp)) pts))"
  using assms(3)
proof (induction pts arbitrary: cs)
  case (Cons sp pts)
  then show ?case
    using api_store.point_chunk(1) [OF assms(1,2), of sp] by (simp add: cs_req_step_def with_meta_def)
qed simp

context api_store
begin

text \<open>The sync points of a scope in key order, and what a first request leaves to serve.\<close>

lemma served_points:
  assumes ok: "store_ok domain_keys P (ks_get K s)" and sc: "scope_ok sc"
  obtains pts lower upper where "scope_points_range sc = Inr (lower, upper)"
    "ks_range K s lower (Some upper) = map (point_entry (ks_get K s)) pts"
    "sorted_wrt (\<lambda>a b. sync_point_bytes a < sync_point_bytes b) pts" "set pts = {sp. point_in (ks_get K s) sp \<and> sp_scope sp = sc}"
    "distinct pts"
    "\<And>since floors. left_over pts (first_request sc since floors) (filter (\<lambda>sp. \<not> skips since floors (sp_ts sp) (sp_epoch sp)) pts)"
proof -
  obtain lower upper where r: "scope_points_range sc = Inr (lower, upper)" "point_range lower upper (\<lambda>x. x = sc)"
    by (rule scope_points_range_ok [OF sc])
  obtain pts where pts: "ks_range K s lower (Some upper) = map (point_entry (ks_get K s)) pts"
    "sorted_wrt (\<lambda>a b. sync_point_bytes a < sync_point_bytes b) pts" "set pts = {sp. point_in (ks_get K s) sp \<and> sp_scope sp = sc}"
    by (rule range_points [OF store_ok_wf [OF ok] r(2)])
  have "distinct pts" using pts(2) by (induction pts) auto
  then show thesis using that [OF r(1) pts] by (simp add: left_over_def)
qed

lemma pull_collects:
  assumes ok: "store_ok domain_keys P (ks_get K s)" and sc: "scope_ok sc" and subj: "subject_contains subject sc"
  shows "\<exists>chunks n old. pull_loop (served_by K P s subject page_bytes) (\<lambda>page i acc. (Inr (acc @ page), i))
      (first_request sc since floors) 0 (- 1) 0 [] = Some (Pull_Done n old, chunks)
    \<and> handle_cs_req K P (Inr s) subject sc since floors = Inr (if chunks = [] then None else Some (sc, chunks))"
proof -
  obtain pts lower upper where pts: "scope_points_range sc = Inr (lower, upper)"
    "ks_range K s lower (Some upper) = map (point_entry (ks_get K s)) pts"
    "sorted_wrt (\<lambda>a b. sync_point_bytes a < sync_point_bytes b) pts" "set pts = {sp. point_in (ks_get K s) sp \<and> sp_scope sp = sc}"
    "distinct pts"
    "\<And>since floors. left_over pts (first_request sc since floors) (filter (\<lambda>sp. \<not> skips since floors (sp_ts sp) (sp_epoch sp)) pts)"
    by (rule served_points [OF ok sc]) (rule that, assumption+)
  let ?ws = "filter (\<lambda>sp. \<not> skips since floors (sp_ts sp) (sp_epoch sp)) pts" and ?g = "point_chunk K P s"
  have "\<exists>n old r'. pull_loop (served_by K P s subject page_bytes) (\<lambda>page i acc. (Inr (acc @ page), i))
      (first_request sc since floors) 0 (- 1) 0 [] = Some (Pull_Done n old, r') \<and> r' = map ?g ([] @ ?ws)"
    by (rule pull_loop_run [where I = "\<lambda>ds r. r = map ?g ds", OF ok _ _ pts(3) _ pts(6)]) (use sc subj pts(4,5) in auto)
  moreover have "handle_cs_req K P (Inr s) subject sc since floors = Inr (if map ?g ?ws = [] then None else Some (sc, map ?g ?ws))"
  proof -
    have "sync_points_loop P (cs_req_step K s sc since floors) [] (map (point_entry (ks_get K s)) pts) = Inr (map ?g ?ws)"
      using sync_points_loop_run [of P "ks_get K s" pts "cs_req_step K s sc since floors" "[]"]
        cs_req_fold [OF api_store_axioms ok, of pts sc since floors "[]"] ok pts(4) by (simp add: store_ok_def)
    then show ?thesis using subj pts(1,2) by (simp add: handle_cs_req_def find_sync_points_def)
  qed
  ultimately show ?thesis by auto
qed

lemma pull_applies:
  assumes ok: "store_ok domain_keys P (ks_get K s)" and sc: "scope_ok sc" and subj: "subject_contains subject sc"
    and typed: "metas_typed P (ks_get K s)" and W: "calm K P sc W" "\<And>i. commits_within W 10 i"
    and r: "store_ok domain_keys P (ks_get K r)"
  obtains pts n old r' where "pull_loop (served_by K P s subject page_bytes) (apply_pull K P W sc)
      (first_request sc since floors) 0 (- 1) 0 r = Some (Pull_Done n old, r')"
    "sorted_wrt (\<lambda>a b. sync_point_bytes a < sync_point_bytes b) pts" "set pts = {sp. point_in (ks_get K s) sp \<and> sp_scope sp = sc}"
    "pulled K P sc (ks_get K s) (ks_get K r) (filter (\<lambda>sp. \<not> skips since floors (sp_ts sp) (sp_epoch sp)) pts) r'"
proof -
  obtain pts where pts: "sorted_wrt (\<lambda>a b. sync_point_bytes a < sync_point_bytes b) pts"
    "set pts = {sp. point_in (ks_get K s) sp \<and> sp_scope sp = sc}" "distinct pts"
    "\<And>since floors. left_over pts (first_request sc since floors) (filter (\<lambda>sp. \<not> skips since floors (sp_ts sp) (sp_epoch sp)) pts)"
    by (rule served_points [OF ok sc]) (rule that, assumption+)
  let ?ws = "filter (\<lambda>sp. \<not> skips since floors (sp_ts sp) (sp_epoch sp)) pts"
  have "\<exists>n old r'. pull_loop (served_by K P s subject page_bytes) (apply_pull K P W sc) (first_request sc since floors) 0 (- 1) 0 r
      = Some (Pull_Done n old, r') \<and> pulled K P sc (ks_get K s) (ks_get K r) ([] @ ?ws) r'"
  proof (rule pull_loop_run [OF ok _ _ pts(1) _ pts(4)])
    fix ds ps i r1
    assume "pulled K P sc (ks_get K s) (ks_get K r) ds r1" "set ps \<subseteq> set pts" "distinct (ds @ ps)"
    then show "\<exists>r' i'. apply_pull K P W sc (map (point_chunk K P s) ps) i r1 = (Inr r', i')
        \<and> pulled K P sc (ks_get K s) (ks_get K r) (ds @ ps) r'"
      using apply_pull_run [OF ok typed W, of ps "ks_get K r" ds r1 i] pts(2) by blast
  qed (use sc subj pts(2,3) r in \<open>auto simp: pulled_def points_after_def fresh_def rows_after_def version_value_def\<close>)
  then show thesis using that pts(1,2) by auto
qed

end

text \<open>
  C9. Pulling ends, and the pages are the broadcast: whatever the page budget, asking a holder for
  page after page behind the last sync point received comes to an end, and the pages together are
  exactly the chunks, in the same order, that one broadcast changeset would have carried.
\<close>

theorem pull_equals_changeset:
  assumes "api_store K P" and "store_ok domain_keys P (ks_get K s)" and "scope_ok sc" and "subject_contains subject sc"
  shows "\<exists>chunks n old. pull_loop (served_by K P s subject page_bytes) (\<lambda>page i acc. (Inr (acc @ page), i))
      (first_request sc since floors) 0 (- 1) 0 [] = Some (Pull_Done n old, chunks)
    \<and> handle_cs_req K P (Inr s) subject sc since floors = Inr (if chunks = [] then None else Some (sc, chunks))"
  using assms by (rule api_store.pull_collects)

theorem pull_equals_changeset_witness:
  "\<exists>chunks n old. pull_loop (served_by al_engine meta_codec rows1 (Subject_Scope scope0) 0) (\<lambda>page i acc. (Inr (acc @ page), i))
      (first_request scope0 None []) 0 (- 1) 0 [] = Some (Pull_Done n old, chunks)"
  using pull_equals_changeset [OF al_api.api_store_axioms rows1_ok scope0_ok, of "Subject_Scope scope0" 0 None "[]"]
  by (auto simp: subject_contains_def)

lemma coversI: "point_in m sp \<Longrightarrow> sp_scope sp = sc \<Longrightarrow> as_id sp = (e, ts, n) \<Longrightarrow> epoch \<le> e \<Longrightarrow> covers m sc ts epoch"
  by (auto simp: covers_def as_id_def intro!: exI [of _ sp])

text \<open>
  C2. Catching up converges: a node that plans from a holder's announce and pulls what the plan
  asks for, in transactions that may conflict up to nine times a page while other writers leave the
  scope alone, finishes the pull and then holds every version of the holder's heads at the holder's
  epoch or a newer one. It loses no sync point it had.
\<close>

theorem catchup_converges:
  assumes "api_store K P" and "store_ok domain_keys P (ks_get K s)" and "store_ok domain_keys P (ks_get K r)"
    and "scope_ok sc" and "subject_contains subject sc" and "metas_typed P (ks_get K s)"
    and "calm K P sc W" and "\<forall>i. commits_within W 10 i"
    and "scope_heads K P (Inr s) sc = Inr theirs" and "scope_heads K P (Inr r) sc = Inr ours"
    and "\<forall>c. sa_baseline (announce_scope lag theirs) = Some c \<longrightarrow>
      fold_heads_at_cut ours c = fold_heads_at_cut theirs c \<longrightarrow> elided c ours = elided c theirs"
    and "plan_catchup (Some ours) (announce_scope lag theirs) = Behind since floors"
  shows "\<exists>n old r'. pull_loop (served_by K P s subject page_bytes) (apply_pull K P W sc) (first_request sc since floors) 0 (- 1) 0 r
      = Some (Pull_Done n old, r')
    \<and> store_ok domain_keys P (ks_get K r')
    \<and> (\<forall>(ts, epoch, node)\<in>set theirs. covers (ks_get K r') sc ts epoch)
    \<and> (\<forall>sp. sp_scope sp = sc \<longrightarrow> point_in (ks_get K r) sp \<longrightarrow> point_in (ks_get K r') sp)"
proof -
  obtain pts n old r' where run: "pull_loop (served_by K P s subject page_bytes) (apply_pull K P W sc) (first_request sc since floors) 0 (- 1) 0 r
      = Some (Pull_Done n old, r')"
    and pts: "set pts = {sp. point_in (ks_get K s) sp \<and> sp_scope sp = sc}"
    and pulled: "pulled K P sc (ks_get K s) (ks_get K r) (filter (\<lambda>sp. \<not> skips since floors (sp_ts sp) (sp_epoch sp)) pts) r'"
    by (rule api_store.pull_applies [OF assms(1,2,4,5,6,7) _ assms(3)]) (use assms(8) in blast, rule that)
  have bt: "bt_ok theirs" "\<And>ts e n. map_of theirs ts = Some (e, n) \<longleftrightarrow> (\<exists>sp. is_head (ks_get K s) sp \<and> sp_scope sp = sc \<and> as_id sp = (e, ts, n))"
    by (rule api_store.scope_heads_run [OF assms(1,2,4)], use assms(9) in auto)+
  have bo: "bt_ok ours" "\<And>ts e n. map_of ours ts = Some (e, n) \<longleftrightarrow> (\<exists>sp. is_head (ks_get K r) sp \<and> sp_scope sp = sc \<and> as_id sp = (e, ts, n))"
    by (rule api_store.scope_heads_run [OF assms(1,3,4)], use assms(10) in auto)+
  have "plan_good (Some ours) theirs (Behind since floors)"
    using plan_catchup_good [of theirs "Some ours" lag] bt(1) bo(1) assms(11,12) by (auto simp: frontier_of_def)
  then have sent: "\<not> skips since floors (fst h) (fst (snd h))" if "h \<in> set theirs" "lacks (Some ours) h" for h
    using that by (auto simp: plan_good_def)
  have pin: "point_in (ks_get K r') sp \<longleftrightarrow> point_in (ks_get K r) sp
      \<or> point_in (ks_get K s) sp \<and> \<not> skips since floors (sp_ts sp) (sp_epoch sp)" if "sp_scope sp = sc" for sp
    using pulled that pts by (auto simp: pulled_def points_after_def)
  have "covers (ks_get K r') sc ts epoch" if h: "(ts, epoch, node) \<in> set theirs" for ts epoch node
  proof (cases "lacks (Some ours) (ts, epoch, node)")
    case True
    have "map_of theirs ts = Some (epoch, node)" using h bt(1) by (simp add: bt_map_of)
    then obtain sp where sp: "is_head (ks_get K s) sp" "sp_scope sp = sc" "as_id sp = (epoch, ts, node)"
      using bt(2) by blast
    have "\<not> skips since floors (sp_ts sp) (sp_epoch sp)" using sent [OF h True] sp(3) by (simp add: as_id_def)
    then have "point_in (ks_get K r') sp" using pin [OF sp(2)] sp(1) by (simp add: is_head_def)
    then show ?thesis by (rule coversI [OF _ sp(2,3)]) simp
  next
    case False
    then obtain e n where e: "map_of ours ts = Some (e, n)" "epoch \<le> e" by (auto simp: lacks_def has_head_def frontier_of_def)
    then obtain sp where sp: "is_head (ks_get K r) sp" "sp_scope sp = sc" "as_id sp = (e, ts, n)" using bo(2) by blast
    have "point_in (ks_get K r') sp" using pin [OF sp(2)] sp(1) by (simp add: is_head_def)
    then show ?thesis by (rule coversI [OF _ sp(2,3) e(2)])
  qed
  then have "\<forall>(ts, epoch, node)\<in>set theirs. covers (ks_get K r') sc ts epoch" by auto
  moreover have "store_ok domain_keys P (ks_get K r')" using pulled by (simp add: pulled_def)
  ultimately show ?thesis using run pin by (intro exI [of _ n] exI [of _ old] exI [of _ r']) simp
qed

theorem catchup_converges_witness:
  "\<exists>n old r'. pull_loop (served_by al_engine meta_codec rows1 (Subject_Scope scope0) 0) (apply_pull al_engine meta_codec world0 scope0)
      (first_request scope0 None []) 0 (- 1) 0 [] = Some (Pull_Done n old, r') \<and> covers (ks_get al_engine r') scope0 5 5"
proof -
  have a: "store_ok domain_keys meta_codec (ks_get al_engine [])" "subject_contains (Subject_Scope scope0) scope0"
    by (simp_all add: store_ok_empty subject_contains_def)
  have ann: "announce_scope None [(5, 5, replicate 16 0)] = sa_full [(5, 5, replicate 16 0)]" by (simp add: announce_scope_def)
  have b: "\<forall>i. commits_within world0 10 i" using world0_commits by simp
  have c: "\<forall>c. sa_baseline (announce_scope None [(5, 5, replicate 16 0)]) = Some c \<longrightarrow>
      fold_heads_at_cut [] c = fold_heads_at_cut [(5, 5, replicate 16 0)] c \<longrightarrow> elided c [] = elided c [(5, 5, replicate 16 0)]"
    by (simp add: ann sa_full_def)
  have "plan_catchup (Some []) (announce_scope None [(5, 5, replicate 16 0)]) = Behind None []"
    by (simp add: ann sa_full_def plan_catchup_def plan_step_def Let_def)
  from catchup_converges [OF al_api.api_store_axioms rows1_ok a(1) scope0_ok a(2) rows1_typed world0_calm b rows1_heads empty_heads c this]
  show ?thesis by fastforce
qed

lemma find_rev_sorted:
  assumes "sorted_wrt (\<lambda>a b. sync_point_bytes a < sync_point_bytes b) pts" "sp \<in> set pts" "Q sp"
  obtains p where "find Q (rev pts) = Some p" "p \<in> set pts" "Q p" "sync_point_bytes sp \<le> sync_point_bytes p"
  using assms
proof (induction pts rule: rev_induct)
  case (snoc x pts)
  show thesis
  proof (cases "Q x")
    case True
    then show thesis using snoc.prems by (auto simp: sorted_wrt_append intro: less_imp_le)
  next
    case False
    then show thesis using snoc.IH [OF snoc.prems(1)] snoc.prems by (auto simp: sorted_wrt_append)
  qed
qed simp

text \<open>The last point of a version in key order is its head.\<close>

lemma version_value_head:
  assumes "sorted_wrt (\<lambda>a b. sync_point_bytes a < sync_point_bytes b) pts" "set pts = {sp. point_in m sp \<and> sp_scope sp = sc}"
    and "is_head m sp" "sp_scope sp = sc"
  shows "version_value P m pts (sp_ts sp) uk = (if point_marker P m sp = Sm_Mutation then mv m uk (sp_ts sp) else None)"
proof -
  have sp: "point_in m sp" using assms(3) by (simp add: is_head_def)
  then have "sp \<in> set pts" using assms(2,4) by simp
  then obtain p where p: "find (\<lambda>p. sp_ts p = sp_ts sp) (rev pts) = Some p" "p \<in> set pts" "sp_ts p = sp_ts sp"
    "sync_point_bytes sp \<le> sync_point_bytes p"
    by (rule find_rev_sorted [OF assms(1), where Q = "\<lambda>p. sp_ts p = sp_ts sp"]) simp_all
  have "point_in m p" "sp_scope p = sp_scope sp" using p(2) assms(2,4) by auto
  moreover from this have "sync_point_bytes p \<le> sync_point_bytes sp" using is_head_bytes [OF sp] assms(3) p(3) by blast
  ultimately have "p = sp" using p(4) sp sync_point_bytes_inject [of p sp] by (simp add: point_in_def)
  then show ?thesis using p(1) by (simp add: version_value_def)
qed

definition rows_at_heads :: "sync_meta postcard \<Rightarrow> rows \<Rightarrow> scope \<Rightarrow> bool" where
  "rows_at_heads P m sc \<longleftrightarrow> (\<forall>uk\<in>domain_keys. in_scope sc uk \<longrightarrow> (\<forall>t. mv m uk t \<noteq> None \<longrightarrow>
    (\<exists>sp. is_head m sp \<and> sp_scope sp = sc \<and> sp_ts sp = t \<and> point_marker P m sp = Sm_Mutation)))"

text \<open>
  C3. Replication round trip: a node that has nothing of a scope and pulls it all from a holder
  ends up with exactly the holder's sync points and rows of that scope, tombstones included,
  although pages arrive in separate transactions that may conflict. The holder's rows belong to
  versions whose head is a mutation.
\<close>

theorem pull_replicates_scope:
  assumes "api_store K P" and "store_ok domain_keys P (ks_get K s)" and "store_ok domain_keys P (ks_get K r)"
    and "scope_ok sc" and "subject_contains subject sc" and "metas_typed P (ks_get K s)" and "rows_at_heads P (ks_get K s) sc"
    and "calm K P sc W" and "\<forall>i. commits_within W 10 i" and "fresh (ks_get K r) sc"
  shows "\<exists>n old r'. pull_loop (served_by K P s subject page_bytes) (apply_pull K P W sc) (first_request sc None []) 0 (- 1) 0 r
      = Some (Pull_Done n old, r')
    \<and> (\<forall>sp. sp_scope sp = sc \<longrightarrow> point_in (ks_get K r') sp = point_in (ks_get K s) sp)
    \<and> (\<forall>uk\<in>domain_keys. in_scope sc uk \<longrightarrow> (\<forall>t. mv (ks_get K r') uk t = mv (ks_get K s) uk t))"
proof -
  obtain pts n old r' where run: "pull_loop (served_by K P s subject page_bytes) (apply_pull K P W sc) (first_request sc None []) 0 (- 1) 0 r
      = Some (Pull_Done n old, r')"
    and pts: "sorted_wrt (\<lambda>a b. sync_point_bytes a < sync_point_bytes b) pts" "set pts = {sp. point_in (ks_get K s) sp \<and> sp_scope sp = sc}"
    and "pulled K P sc (ks_get K s) (ks_get K r) (filter (\<lambda>sp. \<not> skips None [] (sp_ts sp) (sp_epoch sp)) pts) r'"
    by (rule api_store.pull_applies [OF assms(1,2,4,5,6,8) _ assms(3)]) (use assms(9) in blast, rule that)
  then have pulled: "pulled K P sc (ks_get K s) (ks_get K r) pts r'" by (simp add: skips_def)
  have "mv (ks_get K r') uk t = mv (ks_get K s) uk t" if uk: "uk \<in> domain_keys" "in_scope sc uk" for uk t
  proof -
    have v: "mv (ks_get K r') uk t = version_value P (ks_get K s) pts t uk"
      using pulled assms(10) uk by (simp add: pulled_def rows_after_def)
    show ?thesis
    proof (cases "mv (ks_get K s) uk t")
      case None
      then show ?thesis using v version_value_cases [of P "ks_get K s" pts t uk] by auto
    next
      case (Some x)
      then obtain sp where "is_head (ks_get K s) sp" "sp_scope sp = sc" "sp_ts sp = t" "point_marker P (ks_get K s) sp = Sm_Mutation"
        using assms(7) uk unfolding rows_at_heads_def by blast
      then show ?thesis using v version_value_head [OF pts, of sp P uk] by simp
    qed
  qed
  moreover have "point_in (ks_get K r') sp = point_in (ks_get K s) sp" if "sp_scope sp = sc" for sp
    using pulled assms(10) pts(2) that by (auto simp: pulled_def points_after_def fresh_def)
  ultimately show ?thesis using run by blast
qed

theorem pull_replicates_scope_witness:
  "\<exists>n old r'. pull_loop (served_by al_engine meta_codec rows1 (Subject_Scope scope0) 0) (apply_pull al_engine meta_codec world0 scope0)
      (first_request scope0 None []) 0 (- 1) 0 [] = Some (Pull_Done n old, r')
    \<and> point_in (ks_get al_engine r') sp0 \<and> mv (ks_get al_engine r') key0 5 = Some (Some [7])"
proof -
  have a: "store_ok domain_keys meta_codec (ks_get al_engine [])" "subject_contains (Subject_Scope scope0) scope0"
    "\<forall>i. commits_within world0 10 i" "fresh (ks_get al_engine []) scope0"
    using world0_commits by (simp_all add: store_ok_empty subject_contains_def fresh_def)
  have "rows_at_heads meta_codec (ks_get al_engine rows1) scope0"
    using rows1_head rows1_meta sm0_marker by (auto simp: rows_at_heads_def rows1_mv point_marker_def split: if_splits)
  from pull_replicates_scope [OF al_api.api_store_axioms rows1_ok a(1) scope0_ok a(2) rows1_typed this world0_calm a(3,4), of 0]
  obtain n old r' where r: "pull_loop (served_by al_engine meta_codec rows1 (Subject_Scope scope0) 0) (apply_pull al_engine meta_codec world0 scope0)
      (first_request scope0 None []) 0 (- 1) 0 [] = Some (Pull_Done n old, r')"
    "\<forall>sp. sp_scope sp = scope0 \<longrightarrow> point_in (ks_get al_engine r') sp = point_in (ks_get al_engine rows1) sp"
    "\<forall>uk\<in>domain_keys. in_scope scope0 uk \<longrightarrow> (\<forall>t. mv (ks_get al_engine r') uk t = mv (ks_get al_engine rows1) uk t)" by blast
  then have "point_in (ks_get al_engine r') sp0" "mv (ks_get al_engine r') key0 5 = Some (Some [7])"
    by (simp_all add: rows1_points rows1_mv)
  then show ?thesis using r(1) by blast
qed

section \<open>Coverage\<close>

text \<open>
  C11. Letting go of a scope is safe: the question a holder puts to a peer, in pages of heads, is
  answered yes exactly when the peer has, for every head the holder has, a sync point of that
  version at the same or a newer epoch.
\<close>

theorem confirm_covered_exact:
  assumes "api_store K P" and "store_ok domain_keys P (ks_get K s)" and "scope_ok sc"
    and "store_ok domain_keys P (ks_get K r)" and "subject_contains subject sc"
  shows "confirm_covered_by K P (Inr s) (\<lambda>sc heads. case verify_coverage K P (Inr r) subject sc heads of Inl _ \<Rightarrow> None | Inr b \<Rightarrow> Some b) sc
    = Some (\<forall>sp. is_head (ks_get K s) sp \<and> sp_scope sp = sc \<longrightarrow>
        (\<exists>sq. point_in (ks_get K r) sq \<and> sp_scope sq = sc \<and> sp_ts sq = sp_ts sp \<and> sp_epoch sp \<le> sp_epoch sq))"
  using api_store.confirm_covered_run [OF assms] by (simp add: covers_def)

theorem confirm_covered_exact_witness:
  "confirm_covered_by al_engine meta_codec (Inr rows1)
      (\<lambda>sc heads. case verify_coverage al_engine meta_codec (Inr rows1) (Subject_Scope scope0) sc heads of Inl _ \<Rightarrow> None | Inr b \<Rightarrow> Some b) scope0 = Some True
    \<and> confirm_covered_by al_engine meta_codec (Inr rows1)
      (\<lambda>sc heads. case verify_coverage al_engine meta_codec (Inr []) (Subject_Scope scope0) sc heads of Inl _ \<Rightarrow> None | Inr b \<Rightarrow> Some b) scope0 = Some False"
proof -
  have a: "store_ok domain_keys meta_codec (ks_get al_engine [])" "subject_contains (Subject_Scope scope0) scope0"
    by (simp_all add: store_ok_empty subject_contains_def)
  show ?thesis
    using confirm_covered_exact [OF al_api.api_store_axioms rows1_ok scope0_ok rows1_ok a(2)]
      confirm_covered_exact [OF al_api.api_store_axioms rows1_ok scope0_ok a]
    by (simp add: rows1_head rows1_points)
qed

section \<open>Retries\<close>

lemma retry_loop_attempts:
  "snd (retry_loop K P W msg m n i s) \<le> i + n"
proof (induction n arbitrary: i)
  case (Suc n)
  then show ?case using Suc [of "Suc i"] by (auto split: sum.split option.split)
qed simp

lemma retry_loop_conflicts:
  "\<forall>k<n. attempt K P W (i + k) s m = Inr None \<Longrightarrow> retry_loop K P W msg m n i s = (Inl (Tx_Context msg), i + n)"
proof (induction n arbitrary: i)
  case (Suc n)
  have "attempt K P W i s m = Inr None" using Suc.prems by (metis add_0_right zero_less_Suc)
  moreover have "\<forall>k<n. attempt K P W (Suc i + k) s m = Inr None" using Suc.prems by (metis Suc_less_eq add_Suc_shift)
  ultimately show ?case using Suc.IH [of "Suc i"] by simp
qed simp

text \<open>An attempt at a served page whose commit conflicts leaves nothing behind.\<close>

lemma attempt_page_conflict:
  assumes api: "api_store K P" and src: "store_ok domain_keys P (ks_get K s)" "metas_typed P (ks_get K s)"
    and r: "store_ok domain_keys P (ks_get K r)" and W: "calm K P sc W" "w_outcome W i = Conflicted"
    and ps: "\<forall>p\<in>set ps. point_in (ks_get K s) p \<and> sp_scope p = sc" "distinct ps"
  shows "attempt K P W i r (insert_page K P sc (map (point_chunk K P s) ps)) = Inr None"
proof -
  obtain tx where tx: "w_begin W i r = Inr tx" "tx_inv K P tx" "active_scopes tx = []"
    using W(1) r by (auto simp: calm_def)
  have "pulled K P sc (ks_get K s) (ks_get K (tx_ks tx)) [] (tx_ks tx)"
    using tx(2) by (auto simp: pulled_def points_after_def fresh_def rows_after_def version_value_def tx_inv_def)
  then obtain s' where s': "insert_page K P sc (map (point_chunk K P s) ps) tx = (Inr (), tx\<lparr>tx_ks := s'\<rparr>)"
    "pulled K P sc (ks_get K s) (ks_get K (tx_ks tx)) ([] @ ps) s'"
    using api_store.pulled_page [OF api src ps(1), of "ks_get K (tx_ks tx)" "[]" tx] ps(2) by auto
  have "store_ok domain_keys P (ks_get K (tx_ks (tx\<lparr>tx_ks := s'\<rparr>)))" "tx_ok (tx\<lparr>tx_ks := s'\<rparr>)" "active_scopes (tx\<lparr>tx_ks := s'\<rparr>) = []"
    using s'(2) tx(2,3) by (simp_all add: pulled_def tx_inv_def tx_ok_def)
  then have "commit K P Conflicted (tx\<lparr>tx_ks := s'\<rparr>) = Inl Tx_Conflict" by (rule api_store.commit_quiet [OF api])
  then show ?thesis using tx(1) s'(1) W(2) by (simp add: attempt_def)
qed

text \<open>
  C23. Retrying is bounded and fails cleanly: applying a page makes at most ten attempts whatever
  happens, and when ten commits in a row conflict a served page is given up with an error after
  exactly ten, which ends the pull as failed with the puller's store as it was.
\<close>

theorem apply_pull_bounded:
  assumes "api_store K P" and "store_ok domain_keys P (ks_get K s)" and "metas_typed P (ks_get K s)"
    and "store_ok domain_keys P (ks_get K r)" and "calm K P sc W" and "\<forall>k<10. w_outcome W (i + k) = Conflicted"
    and "ps \<noteq> []" and "\<forall>p\<in>set ps. point_in (ks_get K s) p \<and> sp_scope p = sc" and "distinct ps"
    and "pull req = Some (map (point_chunk K P s) ps, next)"
  shows "(\<forall>W' chunks j r'. snd (apply_pull K P W' sc chunks j r') \<le> j + 10)
    \<and> apply_pull K P W sc (map (point_chunk K P s) ps) i r = (Inl (Tx_Context ''a pulled page kept conflicting; giving up''), i + 10)
    \<and> pull_loop pull (apply_pull K P W sc) req pages oldest i r = Some (Pull_Failed, r)"
proof -
  have "snd (apply_pull K P W' sc chunks j r') \<le> j + 10" for W' chunks j r'
    using retry_loop_attempts [of K P W' "''a pulled page kept conflicting; giving up''" "insert_page K P sc chunks" 10 j r']
    by (auto simp: apply_pull_def split: prod.split sum.split)
  moreover have "retry_loop K P W ''a pulled page kept conflicting; giving up'' (insert_page K P sc (map (point_chunk K P s) ps)) 10 i r
      = (Inl (Tx_Context ''a pulled page kept conflicting; giving up''), i + 10)"
    by (rule retry_loop_conflicts) (use attempt_page_conflict [OF assms(1-5) _ assms(8,9)] assms(6) in blast)
  then have "apply_pull K P W sc (map (point_chunk K P s) ps) i r = (Inl (Tx_Context ''a pulled page kept conflicting; giving up''), i + 10)"
    using assms(7) by (simp add: apply_pull_def)
  ultimately show ?thesis using assms(10) by (subst pull_loop.simps) simp
qed

theorem apply_pull_bounded_witness:
  "pull_loop (\<lambda>_. Some (map (point_chunk al_engine meta_codec rows1) [sp0], None))
      (apply_pull al_engine meta_codec (world0\<lparr>w_outcome := \<lambda>_. Conflicted\<rparr>) scope0) (first_request scope0 None []) 0 (- 1) 0 []
    = Some (Pull_Failed, [])"
proof -
  have "calm al_engine meta_codec scope0 (world0\<lparr>w_outcome := \<lambda>_. Conflicted\<rparr>)"
    using world0_calm by (simp add: calm_def)
  moreover have "store_ok domain_keys meta_codec (ks_get al_engine [])" by (simp add: store_ok_empty)
  ultimately show ?thesis
    using apply_pull_bounded [OF al_api.api_store_axioms rows1_ok rows1_typed, of "[]" scope0 "world0\<lparr>w_outcome := \<lambda>_. Conflicted\<rparr>" 0 "[sp0]"
        "\<lambda>_. Some (map (point_chunk al_engine meta_codec rows1) [sp0], None)" "first_request scope0 None []" None]
    by (simp add: rows1_points)
qed

section \<open>A changeset of an older epoch\<close>

context api_store
begin

lemma mutation_inserted:
  assumes tx: "tx_inv K P tx" and sp: "sync_point_ok sp" and sm: "meta_ok sm" "sm_marker sm = Sm_Mutation"
    and new: "\<not> point_in (ks_get K (tx_ks tx)) sp" and es: "fst ` set entries \<subseteq> domain_keys" "distinct (map fst entries)"
  obtains s' where "insert_changeset K P sp sm entries tx = (Inr True, tx\<lparr>tx_ks := s'\<rparr>)"
    "\<And>sq. point_in (ks_get K s') sq \<longleftrightarrow> point_in (ks_get K (tx_ks tx)) sq \<or> sq = sp"
    "\<And>sq. point_in (ks_get K (tx_ks tx)) sq \<Longrightarrow> point_meta P (ks_get K s') sq = point_meta P (ks_get K (tx_ks tx)) sq"
    "\<And>uk. uk \<in> domain_keys \<Longrightarrow> mv (ks_get K s') uk (sp_ts sp) = merged (mv (ks_get K (tx_ks tx)) uk (sp_ts sp)) (map_of entries uk)"
proof -
  have ok: "store_ok domain_keys P (ks_get K (tx_ks tx))" using tx by (simp add: tx_inv_def)
  obtain s' where s': "insert_changeset K P sp sm entries tx = (Inr True, tx\<lparr>tx_ks := s'\<rparr>)"
    "point_added sp sm (ks_get K (tx_ks tx)) (ks_get K s')"
    "\<And>uk t. uk \<in> domain_keys \<Longrightarrow> mv (ks_get K s') uk t = (if t = sp_ts sp
        then merged (mv (ks_get K (tx_ks tx)) uk t) (map_of entries uk) else mv (ks_get K (tx_ks tx)) uk t)"
    by (rule insert_changeset_mutation [OF ok sp sm new es]) (rule that, assumption, assumption, simp)
  have other: "ks_get K s' (sync_point_bytes sq) = ks_get K (tx_ks tx) (sync_point_bytes sq)" if "sync_point_ok sq" "sq \<noteq> sp" for sq
    using s'(2) that by (simp add: point_added_def)
  show thesis
  proof (rule that [OF s'(1)])
    show "point_in (ks_get K s') sq \<longleftrightarrow> point_in (ks_get K (tx_ks tx)) sq \<or> sq = sp" for sq
      using s'(2) other [of sq] by (cases "sq = sp") (auto simp: point_added_def point_in_def)
    show "point_meta P (ks_get K s') sq = point_meta P (ks_get K (tx_ks tx)) sq" if "point_in (ks_get K (tx_ks tx)) sq" for sq
    proof -
      have "sq \<noteq> sp" using that new by auto
      then show ?thesis using that other [of sq] by (simp add: point_in_def point_meta_def)
    qed
  qed (use s'(3) in simp)
qed

end











end
