(* ===== verification/Spec2Isabelle.thy ===== *)
theory Spec2Isabelle
  imports Skey_Properties Store_Properties Version_Properties Op_Properties Replication_Properties
begin

text \<open>
  A verification development of the storage and replication core of the \<open>swarm\<close> workspace.
\<close>

text \<open>
  C24. The range a subject (a namespace, a database or a scope) selects contains exactly the sync
  points of the scopes it contains.
\<close>

theorem subject_range_exact:
  assumes "sync_point_ok sp" and "case subj of Subject_Namespace ns \<Rightarrow> name_ok ns
      | Subject_Database ns db \<Rightarrow> name_ok ns \<and> name_ok db | Subject_Scope sc \<Rightarrow> scope_ok sc"
  shows "\<exists>lo up. range_from_subject subj = Inr (lo, up)
    \<and> (lo \<le> sync_point_bytes sp \<and> sync_point_bytes sp < up \<longleftrightarrow> subject_contains subj (sp_scope sp))"
proof -
  obtain lo up where "range_from_subject subj = Inr (lo, up)" using range_from_subject_ok [OF assms(2)] by blast
  then show ?thesis using range_from_subject_iff [OF assms] by blast
qed

theorem subject_range_exact_witness:
  "\<exists>lo up. range_from_subject (Subject_Database [0x70] [0x70]) = Inr (lo, up)
    \<and> lo \<le> sync_point_bytes \<lparr>sp_scope = \<lparr>namespace = [0x70], database = [0x70], schema = [0x64]\<rparr>,
          sp_ts = 1, sp_epoch = 1, sp_node = replicate 16 0\<rparr>"
proof -
  let ?sp = "\<lparr>sp_scope = \<lparr>namespace = [0x70], database = [0x70], schema = [0x64]\<rparr>, sp_ts = 1, sp_epoch = 1, sp_node = replicate 16 0\<rparr> :: sync_point"
  have "sync_point_ok ?sp" by (simp add: scope_ok_def name_ok_def sync_point_ok_def utf8_valid.simps)
  from subject_range_exact [OF this, of "Subject_Database [0x70] [0x70]"] show ?thesis
    by (auto simp: name_ok_def utf8_valid.simps subject_contains_def)
qed

end
